(* ===== verification/Wanbond_Prelude.thy ===== *)
theory Wanbond_Prelude
  imports Main "HOL-Library.Word" "HOL-Library.Monad_Syntax"
begin

text \<open>
  The vocabulary shared by the component theories: machine integers, Go's instants and
  durations, network addresses, big-endian byte strings, and the two interfaces several
  components implement (a byte codec and an at-most-once sequence filter).

  \<^item> Machine integers. \<open>uint8\<close>, \<open>uint16\<close>, \<open>uint32\<close> and \<open>uint64\<close> are words of their width, so
    \<open>+\<close>, \<open>-\<close> and \<open>*\<close> wrap as Go's do.
  \<^item> Time. A Go \<open>time.Time\<close> is an integer count of nanoseconds since its zero value, so
    \<open>IsZero\<close> is a comparison with 0; a \<open>time.Duration\<close> is an integer count of nanoseconds.
    \<open>Time.Sub\<close> saturates at the ends of the \<open>int64\<close> range, and so does \<open>time_sub\<close>. Sums of
    configured durations stay far below \<open>2\<^sup>6\<^sup>3\<close> nanoseconds (292 years) and are plain sums.
\<close>

unbundle bit_operations_syntax

named_theorems codec_simps \<open>length and shape facts of the byte encoders\<close>
named_theorems nowrap \<open>word arithmetic that does not wrap, read on natural numbers\<close>

type_synonym byte = "8 word"
type_synonym bytes = "byte list"
type_synonym u8 = "8 word"
type_synonym u16 = "16 word"
type_synonym u32 = "32 word"
type_synonym u64 = "64 word"

type_synonym instant = int
type_synonym duration = int

subsection \<open>Instants and durations\<close>

abbreviation zero_time :: instant where
  "zero_time \<equiv> 0"

abbreviation min_duration :: duration where
  "min_duration \<equiv> - (2 ^ 63)"

abbreviation max_duration :: duration where
  "max_duration \<equiv> 2 ^ 63 - 1"

definition millisecond :: duration where
  "millisecond = 1000000"

definition second :: duration where
  "second = 1000000000"

definition time_sub :: "instant \<Rightarrow> instant \<Rightarrow> duration" where
  "time_sub t u = max min_duration (min max_duration (t - u))"

lemma time_sub_exact:
  "min_duration \<le> t - u \<Longrightarrow> t - u \<le> max_duration \<Longrightarrow> time_sub t u = t - u"
  by (simp add: time_sub_def)

lemma time_sub_mono: "t \<le> t' \<Longrightarrow> time_sub t u \<le> time_sub t' u"
  by (simp add: time_sub_def)

lemma time_sub_self [simp]: "time_sub t t = 0"
  by (simp add: time_sub_def)

lemma time_sub_less_iff:
  "d \<le> max_duration \<Longrightarrow> min_duration < d \<Longrightarrow> time_sub t u < d \<longleftrightarrow> t - u < d"
  by (auto simp: time_sub_def)

lemma time_sub_greater_iff:
  "d < max_duration \<Longrightarrow> min_duration \<le> d \<Longrightarrow> d < time_sub t u \<longleftrightarrow> d < t - u"
  by (auto simp: time_sub_def)

lemma time_sub_nonneg [simp]: "u \<le> t \<Longrightarrow> 0 \<le> time_sub t u"
  by (simp add: time_sub_def)

subsection \<open>Network addresses\<close>

text \<open>
  A \<open>netip.Addr\<close> is the zero value, an IPv4 or an IPv6 address (the latter with its zone);
  a \<open>netip.AddrPort\<close> pairs it with a port. Only equality is used of them.
\<close>

datatype addr = NoAddr | Addr4 u32 | Addr6 "128 word" string

record addr_port =
  ap_addr :: addr
  ap_port :: u16

definition zero_addr_port :: addr_port where
  "zero_addr_port = \<lparr>ap_addr = NoAddr, ap_port = 0\<rparr>"

subsection \<open>Words read as natural numbers\<close>

lemma unat_minus_nowrap [nowrap]: "(b :: 'a::len word) \<le> a \<Longrightarrow> unat (a - b) = unat a - unat b"
  by (simp add: unat_sub)

lemma unat_plus_one_nowrap [nowrap]: "(a :: 'a::len word) < b \<Longrightarrow> unat (a + 1) = unat a + 1"
proof -
  assume "a < b"
  then have "unat a < unat b"
    by (simp add: word_less_nat_alt)
  moreover have "unat b < 2 ^ LENGTH('a)"
    by (rule unsigned_less)
  ultimately have "unat a + 1 < 2 ^ LENGTH('a)"
    by linarith
  then show ?thesis by (simp add: unat_plus_if')
qed

lemma unat_plus_nowrap [nowrap]:
  "unat (a :: 'a::len word) + unat b < 2 ^ LENGTH('a) \<Longrightarrow> unat (a + b) = unat a + unat b"
  by (simp add: unat_plus_if')

lemma unat_u64_less: "unat (a :: u64) < 2 ^ 64"
  using unsigned_less [of a] by simp

subsection \<open>Big-endian byte strings\<close>

text \<open>
  \<open>put_be n v\<close> is the \<open>n\<close>-byte big-endian encoding of \<open>v\<close> (Go's \<open>AppendUint16\<close>,
  \<open>AppendUint64\<close> and \<open>PutUint64\<close>), \<open>get_be\<close> the number a byte string encodes.
\<close>

fun put_be :: "nat \<Rightarrow> nat \<Rightarrow> bytes" where
  "put_be 0 v = []"
| "put_be (Suc n) v = put_be n (v div 256) @ [of_nat v]"

definition get_be :: "bytes \<Rightarrow> nat" where
  "get_be bs = foldl (\<lambda>acc b. acc * 256 + unat b) 0 bs"

definition put_u16 :: "u16 \<Rightarrow> bytes" where
  "put_u16 v = put_be 2 (unat v)"

definition put_u64 :: "u64 \<Rightarrow> bytes" where
  "put_u64 v = put_be 8 (unat v)"

definition get_u16 :: "bytes \<Rightarrow> u16" where
  "get_u16 bs = of_nat (get_be (take 2 bs))"

definition get_u64 :: "bytes \<Rightarrow> u64" where
  "get_u64 bs = of_nat (get_be (take 8 bs))"

lemma length_put_be [simp, codec_simps]: "length (put_be n v) = n"
  by (induction n arbitrary: v) auto

lemma length_put_u16 [simp, codec_simps]: "length (put_u16 v) = 2"
  by (simp add: put_u16_def)

lemma length_put_u64 [simp, codec_simps]: "length (put_u64 v) = 8"
  by (simp add: put_u64_def)

lemma get_be_Nil [simp]: "get_be [] = 0"
  by (simp add: get_be_def)

lemma get_be_snoc [simp]: "get_be (bs @ [b]) = get_be bs * 256 + unat b"
  by (simp add: get_be_def)

lemma unat_byte_less: "unat (b :: byte) < 256"
  using unsigned_less [of b] by simp

lemma get_be_put_be: "get_be (put_be n v) = v mod 256 ^ n"
proof (induction n arbitrary: v)
  case 0
  show ?case by simp
next
  case (Suc n)
  have "v mod (256 * 256 ^ n) = 256 * (v div 256 mod 256 ^ n) + v mod 256"
    by (rule mod_mult2_eq)
  then show ?case
    by (simp add: Suc unat_of_nat)
qed

lemma put_be_get_be: "put_be (length bs) (get_be bs) = bs"
proof (induction bs rule: rev_induct)
  case Nil
  show ?case by simp
next
  case (snoc b bs)
  have "(get_be bs * 256 + unat b) div 256 = get_be bs"
    using unat_byte_less [of b] by simp
  moreover have "(of_nat (get_be bs * 256 + unat b) :: byte) = b"
  proof -
    have "(of_nat (get_be bs * 256 + unat b) :: byte) = of_nat (get_be bs) * 256 + b"
      by simp
    also have "(256 :: byte) = 0" by simp
    finally show ?thesis by simp
  qed
  ultimately show ?case using snoc by simp
qed

lemma get_be_less: "get_be bs < 256 ^ length bs"
proof (induction bs rule: rev_induct)
  case Nil
  show ?case by simp
next
  case (snoc b bs)
  then have "get_be bs * 256 + 255 < 256 ^ length bs * 256"
    by linarith
  then show ?case using unat_byte_less [of b] by simp
qed

lemma get_u64_put_u64 [simp, codec_simps]: "get_u64 (put_u64 v @ rest) = v"
proof -
  have "get_be (put_u64 v) = unat v"
    using unat_u64_less [of v] by (simp add: put_u64_def get_be_put_be)
  then show ?thesis by (simp add: get_u64_def)
qed

lemma get_u16_put_u16 [simp, codec_simps]: "get_u16 (put_u16 v @ rest) = v"
proof -
  have "unat v < 65536"
    using unsigned_less [of v] by simp
  then have "get_be (put_u16 v) = unat v"
    by (simp add: put_u16_def get_be_put_be)
  then show ?thesis by (simp add: get_u16_def)
qed

lemma get_u64_put_u64_nil [simp, codec_simps]: "get_u64 (put_u64 v) = v"
  using get_u64_put_u64 [of v "[]"] by simp

lemma get_u16_put_u16_nil [simp, codec_simps]: "get_u16 (put_u16 v) = v"
  using get_u16_put_u16 [of v "[]"] by simp

lemma put_u64_get_u64: "length bs = 8 \<Longrightarrow> put_u64 (get_u64 bs) = bs"
proof -
  assume len: "length bs = 8"
  have "get_be bs < 2 ^ 64"
    using get_be_less [of bs] by (simp add: len)
  then have "unat (get_u64 bs) = get_be bs"
    by (simp add: get_u64_def len unat_of_nat)
  then show ?thesis
    using put_be_get_be [of bs] by (simp add: put_u64_def len)
qed

lemma put_u16_get_u16: "length bs = 2 \<Longrightarrow> put_u16 (get_u16 bs) = bs"
proof -
  assume len: "length bs = 2"
  have "get_be bs < 2 ^ 16"
    using get_be_less [of bs] by (simp add: len)
  then have "unat (get_u16 bs) = get_be bs"
    by (simp add: get_u16_def len unat_of_nat)
  then show ?thesis
    using put_be_get_be [of bs] by (simp add: put_u16_def len)
qed

lemma put_u64_inject [simp]: "put_u64 v = put_u64 w \<longleftrightarrow> v = w"
  by (metis get_u64_put_u64_nil)

text \<open>A run of 64-bit fields, encoded one after the other.\<close>

lemma put_u64_get_u64_take: "8 \<le> length b \<Longrightarrow> put_u64 (get_u64 b) = take 8 b"
  using put_u64_get_u64 [of "take 8 b"] by (simp add: get_u64_def min_def)

lemma get_u64_words:
  "i < length vs \<Longrightarrow> get_u64 (drop (8 * i) (concat (map put_u64 vs))) = vs ! i"
proof (induction vs arbitrary: i)
  case (Cons v vs)
  then show ?case by (cases i) auto
qed simp

lemma length_words [simp, codec_simps]: "length (concat (map put_u64 vs)) = 8 * length vs"
  by (induction vs) auto

lemma words_get_u64:
  "length b = 8 * n \<Longrightarrow> concat (map (\<lambda>i. put_u64 (get_u64 (drop (8 * i) b))) [0..<n]) = b"
proof (induction n arbitrary: b)
  case (Suc n)
  have "map (\<lambda>i. put_u64 (get_u64 (drop (8 * i) b))) [0..<Suc n] =
    put_u64 (get_u64 b) # map (\<lambda>i. put_u64 (get_u64 (drop (8 * i) (drop 8 b)))) [0..<n]"
    by (simp add: upt_conv_Cons map_Suc_upt [symmetric] add.commute del: upt_Suc)
  then show ?case
    using Suc.IH [of "drop 8 b"] Suc.prems by (simp add: put_u64_get_u64_take)
qed simp

subsection \<open>The interface of a byte codec\<close>

text \<open>
  What the sender and the receiver of a wire format rely on: the decoder inverts the encoder
  on the well-formed values. The wire formats of the program are interpretations.
\<close>

locale byte_codec =
  fixes enc :: "'a \<Rightarrow> bytes"
    and dec :: "bytes \<Rightarrow> 'e + 'a"
    and wf :: "'a \<Rightarrow> bool"
  assumes dec_enc: "wf a \<Longrightarrow> dec (enc a) = Inr a"
begin

lemma enc_inject: "wf a \<Longrightarrow> wf b \<Longrightarrow> enc a = enc b \<longleftrightarrow> a = b"
  by (metis dec_enc sum.inject(2))

lemma enc_inj_on: "inj_on enc {a. wf a}"
  by (rule inj_onI) (simp add: enc_inject)

lemma dec_unique: "wf a \<Longrightarrow> dec (enc a) = Inr b \<Longrightarrow> a = b"
  by (simp add: dec_enc)

end

subsection \<open>The interface of an at-most-once filter\<close>

text \<open>
  A filter is asked about keys one after the other and accepts some of them. \<open>spent s k\<close> says
  that the filter in state \<open>s\<close> refuses \<open>k\<close> from now on. The laws are those of the program's
  replay filters: a spent key is refused, an accepted key is spent afterwards, and a spent key
  stays spent. A client learns that no key is accepted twice, whatever it asks.
\<close>

fun run_filter :: "('s \<Rightarrow> 'k \<Rightarrow> bool \<times> 's) \<Rightarrow> 's \<Rightarrow> 'k list \<Rightarrow> 'k list \<times> 's" where
  "run_filter accept s [] = ([], s)"
| "run_filter accept s (k # ks) =
     (let (ok, s') = accept s k; (acc, s'') = run_filter accept s' ks
      in (if ok then k # acc else acc, s''))"

locale once_filter =
  fixes accept :: "'s \<Rightarrow> 'k \<Rightarrow> bool \<times> 's"
    and spent :: "'s \<Rightarrow> 'k \<Rightarrow> bool"
    and invar :: "'s \<Rightarrow> bool"
  assumes spent_refused: "invar s \<Longrightarrow> spent s k \<Longrightarrow> \<not> fst (accept s k)"
    and accepted_spent: "invar s \<Longrightarrow> fst (accept s k) \<Longrightarrow> spent (snd (accept s k)) k"
    and spent_mono: "invar s \<Longrightarrow> spent s k \<Longrightarrow> spent (snd (accept s k')) k"
    and invar_accept: "invar s \<Longrightarrow> invar (snd (accept s k))"
begin

lemma invar_run: "invar s \<Longrightarrow> invar (snd (run_filter accept s ks))"
  by (induction ks arbitrary: s) (simp_all add: case_prod_beta Let_def invar_accept)

lemma spent_run: "invar s \<Longrightarrow> spent s k \<Longrightarrow> k \<notin> set (fst (run_filter accept s ks))"
proof (induction ks arbitrary: s)
  case (Cons k' ks)
  then have "k \<notin> set (fst (run_filter accept (snd (accept s k')) ks))"
    by (simp add: invar_accept spent_mono)
  with Cons.prems show ?case
    by (auto simp: case_prod_beta Let_def dest: spent_refused)
qed simp

lemma accepted_distinct: "invar s \<Longrightarrow> distinct (fst (run_filter accept s ks))"
  by (induction ks arbitrary: s)
    (auto simp: case_prod_beta Let_def invar_accept accepted_spent spent_run)

lemma replay_refused:
  "invar s \<Longrightarrow> k \<in> set (fst (run_filter accept s ks)) \<Longrightarrow>
   \<not> fst (accept (snd (run_filter accept s ks)) k)"
proof (induction ks arbitrary: s)
  case Nil
  then show ?case by simp
next
  case (Cons k' ks)
  have step: "invar (snd (accept s k'))"
    using Cons.prems(1) by (rule invar_accept)
  have keep: "spent (snd (run_filter accept t ks)) j" if "invar t" and "spent t j" for t j
    using that by (induction ks arbitrary: t)
      (simp_all add: case_prod_beta Let_def invar_accept spent_mono)
  show ?case
  proof (cases "k \<in> set (fst (run_filter accept (snd (accept s k')) ks))")
    case True
    then show ?thesis using Cons.IH [OF step] by (simp add: case_prod_beta Let_def)
  next
    case False
    with Cons.prems have "k = k'" and "fst (accept s k')"
      by (auto simp: case_prod_beta Let_def split: if_splits)
    then have "spent (snd (accept s k')) k"
      using Cons.prems(1) by (simp add: accepted_spent)
    then have "spent (snd (run_filter accept (snd (accept s k')) ks)) k"
      by (rule keep [OF step])
    then show ?thesis
      using spent_refused [OF invar_run [OF step]] by (simp add: case_prod_beta Let_def)
  qed
qed

end

end
