(* ===== verification/Frame.thy ===== *)
theory Frame
  imports Wanbond_Prelude
begin

text \<open>
  The outer frame codec, \<open>src/internal/frame/frame.go\<close>: the two frame kinds, the plaintext body
  and its fail-fast reader, and the PSK-bound \<open>Codec\<close> that obfuscates a body with a keystream
  and authenticates it with a truncated MAC.

  The cryptographic primitives (\<open>crypto/hkdf\<close>, \<open>x/crypto/chacha20\<close>, \<open>crypto/hmac\<close>) and the
  random nonce are arguments of the model. What the codec relies on is \<open>crypto_laws\<close>: a cipher
  exists for a 32-byte key and a 24-byte nonce, HMAC-SHA256 returns 32 bytes, and HKDF returns
  the requested number of bytes. Nothing is assumed of their strength.

  A Go byte slice is a list; a nil slice is the empty list. A method that writes a codec's
  scratch buffers returns the updated codec. The panics of the source are the error value
  \<open>CipherPanic\<close>, so that their absence is a theorem.
\<close>

subsection \<open>Constants, kinds and frames\<close>

abbreviation nonceLen :: nat where "nonceLen \<equiv> 24"
abbreviation tagLen :: nat where "tagLen \<equiv> 16"
abbreviation subkeyLen :: nat where "subkeyLen \<equiv> 32"

definition infoObf :: string where
  "infoObf = ''wanbond outer-frame obfuscation v1''"

definition infoAuth :: string where
  "infoAuth = ''wanbond outer-frame authentication v1''"

definition ControlOverhead :: nat where
  "ControlOverhead = nonceLen + 1 + 1 + 8 + tagLen"

definition KindProbe :: u8 where "KindProbe = 3"
definition KindControl :: u8 where "KindControl = 4"

definition kind_valid :: "u8 \<Rightarrow> bool" where
  "kind_valid k \<longleftrightarrow> k = KindProbe \<or> k = KindControl"

text \<open>\<open>TimestampNanos\<close> is an \<open>int64\<close>; the model keeps its 64 bits, which is what travels.\<close>

record probe =
  pr_PathID :: u8
  pr_ProbeSeq :: u64
  pr_TimestampNanos :: u64
  pr_IsEcho :: bool
  pr_SessionID :: u64
  pr_Challenge :: u64
  pr_Padded :: bool
  pr_PadLen :: u16
  pr_Payload :: bytes

record control =
  ct_ControlType :: u8
  ct_Seq :: u64
  ct_Payload :: bytes

datatype frame = ProbeFrame probe | ControlFrame control

fun frame_kind :: "frame \<Rightarrow> u8" where
  "frame_kind (ProbeFrame p) = KindProbe"
| "frame_kind (ControlFrame c) = KindControl"

datatype frame_error =
  ErrMalformed | ErrAuth | ErrPSKUnset | ErrDerive | ErrNonce | CipherPanic

definition probeFlagEcho :: u8 where "probeFlagEcho = push_bit 0 1"
definition probeFlagPadded :: u8 where "probeFlagPadded = push_bit 1 1"

definition probeFixedBody :: nat where
  "probeFixedBody = 1 + 1 + 8 + 8 + 1 + 8 + 8"

definition ProbeBaseOnWire :: nat where
  "ProbeBaseOnWire = nonceLen + probeFixedBody + 2 + tagLen"

definition MaxPaddedProbeOnWire :: nat where
  "MaxPaddedProbeOnWire = 9000"

lemmas frame_size_defs =
  probeFixedBody_def ProbeBaseOnWire_def MaxPaddedProbeOnWire_def ControlOverhead_def

subsection \<open>Padded probes\<close>

definition ProbeOnWireSize :: "u16 \<Rightarrow> nat" where
  "ProbeOnWireSize padLen = ProbeBaseOnWire + unat padLen"

definition PadLenForOnWire :: "int \<Rightarrow> frame_error + u16" where
  "PadLenForOnWire onWire =
     (if onWire < int ProbeBaseOnWire then Inl ErrMalformed
      else if onWire > int MaxPaddedProbeOnWire then Inl ErrMalformed
      else Inr (of_int (onWire - int ProbeBaseOnWire)))"

definition probe_validate :: "probe \<Rightarrow> frame_error option" where
  "probe_validate f =
     (if \<not> pr_Padded f then None
      else if length (pr_Payload f) > 0 then Some ErrMalformed
      else if ProbeOnWireSize (pr_PadLen f) > MaxPaddedProbeOnWire then Some ErrMalformed
      else None)"

subsection \<open>The plaintext body\<close>

definition probe_flags :: "probe \<Rightarrow> u8" where
  "probe_flags f =
     (let b = (if pr_IsEcho f then 0 OR probeFlagEcho else 0)
      in if pr_Padded f then b OR probeFlagPadded else b)"

definition probe_appendBody :: "bytes \<Rightarrow> probe \<Rightarrow> bytes" where
  "probe_appendBody dst f =
     (let dst = dst @ [KindProbe];
          dst = dst @ [pr_PathID f];
          dst = dst @ put_u64 (pr_ProbeSeq f);
          dst = dst @ put_u64 (pr_TimestampNanos f);
          dst = dst @ [probe_flags f];
          dst = dst @ put_u64 (pr_SessionID f);
          dst = dst @ put_u64 (pr_Challenge f)
      in if pr_Padded f then (dst @ put_u16 (pr_PadLen f)) @ replicate (unat (pr_PadLen f)) 0
         else dst @ pr_Payload f)"

definition control_appendBody :: "bytes \<Rightarrow> control \<Rightarrow> bytes" where
  "control_appendBody dst f =
     (let dst = dst @ [KindControl];
          dst = dst @ [ct_ControlType f];
          dst = dst @ put_u64 (ct_Seq f)
      in dst @ ct_Payload f)"

fun appendBody :: "bytes \<Rightarrow> frame \<Rightarrow> bytes" where
  "appendBody dst (ProbeFrame f) = probe_appendBody dst f"
| "appendBody dst (ControlFrame f) = control_appendBody dst f"

subsection \<open>The big-endian reader\<close>

text \<open>
  Every read returns its value, its error and the cursor: after a failed read the cursor is
  where it was and the value is zero, and the caller looks at the first error only after all
  reads.
\<close>

record reader =
  rd_b :: bytes
  rd_off :: nat

definition reader_need :: "reader \<Rightarrow> nat \<Rightarrow> frame_error option" where
  "reader_need r n = (if rd_off r + n > length (rd_b r) then Some ErrMalformed else None)"

definition reader_u8 :: "reader \<Rightarrow> u8 \<times> frame_error option \<times> reader" where
  "reader_u8 r =
     (case reader_need r 1 of
        Some e \<Rightarrow> (0, Some e, r)
      | None \<Rightarrow> (rd_b r ! rd_off r, None, r\<lparr>rd_off := rd_off r + 1\<rparr>))"

definition reader_u16 :: "reader \<Rightarrow> u16 \<times> frame_error option \<times> reader" where
  "reader_u16 r =
     (case reader_need r 2 of
        Some e \<Rightarrow> (0, Some e, r)
      | None \<Rightarrow> (get_u16 (drop (rd_off r) (rd_b r)), None, r\<lparr>rd_off := rd_off r + 2\<rparr>))"

definition reader_u64 :: "reader \<Rightarrow> u64 \<times> frame_error option \<times> reader" where
  "reader_u64 r =
     (case reader_need r 8 of
        Some e \<Rightarrow> (0, Some e, r)
      | None \<Rightarrow> (get_u64 (drop (rd_off r) (rd_b r)), None, r\<lparr>rd_off := rd_off r + 8\<rparr>))"

definition reader_rest :: "reader \<Rightarrow> bytes" where
  "reader_rest r = drop (rd_off r) (rd_b r)"

fun firstErr :: "frame_error option list \<Rightarrow> frame_error option" where
  "firstErr [] = None"
| "firstErr (Some e # es) = Some e"
| "firstErr (None # es) = firstErr es"

definition decodeBody :: "u8 \<Rightarrow> bytes \<Rightarrow> frame_error + frame" where
  "decodeBody kind b =
     (let r = \<lparr>rd_b = b, rd_off = 0\<rparr> in
      if kind = KindProbe then
        (let (pathID, e1, r) = reader_u8 r;
             (probeSeq, e2, r) = reader_u64 r;
             (ts, e3, r) = reader_u64 r;
             (flags, e4, r) = reader_u8 r;
             (sessionID, e5, r) = reader_u64 r;
             (challenge, e6, r) = reader_u64 r
         in case firstErr [e1, e2, e3, e4, e5, e6] of
              Some e \<Rightarrow> Inl e
            | None \<Rightarrow>
                (let probe = \<lparr>pr_PathID = pathID, pr_ProbeSeq = probeSeq,
                              pr_TimestampNanos = ts, pr_IsEcho = (flags AND probeFlagEcho \<noteq> 0),
                              pr_SessionID = sessionID, pr_Challenge = challenge,
                              pr_Padded = False, pr_PadLen = 0, pr_Payload = []\<rparr>
                 in if flags AND probeFlagPadded \<noteq> 0 then
                      (let (padLen, e7, r) = reader_u16 r
                       in case e7 of
                            Some e \<Rightarrow> Inl e
                          | None \<Rightarrow>
                              (if length (reader_rest r) \<noteq> unat padLen then Inl ErrMalformed
                               else Inr (ProbeFrame (probe\<lparr>pr_Padded := True, pr_PadLen := padLen\<rparr>))))
                    else Inr (ProbeFrame (probe\<lparr>pr_Payload := reader_rest r\<rparr>))))
      else if kind = KindControl then
        (let (ctype, e1, r) = reader_u8 r;
             (seq, e2, r) = reader_u64 r
         in case firstErr [e1, e2] of
              Some e \<Rightarrow> Inl e
            | None \<Rightarrow> Inr (ControlFrame
                \<lparr>ct_ControlType = ctype, ct_Seq = seq, ct_Payload = reader_rest r\<rparr>))
      else Inl ErrMalformed)"

subsection \<open>Keys and the codec\<close>

text \<open>\<open>config.Key\<close>: 32 bytes and whether they were set.\<close>

record key =
  key_bytes :: bytes
  key_set :: bool

record crypto =
  hkdf_key :: "bytes \<Rightarrow> string \<Rightarrow> nat \<Rightarrow> bytes option"
  new_cipher :: "bytes \<Rightarrow> bytes \<Rightarrow> (nat \<Rightarrow> byte) option"
  hmac_sum :: "bytes \<Rightarrow> bytes \<Rightarrow> bytes"

record codec =
  cd_obfKey :: bytes
  cd_authKey :: bytes
  cd_encScratch :: bytes
  cd_decScratch :: bytes

definition subkeys :: "crypto \<Rightarrow> key \<Rightarrow> frame_error + bytes \<times> bytes" where
  "subkeys X psk =
     (if \<not> key_set psk then Inl ErrPSKUnset
      else case hkdf_key X (key_bytes psk) infoObf subkeyLen of
             None \<Rightarrow> Inl ErrDerive
           | Some obfKey \<Rightarrow>
               (case hkdf_key X (key_bytes psk) infoAuth subkeyLen of
                  None \<Rightarrow> Inl ErrDerive
                | Some authKey \<Rightarrow> Inr (obfKey, authKey)))"

definition NewCodec :: "crypto \<Rightarrow> key \<Rightarrow> frame_error + codec" where
  "NewCodec X psk =
     (case subkeys X psk of
        Inl e \<Rightarrow> Inl e
      | Inr (obfKey, authKey) \<Rightarrow>
          Inr \<lparr>cd_obfKey = obfKey, cd_authKey = authKey, cd_encScratch = [], cd_decScratch = []\<rparr>)"

text \<open>\<open>XORKeyStream\<close> from keystream position \<open>i\<close>; a cipher's second call continues the stream.\<close>

fun xor_keystream :: "(nat \<Rightarrow> byte) \<Rightarrow> nat \<Rightarrow> bytes \<Rightarrow> bytes" where
  "xor_keystream ks i [] = []"
| "xor_keystream ks i (b # bs) = (b XOR ks i) # xor_keystream ks (Suc i) bs"

definition obfuscate :: "crypto \<Rightarrow> bytes \<Rightarrow> bytes \<Rightarrow> bytes \<Rightarrow> frame_error + bytes" where
  "obfuscate X obfKey nonce body =
     (case new_cipher X obfKey nonce of
        None \<Rightarrow> Inl CipherPanic
      | Some ks \<Rightarrow> Inr (xor_keystream ks 0 body))"

definition tag :: "crypto \<Rightarrow> bytes \<Rightarrow> bytes \<Rightarrow> bytes \<Rightarrow> bytes" where
  "tag X authKey nonce obfBody = take tagLen (hmac_sum X authKey (nonce @ obfBody))"

fun frame_validate :: "frame \<Rightarrow> frame_error option" where
  "frame_validate (ProbeFrame p) = probe_validate p"
| "frame_validate (ControlFrame c) = None"

text \<open>\<open>rnd\<close> is what \<open>rand.Read\<close> fills the nonce with; \<open>None\<close> is its failure.\<close>

definition Codec_Encode ::
  "crypto \<Rightarrow> codec \<Rightarrow> bytes \<Rightarrow> frame \<Rightarrow> bytes option \<Rightarrow> codec \<times> (frame_error + bytes)" where
  "Codec_Encode X c dst f rnd =
     (case frame_validate f of
        Some e \<Rightarrow> (c, Inl e)
      | None \<Rightarrow>
          (let body = appendBody [] f;
               c = c\<lparr>cd_encScratch := body\<rparr>
           in case rnd of
                None \<Rightarrow> (c, Inl ErrNonce)
              | Some nonce \<Rightarrow>
                  (case obfuscate X (cd_obfKey c) nonce body of
                     Inl e \<Rightarrow> (c, Inl e)
                   | Inr obfBody \<Rightarrow>
                       (c\<lparr>cd_encScratch := obfBody\<rparr>,
                        Inr (((dst @ nonce) @ obfBody) @ tag X (cd_authKey c) nonce obfBody)))))"

definition Codec_Decode :: "crypto \<Rightarrow> codec \<Rightarrow> bytes \<Rightarrow> codec \<times> (frame_error + frame)" where
  "Codec_Decode X c raw =
     (if length raw < nonceLen + 1 then (c, Inl ErrMalformed)
      else
        let nonce = take nonceLen raw;
            rest = drop nonceLen raw
        in case new_cipher X (cd_obfKey c) nonce of
             None \<Rightarrow> (c, Inl CipherPanic)
           | Some ks \<Rightarrow>
               (let kind = (rest ! 0) XOR ks 0 in
                if \<not> kind_valid kind then (c, Inl ErrMalformed)
                else if length rest < tagLen + 1 then (c, Inl ErrMalformed)
                else
                  let obfBody = take (length rest - tagLen) rest;
                      gotTag = drop (length rest - tagLen) rest
                  in if gotTag \<noteq> tag X (cd_authKey c) nonce obfBody then (c, Inl ErrAuth)
                     else
                       let body = kind # xor_keystream ks 1 (tl obfBody)
                       in (c\<lparr>cd_decScratch := body\<rparr>, decodeBody kind (tl body))))"

text \<open>The one-shot wrappers.\<close>

definition Encode :: "crypto \<Rightarrow> key \<Rightarrow> frame \<Rightarrow> bytes option \<Rightarrow> frame_error + bytes" where
  "Encode X psk f rnd =
     (case NewCodec X psk of Inl e \<Rightarrow> Inl e | Inr c \<Rightarrow> snd (Codec_Encode X c [] f rnd))"

definition Decode :: "crypto \<Rightarrow> key \<Rightarrow> bytes \<Rightarrow> frame_error + frame" where
  "Decode X psk raw =
     (case NewCodec X psk of Inl e \<Rightarrow> Inl e | Inr c \<Rightarrow> snd (Codec_Decode X c raw))"

subsection \<open>What the codec relies on\<close>

definition crypto_laws :: "crypto \<Rightarrow> bool" where
  "crypto_laws X \<longleftrightarrow>
     (\<forall>s info n k. hkdf_key X s info n = Some k \<longrightarrow> length k = n) \<and>
     (\<forall>k nonce. length k = subkeyLen \<longrightarrow> length nonce = nonceLen \<longrightarrow> new_cipher X k nonce \<noteq> None) \<and>
     (\<forall>k m. length (hmac_sum X k m) = 32)"

definition codec_ok :: "codec \<Rightarrow> bool" where
  "codec_ok c \<longleftrightarrow> length (cd_obfKey c) = subkeyLen \<and> length (cd_authKey c) = subkeyLen"

text \<open>
  The frames the wire can express: a padded probe has no payload, an unpadded one no pad
  length, and both fit the size limit. On these the codec loses nothing.
\<close>

fun canonical :: "frame \<Rightarrow> bool" where
  "canonical (ProbeFrame p) \<longleftrightarrow>
     probe_validate p = None \<and> (\<not> pr_Padded p \<longrightarrow> pr_PadLen p = 0)"
| "canonical (ControlFrame c) \<longleftrightarrow> True"


subsection \<open>The body round trip\<close>

lemma reader_u8_hit:
  "drop off b = v # rest \<Longrightarrow>
   reader_u8 \<lparr>rd_b = b, rd_off = off\<rparr> = (v, None, \<lparr>rd_b = b, rd_off = off + 1\<rparr>)"
  by (cases "off < length b")
    (auto simp: reader_u8_def reader_need_def Cons_nth_drop_Suc [symmetric])

lemma reader_u16_hit:
  "drop off b = put_u16 v @ rest \<Longrightarrow>
   reader_u16 \<lparr>rd_b = b, rd_off = off\<rparr> = (v, None, \<lparr>rd_b = b, rd_off = off + 2\<rparr>)"
proof -
  assume hit: "drop off b = put_u16 v @ rest"
  then have "length b - off = 2 + length rest"
    by (metis length_append length_drop length_put_u16)
  then show ?thesis
    using hit by (simp add: reader_u16_def reader_need_def)
qed

lemma reader_u64_hit:
  "drop off b = put_u64 v @ rest \<Longrightarrow>
   reader_u64 \<lparr>rd_b = b, rd_off = off\<rparr> = (v, None, \<lparr>rd_b = b, rd_off = off + 8\<rparr>)"
proof -
  assume hit: "drop off b = put_u64 v @ rest"
  then have "length b - off = 8 + length rest"
    by (metis length_append length_drop length_put_u64)
  then show ?thesis
    using hit by (simp add: reader_u64_def reader_need_def)
qed

lemmas reader_hits = reader_u8_hit reader_u16_hit reader_u64_hit

lemma probe_flag_bits [simp]:
  "(probe_flags p AND probeFlagEcho \<noteq> 0) = pr_IsEcho p"
  "(probe_flags p AND probeFlagPadded \<noteq> 0) = pr_Padded p"
  by (simp_all add: probe_flags_def probeFlagEcho_def probeFlagPadded_def Let_def)

lemma probe_body_eq:
  "probe_appendBody [] p =
     KindProbe # pr_PathID p # put_u64 (pr_ProbeSeq p) @ put_u64 (pr_TimestampNanos p) @
     probe_flags p # put_u64 (pr_SessionID p) @ put_u64 (pr_Challenge p) @
     (if pr_Padded p then put_u16 (pr_PadLen p) @ replicate (unat (pr_PadLen p)) 0
      else pr_Payload p)"
  by (simp add: probe_appendBody_def Let_def)

lemma control_body_eq:
  "control_appendBody [] c = KindControl # ct_ControlType c # put_u64 (ct_Seq c) @ ct_Payload c"
  by (simp add: control_appendBody_def Let_def)

lemma decodeBody_probe:
  assumes "probe_validate p = None" and "\<not> pr_Padded p \<longrightarrow> pr_PadLen p = 0"
  shows "decodeBody KindProbe (tl (probe_appendBody [] p)) = Inr (ProbeFrame p)"
  using assms
  by (auto simp: decodeBody_def probe_body_eq Let_def reader_hits reader_rest_def
      probe_validate_def split: if_splits)

lemma decodeBody_control:
  "decodeBody KindControl (tl (control_appendBody [] c)) = Inr (ControlFrame c)"
  by (simp add: decodeBody_def control_body_eq Let_def reader_hits reader_rest_def
      KindControl_def KindProbe_def)

lemma appendBody_kind:
  "\<exists>bs. appendBody [] f = frame_kind f # bs"
  by (cases f) (simp_all add: probe_body_eq control_body_eq)

lemma frame_kind_valid [simp]: "kind_valid (frame_kind f)"
  by (cases f) (simp_all add: kind_valid_def)

lemma decodeBody_appendBody:
  "canonical f \<Longrightarrow> decodeBody (frame_kind f) (tl (appendBody [] f)) = Inr f"
  by (cases f) (simp_all add: decodeBody_probe decodeBody_control)

text \<open>The plaintext body as a byte codec: its kind byte selects the reader.\<close>

definition decode_plain :: "bytes \<Rightarrow> frame_error + frame" where
  "decode_plain body =
     (if body \<noteq> [] \<and> kind_valid (hd body) then decodeBody (hd body) (tl body)
      else Inl ErrMalformed)"

interpretation frame_body: byte_codec "appendBody []" decode_plain canonical
proof unfold_locales
  fix f assume "canonical f"
  then show "decode_plain (appendBody [] f) = Inr f"
    using appendBody_kind [of f] decodeBody_appendBody [of f]
    by (auto simp: decode_plain_def)
qed

subsection \<open>The keystream\<close>

lemma length_xor_keystream [simp, codec_simps]: "length (xor_keystream ks i bs) = length bs"
  by (induction bs arbitrary: i) auto

lemma xor_keystream_involution [simp]: "xor_keystream ks i (xor_keystream ks i bs) = bs"
  by (induction bs arbitrary: i) (auto simp: ac_simps)

lemma xor_keystream_Nil_iff [simp]: "xor_keystream ks i bs = [] \<longleftrightarrow> bs = []"
  by (cases bs) auto

lemma xor_keystream_hd_tl:
  "bs \<noteq> [] \<Longrightarrow> xor_keystream ks 0 bs = (hd bs XOR ks 0) # xor_keystream ks 1 (tl bs)"
  by (cases bs) auto

lemma length_tag [simp]: "crypto_laws X \<Longrightarrow> length (tag X k nonce b) = tagLen"
  by (simp add: tag_def crypto_laws_def)

subsection \<open>Decoding, characterised\<close>

text \<open>
  The shape of an accepted datagram: a nonce, a non-empty obfuscated body and the tag the
  codec computes over both.
\<close>

definition wire_frame :: "crypto \<Rightarrow> codec \<Rightarrow> bytes \<Rightarrow> bytes \<Rightarrow> bytes" where
  "wire_frame X c nonce obfBody = nonce @ obfBody @ tag X (cd_authKey c) nonce obfBody"

lemma Codec_Decode_wire_frame:
  assumes "crypto_laws X" and "length nonce = nonceLen" and "obfBody \<noteq> []"
    and "new_cipher X (cd_obfKey c) nonce = Some ks"
  shows "snd (Codec_Decode X c (wire_frame X c nonce obfBody)) =
    decode_plain (xor_keystream ks 0 obfBody)"
  using assms
  by (simp add: Codec_Decode_def wire_frame_def decode_plain_def Let_def nth_append
      xor_keystream_hd_tl hd_conv_nth)

lemma Codec_Decode_accepts:
  assumes laws: "crypto_laws X" and acc: "snd (Codec_Decode X c raw) = Inr f"
  obtains nonce obfBody ks where
    "raw = wire_frame X c nonce obfBody" and "length nonce = nonceLen" and "obfBody \<noteq> []"
    and "new_cipher X (cd_obfKey c) nonce = Some ks"
    and "decode_plain (xor_keystream ks 0 obfBody) = Inr f"
proof -
  let ?nonce = "take nonceLen raw"
  let ?rest = "drop nonceLen raw"
  let ?obf = "take (length ?rest - tagLen) ?rest"
  from acc obtain ks where ks: "new_cipher X (cd_obfKey c) ?nonce = Some ks"
    and long: "\<not> length raw < nonceLen + 1" "\<not> length ?rest < tagLen + 1"
    and tag: "drop (length ?rest - tagLen) ?rest = tag X (cd_authKey c) ?nonce ?obf"
    by (auto simp: Codec_Decode_def Let_def split: if_splits option.splits)
  have raw: "raw = wire_frame X c ?nonce ?obf"
    unfolding wire_frame_def tag [symmetric] append_take_drop_id ..
  have obf: "?obf \<noteq> []" "length ?nonce = nonceLen"
    using long by auto
  have "decode_plain (xor_keystream ks 0 ?obf) = Inr f"
    using Codec_Decode_wire_frame [OF laws obf(2,1) ks] acc raw by simp
  with raw obf ks show ?thesis by (intro that)
qed

subsection \<open>Properties of the codec\<close>

lemma Codec_Encode_wire:
  assumes "crypto_laws X" and "codec_ok c" and "frame_validate f = None"
    and "length nonce = nonceLen"
  obtains ks where "new_cipher X (cd_obfKey c) nonce = Some ks"
    and "snd (Codec_Encode X c dst f (Some nonce)) =
      Inr (dst @ wire_frame X c nonce (xor_keystream ks 0 (appendBody [] f)))"
proof -
  have "new_cipher X (cd_obfKey c) nonce \<noteq> None"
    using assms(1,2,4) by (simp add: crypto_laws_def codec_ok_def)
  then obtain ks where "new_cipher X (cd_obfKey c) nonce = Some ks"
    by blast
  then show ?thesis
    using assms(3) by (intro that) (simp_all add: Codec_Encode_def obfuscate_def wire_frame_def Let_def)
qed

lemma canonical_validate: "canonical f \<Longrightarrow> frame_validate f = None"
  by (cases f) auto

lemma Codec_round_trip:
  assumes "crypto_laws X" and "codec_ok c" and "canonical f" and "length nonce = nonceLen"
    and "cd_obfKey d = cd_obfKey c" and "cd_authKey d = cd_authKey c"
  obtains raw where "snd (Codec_Encode X c dst f (Some nonce)) = Inr (dst @ raw)"
    and "snd (Codec_Decode X d raw) = Inr f"
proof -
  obtain ks where ks: "new_cipher X (cd_obfKey c) nonce = Some ks"
    and enc: "snd (Codec_Encode X c dst f (Some nonce)) =
      Inr (dst @ wire_frame X c nonce (xor_keystream ks 0 (appendBody [] f)))"
    using Codec_Encode_wire assms(1,2,4) canonical_validate [OF assms(3)] by blast
  have "wire_frame X c = wire_frame X d"
    using assms(6) by (intro ext) (simp add: wire_frame_def)
  moreover have "appendBody [] f \<noteq> []"
    using appendBody_kind [of f] by auto
  ultimately have "snd (Codec_Decode X d (wire_frame X c nonce (xor_keystream ks 0 (appendBody [] f))))
      = decode_plain (appendBody [] f)"
    using Codec_Decode_wire_frame [OF assms(1,4), of _ d ks] assms(5) ks by simp
  with enc show ?thesis
    using frame_body.dec_enc [OF assms(3)] that by auto
qed

lemma NewCodec_ok: "crypto_laws X \<Longrightarrow> NewCodec X psk = Inr c \<Longrightarrow> codec_ok c"
  unfolding crypto_laws_def by (auto simp: NewCodec_def subkeys_def codec_ok_def split: if_splits option.splits sum.splits)

lemma Encode_round_trip:
  assumes "crypto_laws X" and "NewCodec X psk = Inr c" and "canonical f" and "length nonce = nonceLen"
  obtains raw where "Encode X psk f (Some nonce) = Inr raw" and "Decode X psk raw = Inr f"
  using Codec_round_trip [OF assms(1) NewCodec_ok [OF assms(1,2)] assms(3,4), of c "[]"] assms(2)
  by (auto simp: Encode_def Decode_def)

text \<open>
  C14: Whatever the codec encodes, a codec of the same keys decodes back to the same frame, for
  every frame the wire can express, every buffer it is appended to and every content of the
  two codecs' scratch buffers.
\<close>

theorem decode_encode:
  assumes "crypto_laws X" and "codec_ok c" and "canonical f" and "length nonce = nonceLen"
    and "cd_obfKey d = cd_obfKey c" and "cd_authKey d = cd_authKey c"
  shows "\<exists>raw. snd (Codec_Encode X c dst f (Some nonce)) = Inr (dst @ raw) \<and>
               snd (Codec_Decode X d raw) = Inr f"
  using Codec_round_trip [OF assms] by metis

text \<open>
  C15: A datagram is accepted exactly when it is a nonce, an obfuscated body and the MAC tag of
  both under the codec's authentication key, and the body's plaintext parses: no frame of any
  kind is accepted without the tag.
\<close>

theorem decode_authentic:
  assumes "crypto_laws X"
  shows "snd (Codec_Decode X c raw) = Inr f \<longleftrightarrow>
    (\<exists>nonce obfBody ks. raw = nonce @ obfBody @ tag X (cd_authKey c) nonce obfBody \<and>
       length nonce = nonceLen \<and> obfBody \<noteq> [] \<and> new_cipher X (cd_obfKey c) nonce = Some ks \<and>
       decode_plain (xor_keystream ks 0 obfBody) = Inr f)"
    (is "?acc \<longleftrightarrow> ?shape")
proof
  assume ?acc
  then show ?shape
    using Codec_Decode_accepts [OF assms] unfolding wire_frame_def by metis
next
  assume ?shape
  then show ?acc
    using Codec_Decode_wire_frame [OF assms] unfolding wire_frame_def by metis
qed

lemma decodeBody_error: "decodeBody k b = Inl e \<Longrightarrow> e = ErrMalformed"
  by (auto simp: decodeBody_def Let_def reader_u8_def reader_u16_def reader_u64_def
      reader_need_def split: if_splits option.splits)

lemma decodeBody_verdict: "decodeBody k b \<noteq> Inl ErrMalformed \<Longrightarrow> decodeBody k b \<in> range Inr"
  by (cases "decodeBody k b") (auto dest: decodeBody_error)

lemma codec_cipher:
  "crypto_laws X \<Longrightarrow> codec_ok c \<Longrightarrow> nonceLen \<le> length raw \<Longrightarrow>
   new_cipher X (cd_obfKey c) (take nonceLen raw) \<noteq> None"
  by (simp add: crypto_laws_def codec_ok_def)

lemma padded_Encode_size:
  assumes "crypto_laws X" and "codec_ok c" and "length nonce = nonceLen"
    and "PadLenForOnWire onWire = Inr padLen" and "pr_Payload p = []"
  obtains raw where "snd (Codec_Encode X c [] (ProbeFrame (p\<lparr>pr_Padded := True, pr_PadLen := padLen\<rparr>)) (Some nonce)) = Inr raw"
    and "int (length raw) = onWire" and "canonical (ProbeFrame (p\<lparr>pr_Padded := True, pr_PadLen := padLen\<rparr>))"
proof -
  let ?f = "ProbeFrame (p\<lparr>pr_Padded := True, pr_PadLen := padLen\<rparr>)"
  from assms(4) have bounds: "int ProbeBaseOnWire \<le> onWire" "onWire \<le> int MaxPaddedProbeOnWire"
    and pad: "padLen = of_int (onWire - int ProbeBaseOnWire)"
    by (auto simp: PadLenForOnWire_def split: if_splits)
  have "uint padLen = (onWire - int ProbeBaseOnWire) mod 2 ^ 16"
    unfolding pad by (simp only: uint_word_of_int) simp
  then have unat: "int (unat padLen) = onWire - int ProbeBaseOnWire"
    using bounds by (simp add: frame_size_defs)
  then have size: "ProbeBaseOnWire + unat padLen = nat onWire"
    using bounds by linarith
  then have valid: "frame_validate ?f = None"
    using bounds assms(5) by (simp add: probe_validate_def ProbeOnWireSize_def)
  obtain ks where "snd (Codec_Encode X c [] ?f (Some nonce)) =
      Inr ([] @ wire_frame X c nonce (xor_keystream ks 0 (appendBody [] ?f)))"
    using Codec_Encode_wire [OF assms(1,2) valid assms(3)] by blast
  then show thesis
    using size bounds assms(1,3) valid
    by (intro that [of "wire_frame X c nonce (xor_keystream ks 0 (appendBody [] ?f))"])
      (simp_all add: wire_frame_def probe_body_eq frame_size_defs)
qed

text \<open>
  C39: A probe can be padded to exactly the sizes between that of an unpadded one with its pad length
  and 9000 bytes: any other size is refused as malformed, and for a size within the bounds the pad
  length computed is encodable and the datagram has that many bytes.
\<close>

theorem padded_probe_size:
  assumes "crypto_laws X" and "codec_ok c" and "length nonce = nonceLen" and "pr_Payload p = []"
  shows "case PadLenForOnWire onWire of
      Inl e \<Rightarrow> e = ErrMalformed \<and> (onWire < int ProbeBaseOnWire \<or> 9000 < onWire)
    | Inr padLen \<Rightarrow> int ProbeBaseOnWire \<le> onWire \<and> onWire \<le> 9000 \<and>
        (\<exists>raw. snd (Codec_Encode X c [] (ProbeFrame (p\<lparr>pr_Padded := True, pr_PadLen := padLen\<rparr>)) (Some nonce)) = Inr raw \<and>
           int (length raw) = onWire)"
proof (cases "PadLenForOnWire onWire")
  case (Inl e)
  then show ?thesis by (auto simp: PadLenForOnWire_def MaxPaddedProbeOnWire_def split: if_splits)
next
  case (Inr padLen)
  then have "int ProbeBaseOnWire \<le> onWire \<and> onWire \<le> 9000"
    by (auto simp: PadLenForOnWire_def MaxPaddedProbeOnWire_def split: if_splits)
  moreover obtain raw where "snd (Codec_Encode X c [] (ProbeFrame (p\<lparr>pr_Padded := True, pr_PadLen := padLen\<rparr>)) (Some nonce)) = Inr raw"
    "int (length raw) = onWire" using padded_Encode_size [OF assms(1-3) Inr assms(4)] .
  ultimately show ?thesis using Inr by (simp only: sum.case) blast
qed

subsection \<open>The codec at work\<close>

text \<open>
  A concrete instance of the primitives that satisfies the laws, two keys, a nonce and a
  frame of each kind: the inputs at which the properties are applied.
\<close>

definition sample_crypto :: crypto where
  "sample_crypto =
     \<lparr>hkdf_key = (\<lambda>s info n. Some (replicate n (of_nat (length info)))),
      new_cipher = (\<lambda>k nonce. if length k = 32 \<and> length nonce = 24
                             then Some (\<lambda>i. nonce ! (i mod 24) XOR k ! (i mod 32)) else None),
      hmac_sum = (\<lambda>k m. replicate 32 (foldl (+) 7 (k @ m)))\<rparr>"

definition sample_codec :: codec where
  "sample_codec = \<lparr>cd_obfKey = replicate 32 34, cd_authKey = replicate 32 37,
                  cd_encScratch = [1, 2, 3], cd_decScratch = []\<rparr>"

definition sample_nonce :: bytes where
  "sample_nonce = replicate 24 90"

definition sample_control :: frame where
  "sample_control = ControlFrame \<lparr>ct_ControlType = 161, ct_Seq = 7, ct_Payload = [9, 8]\<rparr>"

definition sample_probe :: probe where
  "sample_probe = \<lparr>pr_PathID = 2, pr_ProbeSeq = 5, pr_TimestampNanos = 1000, pr_IsEcho = True,
                  pr_SessionID = 77, pr_Challenge = 88, pr_Padded = False, pr_PadLen = 0,
                  pr_Payload = []\<rparr>"

definition sample_wire :: bytes where
  "sample_wire = wire_frame sample_crypto sample_codec sample_nonce
     (xor_keystream (\<lambda>i. sample_nonce ! (i mod 24) XOR cd_obfKey sample_codec ! (i mod 32)) 0
       (appendBody [] sample_control))"

lemma sample_crypto_laws: "crypto_laws sample_crypto"
  by (simp add: crypto_laws_def sample_crypto_def)

lemma sample_codec_ok: "codec_ok sample_codec"
  by (simp add: codec_ok_def sample_codec_def)

lemma sample_wire_decodes: "snd (Codec_Decode sample_crypto sample_codec sample_wire) = Inr sample_control"
  by code_simp

theorem decode_encode_witness:
  "crypto_laws sample_crypto \<and> codec_ok sample_codec \<and> canonical sample_control \<and>
   (\<exists>raw. snd (Codec_Encode sample_crypto sample_codec [0, 0] sample_control (Some sample_nonce)) =
            Inr ([0, 0] @ raw) \<and>
          snd (Codec_Decode sample_crypto (sample_codec\<lparr>cd_decScratch := [4]\<rparr>) raw) = Inr sample_control)"
proof -
  have "canonical sample_control" "length sample_nonce = nonceLen"
    by (simp_all add: sample_control_def sample_nonce_def)
  then show ?thesis
    using decode_encode [OF sample_crypto_laws sample_codec_ok, of sample_control sample_nonce
        "sample_codec\<lparr>cd_decScratch := [4]\<rparr>" "[0, 0]"]
    by (simp add: sample_crypto_laws sample_codec_ok)
qed

theorem decode_authentic_witness:
  "crypto_laws sample_crypto \<and>
   (\<exists>nonce obfBody ks. sample_wire = nonce @ obfBody @ tag sample_crypto (cd_authKey sample_codec) nonce obfBody \<and>
       length nonce = nonceLen \<and> obfBody \<noteq> [] \<and>
       new_cipher sample_crypto (cd_obfKey sample_codec) nonce = Some ks \<and>
       decode_plain (xor_keystream ks 0 obfBody) = Inr sample_control)"
  using decode_authentic [OF sample_crypto_laws, of sample_codec sample_wire sample_control]
    sample_wire_decodes sample_crypto_laws by blast

theorem padded_probe_size_witness:
  "PadLenForOnWire 1200 = Inr 1123 \<and>
   (\<exists>raw. snd (Codec_Encode sample_crypto sample_codec []
             (ProbeFrame (sample_probe\<lparr>pr_Padded := True, pr_PadLen := 1123\<rparr>)) (Some sample_nonce)) = Inr raw \<and>
          int (length raw) = 1200)"
proof -
  have pad: "PadLenForOnWire 1200 = Inr 1123"
    by (simp add: PadLenForOnWire_def frame_size_defs)
  have "length sample_nonce = nonceLen" "pr_Payload sample_probe = []"
    by (simp_all add: sample_nonce_def sample_probe_def)
  then show ?thesis
    using padded_probe_size [OF sample_crypto_laws sample_codec_ok, of sample_nonce sample_probe 1200, unfolded pad sum.case] pad by blast
qed

end
