(* ===== verification/Frame_Panics.thy ===== *)
theory Frame_Panics
  imports Frame
begin

text \<open>
  The decoder of internal/frame/frame.go with the run-time checks of Go: an index or a slice bound
  out of range, a negative length for \<open>make\<close>, a byte-order read of too few bytes and the explicit
  panic of the cipher set-up are None. A slice may in Go extend to the capacity; here it may extend to
  the length only, which is the stricter check.
\<close>

section \<open>Definitions\<close>

definition slice_to :: "'a list \<Rightarrow> int \<Rightarrow> 'a list option" where
  "slice_to b n = (if 0 \<le> n \<and> n \<le> int (length b) then Some (take (nat n) b) else None)"

definition slice_from :: "'a list \<Rightarrow> int \<Rightarrow> 'a list option" where
  "slice_from b n = (if 0 \<le> n \<and> n \<le> int (length b) then Some (drop (nat n) b) else None)"

definition index_at :: "'a list \<Rightarrow> int \<Rightarrow> 'a option" where
  "index_at b i = (if 0 \<le> i \<and> i < int (length b) then Some (b ! nat i) else None)"

definition store_at :: "'a list \<Rightarrow> int \<Rightarrow> 'a \<Rightarrow> 'a list option" where
  "store_at b i v = (if 0 \<le> i \<and> i < int (length b) then Some (b[nat i := v]) else None)"

definition Uint16 :: "bytes \<Rightarrow> u16 option" where
  "Uint16 b = (if length b < 2 then None else Some (get_u16 b))"

definition Uint64 :: "bytes \<Rightarrow> u64 option" where
  "Uint64 b = (if length b < 8 then None else Some (get_u64 b))"

definition checked_u8 :: "reader \<Rightarrow> (u8 \<times> frame_error option \<times> reader) option" where
  "checked_u8 r =
     (case reader_need r 1 of
        Some e \<Rightarrow> Some (0, Some e, r)
      | None \<Rightarrow> do {
          v \<leftarrow> index_at (rd_b r) (int (rd_off r));
          Some (v, None, r\<lparr>rd_off := rd_off r + 1\<rparr>)
        })"

definition checked_u16 :: "reader \<Rightarrow> (u16 \<times> frame_error option \<times> reader) option" where
  "checked_u16 r =
     (case reader_need r 2 of
        Some e \<Rightarrow> Some (0, Some e, r)
      | None \<Rightarrow> do {
          b \<leftarrow> slice_from (rd_b r) (int (rd_off r));
          v \<leftarrow> Uint16 b;
          Some (v, None, r\<lparr>rd_off := rd_off r + 2\<rparr>)
        })"

definition checked_u64 :: "reader \<Rightarrow> (u64 \<times> frame_error option \<times> reader) option" where
  "checked_u64 r =
     (case reader_need r 8 of
        Some e \<Rightarrow> Some (0, Some e, r)
      | None \<Rightarrow> do {
          b \<leftarrow> slice_from (rd_b r) (int (rd_off r));
          v \<leftarrow> Uint64 b;
          Some (v, None, r\<lparr>rd_off := rd_off r + 8\<rparr>)
        })"

definition checked_rest :: "reader \<Rightarrow> bytes option" where
  "checked_rest r =
     (let n = int (length (rd_b r)) - int (rd_off r)
      in if n = 0 then Some []
         else if n < 0 then None
         else slice_from (rd_b r) (int (rd_off r)))"

definition checked_decodeBody :: "u8 \<Rightarrow> bytes \<Rightarrow> (frame_error + frame) option" where
  "checked_decodeBody kind b =
     (let r = \<lparr>rd_b = b, rd_off = 0\<rparr> in
      if kind = KindProbe then do {
        (pathID, e1, r) \<leftarrow> checked_u8 r;
        (probeSeq, e2, r) \<leftarrow> checked_u64 r;
        (ts, e3, r) \<leftarrow> checked_u64 r;
        (flags, e4, r) \<leftarrow> checked_u8 r;
        (sessionID, e5, r) \<leftarrow> checked_u64 r;
        (challenge, e6, r) \<leftarrow> checked_u64 r;
        case firstErr [e1, e2, e3, e4, e5, e6] of
          Some e \<Rightarrow> Some (Inl e)
        | None \<Rightarrow> do {
            let probe = \<lparr>pr_PathID = pathID, pr_ProbeSeq = probeSeq,
                         pr_TimestampNanos = ts, pr_IsEcho = (flags AND probeFlagEcho \<noteq> 0),
                         pr_SessionID = sessionID, pr_Challenge = challenge,
                         pr_Padded = False, pr_PadLen = 0, pr_Payload = []\<rparr>;
            if flags AND probeFlagPadded \<noteq> 0 then do {
              (padLen, e7, r) \<leftarrow> checked_u16 r;
              case e7 of
                Some e \<Rightarrow> Some (Inl e)
              | None \<Rightarrow> do {
                  pad \<leftarrow> checked_rest r;
                  Some (if length pad \<noteq> unat padLen then Inl ErrMalformed
                        else Inr (ProbeFrame (probe\<lparr>pr_Padded := True, pr_PadLen := padLen\<rparr>)))
                }
            }
            else do {
              rest \<leftarrow> checked_rest r;
              Some (Inr (ProbeFrame (probe\<lparr>pr_Payload := rest\<rparr>)))
            }
          }
      }
      else if kind = KindControl then do {
        (ctype, e1, r) \<leftarrow> checked_u8 r;
        (seq, e2, r) \<leftarrow> checked_u64 r;
        case firstErr [e1, e2] of
          Some e \<Rightarrow> Some (Inl e)
        | None \<Rightarrow> do {
            rest \<leftarrow> checked_rest r;
            Some (Inr (ControlFrame \<lparr>ct_ControlType = ctype, ct_Seq = seq, ct_Payload = rest\<rparr>))
          }
      }
      else Some (Inl ErrMalformed))"

definition checked_tag :: "crypto \<Rightarrow> bytes \<Rightarrow> bytes \<Rightarrow> bytes \<Rightarrow> bytes option" where
  "checked_tag X authKey nonce obfBody = slice_to (hmac_sum X authKey (nonce @ obfBody)) (int tagLen)"

definition checked_Decode :: "crypto \<Rightarrow> codec \<Rightarrow> bytes \<Rightarrow> (codec \<times> (frame_error + frame)) option" where
  "checked_Decode X c raw =
     (if length raw < nonceLen + 1 then Some (c, Inl ErrMalformed)
      else do {
        nonce \<leftarrow> slice_to raw (int nonceLen);
        rest \<leftarrow> slice_from raw (int nonceLen);
        ks \<leftarrow> new_cipher X (cd_obfKey c) nonce;
        first \<leftarrow> index_at rest 0;
        let kind = first XOR ks 0;
        if \<not> kind_valid kind then Some (c, Inl ErrMalformed)
        else if length rest < tagLen + 1 then Some (c, Inl ErrMalformed)
        else do {
          obfBody \<leftarrow> slice_to rest (int (length rest) - int tagLen);
          gotTag \<leftarrow> slice_from rest (int (length rest) - int tagLen);
          wantTag \<leftarrow> checked_tag X (cd_authKey c) nonce obfBody;
          if gotTag \<noteq> wantTag then Some (c, Inl ErrAuth)
          else do {
            body \<leftarrow> store_at obfBody 0 kind;
            body \<leftarrow> (if length body > 1 then do {
                      tail \<leftarrow> slice_from body 1;
                      Some (take 1 body @ xor_keystream ks 1 tail)
                    } else Some body);
            payload \<leftarrow> slice_from body 1;
            res \<leftarrow> checked_decodeBody kind payload;
            Some (c\<lparr>cd_decScratch := body\<rparr>, res)
          }
        }
      })"

section \<open>No check fails\<close>

definition reader_ok :: "reader \<Rightarrow> bool" where
  "reader_ok r \<longleftrightarrow> rd_off r \<le> length (rd_b r)"

lemma checked_reads:
  "checked_u8 r = Some (reader_u8 r)" "checked_u16 r = Some (reader_u16 r)" "checked_u64 r = Some (reader_u64 r)"
  by (auto simp: checked_u8_def checked_u16_def checked_u64_def reader_u8_def reader_u16_def reader_u64_def reader_need_def
      index_at_def slice_from_def Uint16_def Uint64_def)

lemma reads_ok:
  "reader_ok r \<Longrightarrow> reader_ok (snd (snd (reader_u8 r)))" "reader_ok r \<Longrightarrow> reader_ok (snd (snd (reader_u16 r)))"
  "reader_ok r \<Longrightarrow> reader_ok (snd (snd (reader_u64 r)))"
  by (auto simp: reader_ok_def reader_u8_def reader_u16_def reader_u64_def reader_need_def)

lemma checked_rest_ok: "reader_ok r \<Longrightarrow> checked_rest r = Some (reader_rest r)"
  by (auto simp: reader_ok_def checked_rest_def reader_rest_def slice_from_def Let_def)

lemma reader_start: "reader_ok \<lparr>rd_b = b, rd_off = 0\<rparr>"
  by (simp add: reader_ok_def)

lemma checked_decodeBody_ok: "checked_decodeBody kind b = Some (decodeBody kind b)"
proof -
  let ?r = "\<lparr>rd_b = b, rd_off = 0\<rparr>"
  obtain pathID e1 r1 where 1: "reader_u8 ?r = (pathID, e1, r1)" by (rule prod_cases3)
  obtain probeSeq e2 r2 where 2: "reader_u64 r1 = (probeSeq, e2, r2)" by (rule prod_cases3)
  obtain ts e3 r3 where 3: "reader_u64 r2 = (ts, e3, r3)" by (rule prod_cases3)
  obtain flags e4 r4 where 4: "reader_u8 r3 = (flags, e4, r4)" by (rule prod_cases3)
  obtain sessionID e5 r5 where 5: "reader_u64 r4 = (sessionID, e5, r5)" by (rule prod_cases3)
  obtain challenge e6 r6 where 6: "reader_u64 r5 = (challenge, e6, r6)" by (rule prod_cases3)
  obtain padLen e7 r7 where 7: "reader_u16 r6 = (padLen, e7, r7)" by (rule prod_cases3)
  have ok: "reader_ok r1" "reader_ok r2" using reads_ok(1) [OF reader_start] reads_ok(3) 1 2 by (metis snd_conv)+
  then have "reader_ok r6" using reads_ok(1,3) 3 4 5 6 by (metis snd_conv)
  moreover from this have "reader_ok r7" using reads_ok(2) 7 by (metis snd_conv)
  ultimately have rest: "checked_rest r2 = Some (reader_rest r2)" "checked_rest r6 = Some (reader_rest r6)" "checked_rest r7 = Some (reader_rest r7)"
    using ok(2) checked_rest_ok by blast+
  show ?thesis
    unfolding checked_decodeBody_def decodeBody_def Let_def checked_reads bind.bind_lunit prod.case 1 2 3 4 5 6 7 rest
    by (cases "firstErr [e1, e2, e3, e4, e5, e6]"; cases "firstErr [e1, e2]"; cases e7) simp_all
qed

text \<open>
  C38: Decoding never panics, whatever the bytes: no index and no slice bound of the decoder is ever
  out of range and the cipher is always constructible, so the decoder with Go's run-time checks
  returns what the unchecked reading of its expressions gives; and it reports only the two documented
  errors.
\<close>

theorem decode_no_panic:
  assumes "crypto_laws X" and "codec_ok c"
  shows "checked_Decode X c raw = Some (Codec_Decode X c raw) \<and>
    snd (Codec_Decode X c raw) \<in> {Inl ErrMalformed, Inl ErrAuth} \<union> range Inr"
proof (cases "length raw < nonceLen + 1")
  case True
  then show ?thesis by (simp add: Codec_Decode_def checked_Decode_def)
next
  case False
  then obtain ks where ks: "new_cipher X (cd_obfKey c) (take nonceLen raw) = Some ks"
    using codec_cipher [OF assms, of raw] by auto
  obtain b rest where rest: "drop nonceLen raw = b # rest" using False by (cases "drop nonceLen raw") auto
  have tag: "checked_tag X (cd_authKey c) n m = Some (tag X (cd_authKey c) n m)" for n m
    using assms(1) by (simp add: checked_tag_def tag_def slice_to_def crypto_laws_def)
  have "snd (Codec_Decode X c raw) \<in> {Inl ErrMalformed, Inl ErrAuth} \<union> range Inr"
    using False ks decodeBody_verdict by (auto simp: Codec_Decode_def Let_def)
  moreover have "checked_Decode X c raw = Some (Codec_Decode X c raw)"
    using False ks rest tag
    by (auto simp: checked_Decode_def Codec_Decode_def slice_to_def slice_from_def index_at_def store_at_def checked_decodeBody_ok Let_def
        take_Cons' nat_diff_distrib)
  ultimately show ?thesis by blast
qed

theorem decode_no_panic_witness:
  "crypto_laws sample_crypto \<and> codec_ok sample_codec \<and> checked_Decode sample_crypto sample_codec sample_wire \<noteq> None \<and>
   checked_Decode sample_crypto sample_codec (replicate 60 1) \<noteq> None"
  using decode_no_panic [OF sample_crypto_laws sample_codec_ok, of sample_wire]
    decode_no_panic [OF sample_crypto_laws sample_codec_ok, of "replicate 60 1"] sample_crypto_laws sample_codec_ok by blast

end
