(* ===== verification/Wire.thy ===== *)
theory Wire
  imports Frame
begin

text \<open>
  The bonding transport's wire format, \<open>src/internal/bond/wire.go\<close>, and its rejection causes,
  \<open>src/internal/bond/errors.go\<close>: the lane header, data and acknowledgement frames (payloads of
  authenticated CONTROL frames) and the hello carried by probes. Every parser is shown to accept
  exactly what the matching encoder produces.
\<close>

subsection \<open>Rejections\<close>

datatype rejection_cause =
  RejectMalformed | RejectEpoch | RejectPath | RejectLane | RejectACK | RejectType | RejectTime

fun cause_string :: "rejection_cause \<Rightarrow> string" where
  "cause_string RejectMalformed = ''malformed''"
| "cause_string RejectEpoch = ''epoch''"
| "cause_string RejectPath = ''path''"
| "cause_string RejectLane = ''lane''"
| "cause_string RejectACK = ''ack''"
| "cause_string RejectType = ''type''"
| "cause_string RejectTime = ''time''"

record rejection_error =
  rj_Cause :: rejection_cause
  rj_message :: string

definition reject :: "rejection_cause \<Rightarrow> string \<Rightarrow> rejection_error" where
  "reject cause message = \<lparr>rj_Cause = cause, rj_message = message\<rparr>"

subsection \<open>Constants and headers\<close>

definition DataType :: u8 where "DataType = 0xa1"
definition ACKType :: u8 where "ACKType = 0xa2"
definition Version :: u8 where "Version = 1"

abbreviation headerBytes :: nat where "headerBytes \<equiv> 19"
abbreviation dataFieldBytes :: nat where "dataFieldBytes \<equiv> 16 + 8 + 8"
abbreviation ackBytes :: nat where "ackBytes \<equiv> 96"
abbreviation ackReceiptWords :: nat where "ackReceiptWords \<equiv> 4"
abbreviation ackReceiptBits :: nat where "ackReceiptBits \<equiv> 64 * ackReceiptWords"

definition Overhead :: nat where
  "Overhead = ControlOverhead + headerBytes + dataFieldBytes"

definition interactiveBit :: u64 where
  "interactiveBit = push_bit 63 1"

record epoch =
  ep_Boot :: u64
  ep_Generation :: u64

type_synonym path_id = u16

record packet_header =
  ph_epoch :: epoch
  ph_lane :: path_id

definition appendHeader :: "packet_header \<Rightarrow> bytes" where
  "appendHeader h =
     [Version] @ put_u64 (ep_Boot (ph_epoch h)) @ put_u64 (ep_Generation (ph_epoch h)) @
     put_u16 (ph_lane h)"

text \<open>\<open>seg i j b\<close> is Go's \<open>b[i:j]\<close>, used within the bounds the code has checked.\<close>

definition seg :: "nat \<Rightarrow> nat \<Rightarrow> bytes \<Rightarrow> bytes" where
  "seg i j b = drop i (take j b)"

definition parseHeader :: "bytes \<Rightarrow> rejection_error + packet_header" where
  "parseHeader b =
     (if length b < headerBytes \<or> b ! 0 \<noteq> Version
      then Inl (reject RejectMalformed ''bond: invalid version or truncated header'')
      else
        let h = \<lparr>ph_epoch = \<lparr>ep_Boot = get_u64 (seg 1 9 b), ep_Generation = get_u64 (seg 9 17 b)\<rparr>,
                 ph_lane = get_u16 (seg 17 19 b)\<rparr>
        in if ep_Boot (ph_epoch h) = 0 \<or> ep_Generation (ph_epoch h) = 0
           then Inl (reject RejectMalformed ''bond: zero epoch'')
           else Inr h)"

definition dataFrame ::
  "epoch \<Rightarrow> epoch \<Rightarrow> path_id \<Rightarrow> u64 \<Rightarrow> u64 \<Rightarrow> u64 \<Rightarrow> bytes \<Rightarrow> control" where
  "dataFrame ep destination lane attempt seq order payload =
     (let b = appendHeader \<lparr>ph_epoch = ep, ph_lane = lane\<rparr> @ put_u64 (ep_Boot destination);
          b = b @ put_u64 (ep_Generation destination);
          b = b @ put_u64 seq;
          b = b @ put_u64 order;
          b = b @ payload
      in \<lparr>ct_ControlType = DataType, ct_Seq = attempt, ct_Payload = b\<rparr>)"

subsection \<open>Acknowledgements\<close>

record acknowledgement =
  ack_observed :: epoch
  ack_high :: u64
  ack_mask :: u64
  ack_bytes :: u64
  ack_elapsed :: u64
  ack_delay :: u64
  ack_receivedHigh :: u64
  ack_receivedMask :: "u64 list"

definition received :: "acknowledgement \<Rightarrow> u64 \<Rightarrow> bool" where
  "received a seq =
     (if seq = 0 \<or> seq > ack_receivedHigh a \<or>
         ack_receivedHigh a - seq \<ge> of_nat (length (ack_receivedMask a) * 64)
      then False
      else let delta = ack_receivedHigh a - seq
           in (ack_receivedMask a ! unat (delta div 64)) AND push_bit (unat (delta mod 64)) 1 \<noteq> 0)"

definition ackFrame :: "epoch \<Rightarrow> path_id \<Rightarrow> u64 \<Rightarrow> acknowledgement \<Rightarrow> control" where
  "ackFrame ep lane revision a =
     (let b = appendHeader \<lparr>ph_epoch = ep, ph_lane = lane\<rparr>;
          b = foldl (\<lambda>b value. b @ put_u64 value) b
                [ep_Boot (ack_observed a), ep_Generation (ack_observed a), ack_high a, ack_mask a,
                 ack_bytes a, ack_elapsed a, ack_delay a];
          b = b @ put_u64 (ack_receivedHigh a);
          b = foldl (\<lambda>b mask. b @ put_u64 mask) b (ack_receivedMask a)
      in \<lparr>ct_ControlType = ACKType, ct_Seq = revision, ct_Payload = b\<rparr>)"

definition maxInt64 :: u64 where
  "maxInt64 = 0x7fffffffffffffff"

definition parseACK :: "bytes \<Rightarrow> rejection_error + acknowledgement" where
  "parseACK b =
     (if length b \<noteq> headerBytes + ackBytes then Inl (reject RejectMalformed ''bond: invalid ACK size'')
      else
        let b = drop headerBytes b;
            elapsed = get_u64 (drop 40 b);
            delay = get_u64 (drop 48 b)
        in if elapsed > maxInt64 \<or> delay > maxInt64
           then Inl (reject RejectMalformed ''bond: ACK duration exceeds monotonic clock range'')
           else Inr \<lparr>ack_observed = \<lparr>ep_Boot = get_u64 b, ep_Generation = get_u64 (drop 8 b)\<rparr>,
                     ack_high = get_u64 (drop 16 b), ack_mask = get_u64 (drop 24 b),
                     ack_bytes = get_u64 (drop 32 b), ack_elapsed = elapsed, ack_delay = delay,
                     ack_receivedHigh = get_u64 (drop 56 b),
                     ack_receivedMask = map (\<lambda>i. get_u64 (drop (64 + i * 8) b)) [0..<ackReceiptWords]\<rparr>)"

subsection \<open>The hello\<close>

definition hello_magic :: bytes where
  "hello_magic = [0x62, 0x6f, 0x6e, 0x64]"

definition Hello :: "epoch \<Rightarrow> u8 \<Rightarrow> bytes" where
  "Hello ep path =
     (let b = hello_magic @ [Version, path];
          b = b @ put_u64 (ep_Boot ep)
      in b @ put_u64 (ep_Generation ep))"

definition ParseHello :: "bytes \<Rightarrow> epoch \<times> u8 \<times> bool" where
  "ParseHello b =
     (if length b \<noteq> 22 \<or> take 4 b \<noteq> hello_magic \<or> b ! 4 \<noteq> Version
      then (\<lparr>ep_Boot = 0, ep_Generation = 0\<rparr>, 0, False)
      else let ep = \<lparr>ep_Boot = get_u64 (seg 6 14 b), ep_Generation = get_u64 (seg 14 22 b)\<rparr>
           in (ep, b ! 5, ep_Boot ep \<noteq> 0 \<and> ep_Generation ep \<noteq> 0))"

subsection \<open>Headers\<close>

definition epoch_set :: "epoch \<Rightarrow> bool" where
  "epoch_set ep \<longleftrightarrow> ep_Boot ep \<noteq> 0 \<and> ep_Generation ep \<noteq> 0"

lemma length_appendHeader [simp, codec_simps]: "length (appendHeader h) = headerBytes"
  by (simp add: appendHeader_def)

lemma parseHeader_appendHeader:
  "epoch_set (ph_epoch h) \<Longrightarrow> parseHeader (appendHeader h @ rest) = Inr h"
  by (simp add: parseHeader_def appendHeader_def seg_def epoch_set_def Let_def)

lemma length_seg [simp, codec_simps]: "length (seg i j b) = min (length b) j - i"
  by (simp add: seg_def)

lemma take_split3: "take (i + j) b = take i b @ seg i (i + j) b"
  unfolding seg_def drop_take by (simp add: take_add)

lemma header_segs:
  assumes "headerBytes \<le> length b" and "b ! 0 = Version"
  shows "take headerBytes b =
    [Version] @ seg 1 9 b @ seg 9 17 b @ seg 17 19 b"
proof -
  have "take 19 b = take 1 b @ seg 1 (1 + 8) b @ seg 9 (9 + 8) b @ seg 17 (17 + 2) b"
    using take_split3 [of 1 8 b] take_split3 [of 9 8 b] take_split3 [of 17 2 b] by simp
  moreover have "take 1 b = [Version]"
    using assms by (cases b) auto
  ultimately show ?thesis by simp
qed

text \<open>
  C23: A lane header is accepted exactly when its first bytes are the encoding of a header with
  a non-zero boot and generation.
\<close>

theorem parseHeader_exact:
  "parseHeader b = Inr h \<longleftrightarrow> (\<exists>rest. b = appendHeader h @ rest) \<and> epoch_set (ph_epoch h)"
proof
  assume acc: "parseHeader b = Inr h"
  then have len: "headerBytes \<le> length b" and ver: "b ! 0 = Version"
    and set: "epoch_set (ph_epoch h)"
    and h: "h = \<lparr>ph_epoch = \<lparr>ep_Boot = get_u64 (seg 1 9 b), ep_Generation = get_u64 (seg 9 17 b)\<rparr>,
                ph_lane = get_u16 (seg 17 19 b)\<rparr>"
    by (auto simp: parseHeader_def Let_def epoch_set_def split: if_splits)
  have "appendHeader h = take headerBytes b"
    using len by (simp add: h appendHeader_def header_segs [OF len ver]
        put_u64_get_u64 put_u16_get_u16)
  then have "b = appendHeader h @ drop headerBytes b" by simp
  with set show "(\<exists>rest. b = appendHeader h @ rest) \<and> epoch_set (ph_epoch h)" by blast
next
  assume "(\<exists>rest. b = appendHeader h @ rest) \<and> epoch_set (ph_epoch h)"
  then show "parseHeader b = Inr h" by (auto simp: parseHeader_appendHeader)
qed

interpretation lane_header: byte_codec appendHeader parseHeader "\<lambda>h. epoch_set (ph_epoch h)"
proof unfold_locales
  fix h :: packet_header assume "epoch_set (ph_epoch h)"
  then show "parseHeader (appendHeader h) = Inr h"
    using parseHeader_appendHeader [of h "[]"] by simp
qed

subsection \<open>Acknowledgements\<close>

definition ack_fields :: "acknowledgement \<Rightarrow> u64 list" where
  "ack_fields a =
     [ep_Boot (ack_observed a), ep_Generation (ack_observed a), ack_high a, ack_mask a,
      ack_bytes a, ack_elapsed a, ack_delay a, ack_receivedHigh a] @ ack_receivedMask a"

definition ack_ok :: "acknowledgement \<Rightarrow> bool" where
  "ack_ok a \<longleftrightarrow> length (ack_receivedMask a) = ackReceiptWords \<and>
     ack_elapsed a \<le> maxInt64 \<and> ack_delay a \<le> maxInt64"

lemma foldl_append_words: "foldl (\<lambda>b v. b @ put_u64 v) b vs = b @ concat (map put_u64 vs)"
  by (induction vs arbitrary: b) auto

lemma ackFrame_payload:
  "ct_Payload (ackFrame ep lane revision a) =
     appendHeader \<lparr>ph_epoch = ep, ph_lane = lane\<rparr> @ concat (map put_u64 (ack_fields a))"
  by (simp add: ackFrame_def ack_fields_def Let_def foldl_append_words)

definition ack_of_fields :: "u64 list \<Rightarrow> acknowledgement" where
  "ack_of_fields vs =
     \<lparr>ack_observed = \<lparr>ep_Boot = vs ! 0, ep_Generation = vs ! 1\<rparr>, ack_high = vs ! 2,
      ack_mask = vs ! 3, ack_bytes = vs ! 4, ack_elapsed = vs ! 5, ack_delay = vs ! 6,
      ack_receivedHigh = vs ! 7, ack_receivedMask = drop 8 vs\<rparr>"

lemma ack_of_fields_inverse: "ack_of_fields (ack_fields a) = a"
  by (simp add: ack_of_fields_def ack_fields_def)

definition ack_words :: "bytes \<Rightarrow> u64 list" where
  "ack_words b = map (\<lambda>i. get_u64 (drop (8 * i) (drop headerBytes b))) [0..<12]"

lemma length_ack_words [simp]: "length (ack_words b) = 12"
  by (simp add: ack_words_def)

lemma ack_fields_of_fields: "length vs = 12 \<Longrightarrow> ack_fields (ack_of_fields vs) = vs"
proof -
  assume len: "length vs = 12"
  then have "take 8 vs = [vs!0, vs!1, vs!2, vs!3, vs!4, vs!5, vs!6, vs!7]"
    by (intro nth_equalityI) (auto simp: less_Suc_eq numeral_eq_Suc)
  then show "ack_fields (ack_of_fields vs) = vs"
    using append_take_drop_id [of 8 vs] by (simp add: ack_fields_def ack_of_fields_def)
qed

lemma ack_fields_iff: "length vs = 12 \<Longrightarrow> a = ack_of_fields vs \<longleftrightarrow> ack_fields a = vs"
  using ack_fields_of_fields ack_of_fields_inverse by metis

lemma ack_words_concat:
  "length b = headerBytes + ackBytes \<Longrightarrow> concat (map put_u64 (ack_words b)) = drop headerBytes b"
  using words_get_u64 [of "drop headerBytes b" 12]
  by (simp add: ack_words_def comp_def)

lemma ack_words_mask:
  "drop 8 (ack_words b) =
     map (\<lambda>i. get_u64 (drop (64 + i * 8) (drop headerBytes b))) [0..<ackReceiptWords]"
  by (rule nth_equalityI) (auto simp: ack_words_def algebra_simps)

lemma parseACK_fields:
  assumes "length b = headerBytes + ackBytes"
  shows "parseACK b = (if ack_words b ! 5 > maxInt64 \<or> ack_words b ! 6 > maxInt64
    then Inl (reject RejectMalformed ''bond: ACK duration exceeds monotonic clock range'')
    else Inr (ack_of_fields (ack_words b)))"
proof -
  have "ack_of_fields (ack_words b) =
    \<lparr>ack_observed = \<lparr>ep_Boot = ack_words b ! 0, ep_Generation = ack_words b ! 1\<rparr>,
     ack_high = ack_words b ! 2, ack_mask = ack_words b ! 3, ack_bytes = ack_words b ! 4,
     ack_elapsed = ack_words b ! 5, ack_delay = ack_words b ! 6, ack_receivedHigh = ack_words b ! 7,
     ack_receivedMask = map (\<lambda>i. get_u64 (drop (64 + i * 8) (drop headerBytes b))) [0..<ackReceiptWords]\<rparr>"
    by (simp only: ack_of_fields_def ack_words_mask)
  then show ?thesis
    using assms by (simp add: parseACK_def Let_def ack_words_def)
qed

lemma words_inject:
  assumes "concat (map put_u64 vs) = concat (map put_u64 ws)"
  shows "vs = ws"
proof (rule nth_equalityI)
  show lens: "length vs = length ws"
    using arg_cong [OF assms, of length] by simp
  fix i assume "i < length vs"
  then show "vs ! i = ws ! i"
    using get_u64_words [of i vs] get_u64_words [of i ws] lens assms by simp
qed

text \<open>
  C24: An acknowledgement payload is accepted exactly when it has the fixed size and its fields
  are the encoding of an acknowledgement whose two durations fit a signed 64-bit count; the
  parser then returns that acknowledgement.
\<close>

theorem parseACK_exact:
  "parseACK b = Inr a \<longleftrightarrow>
     length b = headerBytes + ackBytes \<and> ack_ok a \<and>
     drop headerBytes b = drop headerBytes (ct_Payload (ackFrame ep lane revision a))"
proof (cases "length b = headerBytes + ackBytes")
  case False
  then show ?thesis by (simp add: parseACK_def)
next
  case len: True
  have "parseACK b = Inr a \<longleftrightarrow> a = ack_of_fields (ack_words b) \<and> ack_ok a"
    unfolding parseACK_fields [OF len] by (auto simp: ack_ok_def ack_of_fields_def)
  also have "\<dots> \<longleftrightarrow> ack_fields a = ack_words b \<and> ack_ok a"
    by (simp add: ack_fields_iff)
  also have "\<dots> \<longleftrightarrow> concat (map put_u64 (ack_fields a)) = drop headerBytes b \<and> ack_ok a"
    using ack_words_concat [OF len] words_inject [of "ack_fields a" "ack_words b"] by auto
  finally show ?thesis using len by (auto simp: ackFrame_payload)
qed

lemma parseACK_ackFrame:
  "ack_ok a \<Longrightarrow> parseACK (ct_Payload (ackFrame ep lane revision a)) = Inr a"
  by (simp add: parseACK_exact [of _ a ep lane revision] ackFrame_payload ack_fields_def ack_ok_def)

interpretation ack_codec: byte_codec "\<lambda>a. ct_Payload (ackFrame ep lane revision a)" parseACK ack_ok
  for ep lane revision
  by unfold_locales (rule parseACK_ackFrame)

subsection \<open>Hellos\<close>

lemma length_Hello [simp, codec_simps]: "length (Hello ep path) = 22"
  by (simp add: Hello_def hello_magic_def)

lemma ParseHello_Hello:
  "ParseHello (Hello ep path) = (ep, path, epoch_set ep)"
  by (simp add: ParseHello_def Hello_def hello_magic_def seg_def epoch_set_def Let_def)

lemma hello_segs:
  assumes "length b = 22" and "take 4 b = hello_magic" and "b ! 4 = Version"
  shows "b = hello_magic @ [Version, b ! 5] @ seg 6 14 b @ seg 14 22 b"
proof -
  have "take 22 b = take 4 b @ seg 4 (4 + 2) b @ seg 6 (6 + 8) b @ seg 14 (14 + 8) b"
    using take_split3 [of 4 2 b] take_split3 [of 6 8 b] take_split3 [of 14 8 b] by simp
  moreover have "seg 4 6 b = [b ! 4, b ! 5]"
    using assms(1) by (intro nth_equalityI) (auto simp: seg_def less_Suc_eq numeral_2_eq_2)
  ultimately show ?thesis
    using assms by simp
qed

text \<open>
  C40: A hello is recognised exactly when it is the encoding of a path and a non-zero epoch:
  nothing else of any length passes, and the epoch and path come back unchanged.
\<close>

theorem ParseHello_exact:
  "ParseHello b = (ep, path, True) \<longleftrightarrow> b = Hello ep path \<and> epoch_set ep"
proof
  assume acc: "ParseHello b = (ep, path, True)"
  then have shape: "length b = 22" "take 4 b = hello_magic" "b ! 4 = Version"
    and vals: "ep = \<lparr>ep_Boot = get_u64 (seg 6 14 b), ep_Generation = get_u64 (seg 14 22 b)\<rparr>"
      "path = b ! 5" "epoch_set ep"
    by (auto simp: ParseHello_def Let_def epoch_set_def split: if_splits)
  have "Hello ep path = hello_magic @ [Version, b ! 5] @ seg 6 14 b @ seg 14 22 b"
    using shape(1) by (simp add: vals Hello_def put_u64_get_u64)
  with hello_segs [OF shape] vals(3) show "b = Hello ep path \<and> epoch_set ep" by simp
qed (simp add: ParseHello_Hello)

interpretation hello_codec: byte_codec "\<lambda>(ep, path). Hello ep path"
  "\<lambda>b. case ParseHello b of (ep, path, ok) \<Rightarrow> if ok then Inr (ep, path) else Inl ()"
  "\<lambda>(ep, path). epoch_set ep"
  by unfold_locales (auto simp: ParseHello_Hello)

end
