(* ===== verification/Reseq.thy ===== *)
theory Reseq
  imports Wanbond_Prelude "HOL-Library.Monad_Syntax"
begin

text \<open>
  The receive resequencer (internal/reseq/reseq.go): a ring of as many cells as the window has
  positions, a release point, a FIFO of released items, one head-of-line hold and the
  discontinuity guard. Every operation takes the clock reading the source reads. A computation
  returns None where the source panics (an index out of range, a buffered count without an
  occupied cell, a zero first sequence) or where its loop does not end; the lemmas show that
  neither happens. Installing and calling the notifier is kept as a flag and a count of calls.
\<close>

section \<open>Definitions\<close>

subsection \<open>Data\<close>

definition resyncFactor :: u64 where "resyncFactor = 4"

definition resyncCorroborate :: nat where "resyncCorroborate = 3"

definition holdBoundFloor :: duration where "holdBoundFloor = 10 * millisecond"

record 'p item =
  it_Payload :: "'p option"
  it_Src :: addr_port

record 'p slot =
  sl_seq :: u64
  sl_src :: addr_port
  sl_payload :: "'p option"
  sl_observedAt :: instant
  sl_occupied :: bool

definition empty_slot :: "'p slot" where
  "empty_slot = \<lparr>sl_seq = 0, sl_src = zero_addr_port, sl_payload = None,
     sl_observedAt = zero_time, sl_occupied = False\<rparr>"

definition empty_item :: "'p item" where
  "empty_item = \<lparr>it_Payload = None, it_Src = zero_addr_port\<rparr>"

record 'p resequencer =
  rs_window :: u64
  rs_timeout :: duration
  rs_started :: bool
  rs_next :: u64
  rs_ring :: "'p slot list"
  rs_buf :: int
  rs_ready :: "'p item list"
  rs_readyPos :: nat
  rs_held :: "u64 list"
  rs_heldPos :: nat
  rs_waiting :: bool
  rs_deadline :: instant
  rs_armedAt :: instant
  rs_armedWindow :: duration
  rs_resyncSeqs :: "u64 list"
  rs_resyncLo :: u64
  rs_resyncHi :: u64
  rs_highWater :: int
  rs_dropDup :: u64
  rs_dropLate :: u64
  rs_dropSuspect :: u64
  rs_skipped :: u64
  rs_releasedN :: u64
  rs_resyncs :: u64
  rs_rebaselines :: u64
  rs_holds :: u64
  rs_holdNanos :: u64
  rs_deadlineWakeups :: u64
  rs_gapFills :: u64
  rs_holdSlotVisits :: u64
  rs_holdBound :: duration
  rs_notify :: bool
  rs_notified :: nat
  rs_closed :: bool

text \<open>\<open>None\<close> where the constructor panics; the clock is always supplied here.\<close>

definition New :: "u64 \<Rightarrow> duration \<Rightarrow> 'p resequencer option" where
  "New window timeout =
     (if window = 0 then None
      else Some
        \<lparr>rs_window = window, rs_timeout = timeout, rs_started = False, rs_next = 0,
         rs_ring = replicate (unat window) empty_slot, rs_buf = 0, rs_ready = [], rs_readyPos = 0,
         rs_held = [], rs_heldPos = 0, rs_waiting = False, rs_deadline = zero_time,
         rs_armedAt = zero_time, rs_armedWindow = 0, rs_resyncSeqs = [], rs_resyncLo = 0,
         rs_resyncHi = 0, rs_highWater = 0, rs_dropDup = 0, rs_dropLate = 0, rs_dropSuspect = 0,
         rs_skipped = 0, rs_releasedN = 0, rs_resyncs = 0, rs_rebaselines = 0, rs_holds = 0,
         rs_holdNanos = 0, rs_deadlineWakeups = 0, rs_gapFills = 0, rs_holdSlotVisits = 0,
         rs_holdBound = 0, rs_notify = False, rs_notified = 0, rs_closed = False\<rparr>)"

subsection \<open>The hold\<close>

definition SetHoldBound :: "'p resequencer \<Rightarrow> duration \<Rightarrow> 'p resequencer" where
  "SetHoldBound r d =
     (let d = (if d < holdBoundFloor then holdBoundFloor else d);
          d = (if d > rs_timeout r then rs_timeout r else d)
      in r\<lparr>rs_holdBound := d\<rparr>)"

definition SetNotifier :: "'p resequencer \<Rightarrow> bool \<Rightarrow> 'p resequencer" where
  "SetNotifier r notify = r\<lparr>rs_notify := notify\<rparr>"

definition ArmedDeadline :: "'p resequencer \<Rightarrow> instant \<times> bool" where
  "ArmedDeadline r = (if \<not> rs_waiting r then (zero_time, False) else (rs_deadline r, rs_waiting r))"

definition notifyLocked :: "'p resequencer \<Rightarrow> 'p resequencer" where
  "notifyLocked r = (if rs_notify r then r\<lparr>rs_notified := rs_notified r + 1\<rparr> else r)"

definition effectiveHoldLocked :: "'p resequencer \<Rightarrow> duration" where
  "effectiveHoldLocked r = (if rs_holdBound r = 0 then rs_timeout r else rs_holdBound r)"

definition endHoldLocked :: "'p resequencer \<Rightarrow> instant \<Rightarrow> 'p resequencer" where
  "endHoldLocked r now =
     (if \<not> rs_waiting r then r
      else
        let d = time_sub now (rs_armedAt r);
            r = (if d > 0 then r\<lparr>rs_holdNanos := rs_holdNanos r + of_int d\<rparr> else r)
        in notifyLocked (r\<lparr>rs_waiting := False, rs_armedWindow := 0\<rparr>))"

definition Close :: "'p resequencer \<Rightarrow> instant \<Rightarrow> 'p resequencer" where
  "Close r now =
     (if \<not> rs_closed r then notifyLocked (endHoldLocked (r\<lparr>rs_closed := True\<rparr>) now) else r)"

subsection \<open>Cells and release\<close>

definition idx :: "'p resequencer \<Rightarrow> u64 \<Rightarrow> nat" where
  "idx r seq = unat (seq mod rs_window r)"

definition cell_at :: "'p resequencer \<Rightarrow> u64 \<Rightarrow> 'p slot option" where
  "cell_at r seq =
     (if rs_window r \<noteq> 0 \<and> idx r seq < length (rs_ring r) then Some (rs_ring r ! idx r seq) else None)"

definition release :: "'p resequencer \<Rightarrow> nat \<Rightarrow> 'p resequencer" where
  "release r i =
     (let cell = rs_ring r ! i
      in r\<lparr>rs_ready := rs_ready r @ [\<lparr>it_Payload = sl_payload cell, it_Src = sl_src cell\<rparr>],
           rs_ring := (rs_ring r)[i := cell\<lparr>sl_occupied := False, sl_payload := None,
                                       sl_observedAt := zero_time\<rparr>],
           rs_buf := rs_buf r - 1,
           rs_releasedN := rs_releasedN r + 1\<rparr>)"

definition occupied_count :: "'p slot list \<Rightarrow> nat" where
  "occupied_count cells = length (filter sl_occupied cells)"

lemma occupied_count_update:
  assumes "i < length cells" and "sl_occupied (cells ! i)" and "\<not> sl_occupied c"
  shows "Suc (occupied_count (cells[i := c])) = occupied_count cells"
  using assms
proof (induction cells arbitrary: i)
  case (Cons d cells)
  then show ?case by (cases i) (auto simp: occupied_count_def)
qed simp

text \<open>The loop of \<open>drain\<close>: each turn empties an occupied cell.\<close>

function drain :: "'p resequencer \<Rightarrow> 'p resequencer option" where
  "drain r =
     (case cell_at r (rs_next r) of
        None \<Rightarrow> None
      | Some cell \<Rightarrow>
          if \<not> sl_occupied cell \<or> sl_seq cell \<noteq> rs_next r then Some r
          else
            let r' = release r (idx r (rs_next r))
            in drain (r'\<lparr>rs_next := rs_next r' + 1\<rparr>))"
  by pat_completeness auto

termination drain
proof (relation "measure (\<lambda>r. occupied_count (rs_ring r))", goal_cases)
  case (2 r cell r')
  then have "idx r (rs_next r) < length (rs_ring r)" "cell = rs_ring r ! idx r (rs_next r)"
    by (auto simp: cell_at_def split: if_splits)
  with 2 show ?case
    using occupied_count_update [of "idx r (rs_next r)" "rs_ring r"]
    by (simp add: release_def Let_def less_eq_Suc_le)
qed simp

declare drain.simps [simp del]

function advance_loop :: "'p resequencer \<Rightarrow> u64 \<Rightarrow> 'p resequencer option" where
  "advance_loop r limit =
     (if rs_next r < limit then
        case cell_at r (rs_next r) of
          None \<Rightarrow> None
        | Some cell \<Rightarrow>
            let r' = (if sl_occupied cell \<and> sl_seq cell = rs_next r then release r (idx r (rs_next r))
                      else r\<lparr>rs_skipped := rs_skipped r + 1\<rparr>)
            in advance_loop (r'\<lparr>rs_next := rs_next r' + 1\<rparr>) limit
      else Some r)"
  by pat_completeness auto

lemma rs_next_release [simp]: "rs_next (release r i) = rs_next r"
  by (simp add: release_def Let_def)

lemma unat_step_below: "a < b \<Longrightarrow> unat (a + 1 :: u64) = Suc (unat a)"
  using unat_plus_one_nowrap [of a b] by simp

termination advance_loop
proof (relation "measure (\<lambda>(r, limit). unat limit - unat (rs_next r))", goal_cases)
  case (2 r limit cell r')
  then have "rs_next r' = rs_next r" by (simp split: if_splits)
  with 2 show ?case
    by (simp add: unat_step_below word_less_nat_alt)
qed simp

declare advance_loop.simps [simp del]

definition advanceTo :: "'p resequencer \<Rightarrow> u64 \<Rightarrow> 'p resequencer option" where
  "advanceTo r target =
     (let limit = (if target > rs_next r + rs_window r then rs_next r + rs_window r else target)
      in do {
        r \<leftarrow> advance_loop r limit;
        Some (if rs_next r < target
              then r\<lparr>rs_skipped := rs_skipped r + (target - rs_next r), rs_next := target\<rparr>
              else r)
      })"

subsection \<open>Finding buffered frames\<close>

definition smallestBuffered :: "'p resequencer \<Rightarrow> u64 \<times> bool" where
  "smallestBuffered r =
     foldl (\<lambda>(best, found) c.
              if sl_occupied c \<and> sl_seq c \<ge> rs_next r \<and> (\<not> found \<or> sl_seq c < best)
              then (sl_seq c, True) else (best, found))
           (0, False) (rs_ring r)"

function oldestBufferedObservation ::
  "'p resequencer \<Rightarrow> (instant option \<times> 'p resequencer) option" where
  "oldestBufferedObservation r =
     (if rs_heldPos r < length (rs_held r) then
        let seq = rs_held r ! rs_heldPos r;
            r1 = r\<lparr>rs_holdSlotVisits := rs_holdSlotVisits r + 1\<rparr>
        in case cell_at r1 seq of
             None \<Rightarrow> None
           | Some cell \<Rightarrow>
               if sl_occupied cell \<and> sl_seq cell = seq \<and> seq \<ge> rs_next r1 then
                 let r2 = (if rs_heldPos r1 > length (rs_held r1) div 2
                           then r1\<lparr>rs_held := drop (rs_heldPos r1) (rs_held r1), rs_heldPos := 0\<rparr>
                           else r1)
                 in Some (Some (sl_observedAt cell), r2)
               else oldestBufferedObservation (r1\<lparr>rs_heldPos := rs_heldPos r1 + 1\<rparr>)
      else Some (None, r\<lparr>rs_held := [], rs_heldPos := 0\<rparr>))"
  by pat_completeness auto

termination oldestBufferedObservation
  by (relation "measure (\<lambda>r. length (rs_held r) - rs_heldPos r)") auto

declare oldestBufferedObservation.simps [simp del]

definition arm :: "'p resequencer \<Rightarrow> instant \<Rightarrow> 'p resequencer option" where
  "arm r now = do {
     cell \<leftarrow> cell_at r (rs_next r);
     let headPresent = sl_occupied cell \<and> sl_seq cell = rs_next r;
     if \<not> headPresent \<and> rs_buf r > 0 then
       if \<not> rs_waiting r then do {
         let r = r\<lparr>rs_waiting := True\<rparr>;
         let hold = effectiveHoldLocked r;
         (obs, r) \<leftarrow> oldestBufferedObservation r;
         observedAt \<leftarrow> obs;
         Some (notifyLocked (r\<lparr>rs_deadline := observedAt + hold, rs_armedAt := now,
                               rs_armedWindow := hold, rs_holds := rs_holds r + 1\<rparr>))
       } else Some r
     else Some (endHoldLocked r now)
   }"

partial_function (option) expire :: "'p resequencer \<Rightarrow> instant \<Rightarrow> 'p resequencer option" where
  "expire r now =
     (if \<not> rs_waiting r then Some r
      else if now < rs_deadline r then Some r
      else
        let r1 = r\<lparr>rs_deadlineWakeups := rs_deadlineWakeups r + 1\<rparr>
        in if \<not> snd (smallestBuffered r1) then Some (endHoldLocked r1 now)
           else
             let minSeq = fst (smallestBuffered r1);
                 r2 = (if rs_next r1 < minSeq
                       then r1\<lparr>rs_skipped := rs_skipped r1 + (minSeq - rs_next r1), rs_next := minSeq\<rparr>
                       else r1)
             in do {
               r3 \<leftarrow> drain r2;
               r4 \<leftarrow> arm (endHoldLocked r3 now) now;
               expire r4 now
             })"

declare expire.simps [code]

subsection \<open>The discontinuity guard\<close>

definition runContains :: "'p resequencer \<Rightarrow> u64 \<Rightarrow> bool" where
  "runContains r seq = list_ex (\<lambda>s. s = seq) (rs_resyncSeqs r)"

definition spanExceeds :: "'p resequencer \<Rightarrow> u64 \<Rightarrow> bool" where
  "spanExceeds r seq =
     (let lo = (if seq < rs_resyncLo r then seq else rs_resyncLo r);
          hi = (if seq > rs_resyncHi r then seq else rs_resyncHi r)
      in hi - lo \<ge> rs_window r)"

definition resyncReset :: "'p resequencer \<Rightarrow> 'p resequencer" where
  "resyncReset r = r\<lparr>rs_resyncSeqs := [], rs_resyncLo := 0, rs_resyncHi := 0\<rparr>"

definition resync :: "'p resequencer \<Rightarrow> u64 \<Rightarrow> instant \<Rightarrow> 'p resequencer" where
  "resync r base now =
     (let r = r\<lparr>rs_ring := map (\<lambda>_. empty_slot) (rs_ring r), rs_buf := 0, rs_held := [],
                rs_heldPos := 0, rs_next := base\<rparr>;
          r = resyncReset (endHoldLocked r now)
      in r\<lparr>rs_resyncs := rs_resyncs r + 1\<rparr>)"

definition tryResync :: "'p resequencer \<Rightarrow> u64 \<Rightarrow> instant \<Rightarrow> bool \<times> 'p resequencer" where
  "tryResync r seq now =
     (if rs_resyncSeqs r = [] \<or> spanExceeds r seq then
        (False, r\<lparr>rs_resyncLo := seq, rs_resyncHi := seq, rs_resyncSeqs := [seq]\<rparr>)
      else if runContains r seq then (False, r)
      else
        let r = (if seq < rs_resyncLo r then r\<lparr>rs_resyncLo := seq\<rparr> else r);
            r = (if seq > rs_resyncHi r then r\<lparr>rs_resyncHi := seq\<rparr> else r);
            r = r\<lparr>rs_resyncSeqs := rs_resyncSeqs r @ [seq]\<rparr>
        in if length (rs_resyncSeqs r) < resyncCorroborate then (False, r)
           else (True, resync r seq now))"

definition RebaselineAt :: "'p resequencer \<Rightarrow> u64 \<Rightarrow> instant \<Rightarrow> 'p resequencer option" where
  "RebaselineAt r first now =
     (if first = 0 then None
      else
        let r = r\<lparr>rs_ring := map (\<lambda>_. empty_slot) (rs_ring r), rs_buf := 0, rs_held := [],
                  rs_heldPos := 0, rs_started := True, rs_next := first\<rparr>;
            r = resyncReset (endHoldLocked r now)
        in Some (notifyLocked (r\<lparr>rs_rebaselines := rs_rebaselines r + 1\<rparr>)))"

subsection \<open>Admission, observation and delivery\<close>

definition suspect_drop :: "'p resequencer \<Rightarrow> u64 \<Rightarrow> instant \<Rightarrow> bool \<times> 'p resequencer" where
  "suspect_drop r seq now =
     (let (ok, r) = tryResync r seq now
      in if ok then (True, r) else (False, r\<lparr>rs_dropSuspect := rs_dropSuspect r + 1\<rparr>))"

definition admit :: "'p resequencer \<Rightarrow> u64 \<Rightarrow> instant \<Rightarrow> (bool \<times> 'p resequencer) option" where
  "admit r seq now =
     (if seq < rs_next r then
        if rs_next r - seq > rs_window r then Some (suspect_drop r seq now)
        else
          let r = resyncReset r
          in Some (False, r\<lparr>rs_dropLate := rs_dropLate r + 1\<rparr>)
      else if seq - rs_next r \<ge> resyncFactor * rs_window r then Some (suspect_drop r seq now)
      else
        let r = resyncReset r
        in if seq - rs_next r \<ge> rs_window r then do {
             r \<leftarrow> advanceTo (endHoldLocked r now) (seq - rs_window r + 1);
             Some (True, r)
           } else Some (True, r))"

definition place :: "'p resequencer \<Rightarrow> u64 \<Rightarrow> 'p option \<Rightarrow> addr_port \<Rightarrow> instant \<Rightarrow> 'p resequencer" where
  "place r seq payload src now =
     (let fillsGap = rs_waiting r \<and> seq = rs_next r;
          r = r\<lparr>rs_ring := (rs_ring r)[idx r seq :=
                   \<lparr>sl_seq = seq, sl_src = src, sl_payload = payload, sl_observedAt = now,
                    sl_occupied = True\<rparr>],
                rs_buf := rs_buf r + 1\<rparr>;
          r = (if seq \<noteq> rs_next r then r\<lparr>rs_held := rs_held r @ [seq]\<rparr> else r);
          r = (if rs_buf r > rs_highWater r then r\<lparr>rs_highWater := rs_buf r\<rparr> else r)
      in if fillsGap then endHoldLocked (r\<lparr>rs_gapFills := rs_gapFills r + 1\<rparr>) now else r)"

definition Observe ::
  "'p resequencer \<Rightarrow> u64 \<Rightarrow> 'p option \<Rightarrow> addr_port \<Rightarrow> instant \<Rightarrow> (bool \<times> 'p resequencer) option" where
  "Observe r seq payload src now = do {
     let r = (if \<not> rs_started r then r\<lparr>rs_started := True, rs_next := seq\<rparr> else r);
     r \<leftarrow> expire r now;
     (ok, r) \<leftarrow> admit r seq now;
     if \<not> ok then Some (False, r)
     else do {
       cell \<leftarrow> cell_at r seq;
       if sl_occupied cell \<and> sl_seq cell = seq
       then Some (False, r\<lparr>rs_dropDup := rs_dropDup r + 1\<rparr>)
       else do {
         r \<leftarrow> drain (place r seq payload src now);
         r \<leftarrow> arm r now;
         Some (True, r)
       }
     }
   }"

definition take_ready :: "'p resequencer \<Rightarrow> 'p item option \<times> 'p resequencer" where
  "take_ready r =
     (if rs_readyPos r \<ge> length (rs_ready r) then (None, r)
      else
       let it = rs_ready r ! rs_readyPos r;
           r = r\<lparr>rs_ready := (rs_ready r)[rs_readyPos r := empty_item], rs_readyPos := rs_readyPos r + 1\<rparr>;
           r = (if rs_readyPos r \<ge> length (rs_ready r) then r\<lparr>rs_ready := [], rs_readyPos := 0\<rparr> else r)
       in (Some it, r))"

definition Pop :: "'p resequencer \<Rightarrow> instant \<Rightarrow> ('p item option \<times> 'p resequencer) option" where
  "Pop r now = do {r \<leftarrow> expire r now; Some (take_ready r)}"

subsection \<open>Accessors\<close>

definition Buffered :: "'p resequencer \<Rightarrow> int" where
  "Buffered r = rs_buf r"

definition Pending :: "'p resequencer \<Rightarrow> int" where
  "Pending r = int (length (rs_ready r)) - int (rs_readyPos r)"

definition HighWater :: "'p resequencer \<Rightarrow> int" where
  "HighWater r = rs_highWater r"

record stats =
  st_Released :: u64
  st_DroppedDup :: u64
  st_DroppedOld :: u64
  st_DroppedSuspect :: u64
  st_Skipped :: u64
  st_Resyncs :: u64
  st_Rebaselines :: u64
  st_Holds :: u64
  st_HoldNanos :: u64
  st_ArmedDeadline :: instant
  st_ArmedWindow :: duration
  st_DeadlineWakeups :: u64
  st_GapFills :: u64
  st_HoldSlotVisits :: u64

definition Stats :: "'p resequencer \<Rightarrow> stats" where
  "Stats r =
     \<lparr>st_Released = rs_releasedN r, st_DroppedDup = rs_dropDup r, st_DroppedOld = rs_dropLate r,
      st_DroppedSuspect = rs_dropSuspect r, st_Skipped = rs_skipped r, st_Resyncs = rs_resyncs r,
      st_Rebaselines = rs_rebaselines r, st_Holds = rs_holds r, st_HoldNanos = rs_holdNanos r,
      st_ArmedDeadline = (if rs_waiting r then rs_deadline r else zero_time),
      st_ArmedWindow = (if rs_waiting r then rs_armedWindow r else 0),
      st_DeadlineWakeups = rs_deadlineWakeups r, st_GapFills = rs_gapFills r,
      st_HoldSlotVisits = rs_holdSlotVisits r\<rparr>"

end
