(* ===== verification/Reseq_Ring.thy ===== *)
theory Reseq_Ring
  imports Reseq
begin

text \<open>
  The ring of the resequencer against its specification. An abstract resequencer is a release point, a finite map
  from sequences to buffered cells and a FIFO; its only moves release the head or jump over
  sequences that are not buffered. The ring operations of the source implement it under the
  ring invariant, so what holds of every abstract move holds of the code.
\<close>

section \<open>The abstract resequencer\<close>

type_synonym 'p buffer = "u64 \<Rightarrow> 'p slot option"

type_synonym 'p view = "u64 \<times> 'p buffer \<times> 'p item list"

definition slot_item :: "'p slot \<Rightarrow> 'p item" where
  "slot_item c = \<lparr>it_Payload = sl_payload c, it_Src = sl_src c\<rparr>"

inductive moves :: "'p view \<Rightarrow> 'p view \<Rightarrow> bool" where
  stay: "moves v v"
| release: "cont nx = Some c \<Longrightarrow> moves (nx + 1, cont(nx := None), rd @ [slot_item c]) v \<Longrightarrow>
    moves (nx, cont, rd) v"
| jump: "nx \<le> m \<Longrightarrow> (\<And>s. nx \<le> s \<Longrightarrow> s < m \<Longrightarrow> cont s = None) \<Longrightarrow> moves (m, cont, rd) v \<Longrightarrow>
    moves (nx, cont, rd) v"

lemma moves_trans: "moves u v \<Longrightarrow> moves v w \<Longrightarrow> moves u w"
  by (induction rule: moves.induct) (auto intro: moves.intros)

lemma moves_release1:
  "cont nx = Some c \<Longrightarrow> moves (nx, cont, rd) (nx + 1, cont(nx := None), rd @ [slot_item c])"
  by (auto intro: moves.intros)

lemma moves_jump1:
  "nx \<le> m \<Longrightarrow> (\<And>s. nx \<le> s \<Longrightarrow> s < m \<Longrightarrow> cont s = None) \<Longrightarrow> moves (nx, cont, rd) (m, cont, rd)"
  by (auto intro: moves.intros)

text \<open>A buffer whose sequences lie at or above the release point and below the last word.\<close>

definition sits_above :: "u64 \<Rightarrow> 'p buffer \<Rightarrow> bool" where
  "sits_above nx cont \<longleftrightarrow> (\<forall>s\<in>dom cont. nx \<le> s \<and> s \<noteq> - 1)"

lemma word_not_max_less: "s \<noteq> - 1 \<Longrightarrow> s < (- 1 :: u64)"
  by (metis word_order.not_eq_extremum)

lemma succ_not_max:
  fixes s t :: u64
  assumes "s \<noteq> - 1"
  shows "s < s + 1" and "s < t \<Longrightarrow> s + 1 \<le> t" and "t < s + 1 \<longleftrightarrow> t \<le> s"
    and "unat (s + 1) = Suc (unat s)"
proof -
  show u: "unat (s + 1) = Suc (unat s)"
    using unat_step_below [OF word_not_max_less [OF assms]] .
  show "s < s + 1" and "s < t \<Longrightarrow> s + 1 \<le> t" and "t < s + 1 \<longleftrightarrow> t \<le> s"
    by (auto simp: word_less_nat_alt word_le_nat_alt u)
qed

lemma sits_above_release:
  assumes "sits_above nx cont" and "nx \<in> dom cont"
  shows "sits_above (nx + 1) (cont(nx := None))"
  unfolding sits_above_def
proof
  fix s assume "s \<in> dom (cont(nx := None))"
  then have "s \<in> dom cont" and "s \<noteq> nx" by (auto split: if_splits)
  then have "nx < s" and "s \<noteq> - 1" and "nx \<noteq> - 1"
    using assms unfolding sits_above_def by (blast intro: order.not_eq_order_implies_strict)+
  then show "nx + 1 \<le> s \<and> s \<noteq> - 1" using succ_not_max(2) by blast
qed

lemma sits_above_jump:
  assumes "sits_above nx cont" and gap: "\<And>s. nx \<le> s \<Longrightarrow> s < m \<Longrightarrow> cont s = None"
  shows "sits_above m cont"
  unfolding sits_above_def
proof
  fix s assume "s \<in> dom cont"
  then show "m \<le> s \<and> s \<noteq> - 1"
    using assms(1) gap [of s] by (auto simp: sits_above_def not_le [symmetric])
qed

text \<open>
  What a sequence of moves does: the release point never goes back, exactly the sequences below
  the new one leave the buffer, and their items join the FIFO in ascending order.
\<close>

lemma moves_spec:
  assumes "moves (nx, cont, rd) (nx', cont', rd')" and "sits_above nx cont"
  shows "nx \<le> nx' \<and> sits_above nx' cont' \<and> cont' = cont |` {s. nx' \<le> s} \<and>
    rd' = rd @ map (\<lambda>s. slot_item (the (cont s))) (sorted_list_of_set {s \<in> dom cont. s < nx'})"
  using assms
proof (induction "(nx, cont, rd)" "(nx', cont', rd')" arbitrary: nx cont rd rule: moves.induct)
  case stay
  then have "cont' |` {s. nx' \<le> s} = cont'" and "{s \<in> dom cont'. s < nx'} = {}"
    by (auto simp: sits_above_def restrict_map_def fun_eq_iff not_le domIff)
      (metis domI not_less option.exhaust_sel)+
  with stay show ?case by simp
next
  case (release cont nx c rd)
  have nmax: "nx \<noteq> - 1" and dom: "nx \<in> dom cont"
    using release by (auto simp: sits_above_def)
  note IH = release.hyps(3) [OF sits_above_release [OF release.prems dom]]
  have lt: "nx < nx'"
    using IH succ_not_max(1) [OF nmax] by (meson order.strict_trans1 order.strict_trans2)
  have split: "{s \<in> dom cont. s < nx'} = insert nx {s \<in> dom (cont(nx := None)). s < nx'}"
    using dom lt by auto
  have first: "\<forall>s\<in>{s \<in> dom (cont(nx := None)). s < nx'}. nx < s"
    using release.prems by (auto simp: sits_above_def order.strict_iff_order)
  have "sorted_list_of_set {s \<in> dom cont. s < nx'} =
      nx # sorted_list_of_set {s \<in> dom (cont(nx := None)). s < nx'}"
    unfolding split using first
    by (subst sorted_list_of_set_insert_remove) (auto simp: insort_is_Cons less_imp_le)
  moreover have "map (\<lambda>s. slot_item (the ((cont(nx := None)) s)))
        (sorted_list_of_set {s \<in> dom (cont(nx := None)). s < nx'}) =
      map (\<lambda>s. slot_item (the (cont s))) (sorted_list_of_set {s \<in> dom (cont(nx := None)). s < nx'})"
    by (rule map_cong) auto
  ultimately have items: "map (\<lambda>s. slot_item (the (cont s))) (sorted_list_of_set {s \<in> dom cont. s < nx'}) =
      slot_item c # map (\<lambda>s. slot_item (the ((cont(nx := None)) s)))
        (sorted_list_of_set {s \<in> dom (cont(nx := None)). s < nx'})"
    using release.hyps(1) by simp
  have "cont(nx := None) |` {s. nx' \<le> s} = cont |` {s. nx' \<le> s}"
    using lt by (auto simp: restrict_map_def fun_eq_iff)
  then show ?case
    unfolding items using IH less_imp_le [OF lt] by (metis append.assoc append_Cons append_Nil)
next
  case (jump nx m cont rd)
  show ?case
    using jump.hyps(4) [OF sits_above_jump [OF jump.prems jump.hyps(2)]] jump.hyps(1) by auto
qed

section \<open>The ring\<close>

definition cells :: "u64 \<Rightarrow> 'p slot list \<Rightarrow> 'p buffer" where
  "cells w ring s =
     (let c = ring ! unat (s mod w) in if sl_occupied c \<and> sl_seq c = s then Some c else None)"

abbreviation content :: "'p resequencer \<Rightarrow> 'p buffer" where
  "content r \<equiv> cells (rs_window r) (rs_ring r)"

abbreviation view :: "'p resequencer \<Rightarrow> 'p view" where
  "view r \<equiv> (rs_next r, content r, rs_ready r)"

definition in_window :: "u64 \<Rightarrow> u64 \<Rightarrow> u64 \<Rightarrow> bool" where
  "in_window w nx s \<longleftrightarrow> nx \<le> s \<and> unat s < unat nx + unat w \<and> s \<noteq> - 1"

definition ring_ok :: "u64 \<Rightarrow> u64 \<Rightarrow> 'p slot list \<Rightarrow> bool" where
  "ring_ok w nx ring \<longleftrightarrow> w \<noteq> 0 \<and> length ring = unat w \<and>
     (\<forall>i<length ring. sl_occupied (ring ! i) \<longrightarrow>
        unat (sl_seq (ring ! i) mod w) = i \<and> in_window w nx (sl_seq (ring ! i)))"

definition core :: "u64 \<Rightarrow> u64 \<Rightarrow> 'p slot list \<Rightarrow> int \<Rightarrow> u64 list \<Rightarrow> bool" where
  "core w nx ring buf held \<longleftrightarrow> ring_ok w nx ring \<and> buf = int (occupied_count ring) \<and>
     (\<forall>s\<in>dom (cells w ring). s = nx \<or> s \<in> set held) \<and>
     (\<forall>s\<in>set held. s \<in> dom (cells w ring) \<or> s < nx)"

abbreviation pendingHeld :: "'p resequencer \<Rightarrow> u64 list" where
  "pendingHeld r \<equiv> drop (rs_heldPos r) (rs_held r)"

definition rs_inv :: "'p resequencer \<Rightarrow> bool" where
  "rs_inv r \<longleftrightarrow> core (rs_window r) (rs_next r) (rs_ring r) (rs_buf r) (pendingHeld r) \<and>
     rs_heldPos r \<le> length (rs_held r)"

lemma same_residue_le:
  fixes a b w :: nat
  assumes "a mod w = b mod w" and "a \<le> b" and "b < a + w"
  shows "a = b"
proof -
  have "w dvd b - a" using assms mod_eq_dvd_iff_nat [of a b w] by simp
  moreover have "b - a < w" using assms by simp
  ultimately have "b - a = 0" using nat_dvd_not_less by blast
  with assms(2) show ?thesis by simp
qed

lemma in_window_inject:
  assumes "in_window w nx s" and "in_window w nx t" and "s mod w = t mod w"
  shows "s = t"
proof -
  have eq: "unat s mod unat w = unat t mod unat w"
    using arg_cong [OF assms(3), of unat] by (simp only: unat_mod)
  have le: "unat nx \<le> unat s" "unat s < unat nx + unat w" "unat nx \<le> unat t" "unat t < unat nx + unat w"
    using assms(1,2) by (auto simp: in_window_def word_le_nat_alt)
  then have "unat s = unat t"
    using same_residue_le [OF eq] same_residue_le [OF eq [symmetric]]
    by (cases "unat s \<le> unat t") linarith+
  then show ?thesis by (rule word_unat_eq_iff [THEN iffD2])
qed

lemma index_in_range: "ring_ok w nx ring \<Longrightarrow> unat (s mod w) < length ring"
  by (simp add: ring_ok_def unat_mod unat_gt_0)

lemma cells_Some:
  "cells w ring s = Some c \<longleftrightarrow> c = ring ! unat (s mod w) \<and> sl_occupied c \<and> sl_seq c = s"
  by (auto simp: cells_def Let_def)

lemma cells_in_window:
  assumes "ring_ok w nx ring" and "cells w ring s = Some c"
  shows "in_window w nx s"
  using assms index_in_range [OF assms(1), of s] by (auto simp: ring_ok_def cells_Some)

lemma cells_sits_above: "ring_ok w nx ring \<Longrightarrow> sits_above nx (cells w ring)"
  by (auto simp: sits_above_def in_window_def dest: cells_in_window)

lemma cell_at_ring: "ring_ok (rs_window r) nx (rs_ring r) \<Longrightarrow> cell_at r s = Some (rs_ring r ! idx r s)"
  using index_in_range [of "rs_window r" nx "rs_ring r" s] by (simp add: cell_at_def idx_def ring_ok_def)

lemma cells_update:
  assumes "ring_ok w nx ring" and "sl_occupied (ring ! unat (s mod w)) \<Longrightarrow> sl_seq (ring ! unat (s mod w)) = s"
    and "sl_occupied c \<Longrightarrow> sl_seq c = s"
  shows "cells w (ring[unat (s mod w) := c]) = (cells w ring)(s := if sl_occupied c then Some c else None)"
proof
  fix t
  define i where "i = unat (s mod w)"
  define j where "j = unat (t mod w)"
  have "i < length ring" unfolding i_def by (rule index_in_range [OF assms(1)])
  moreover have "s = t \<Longrightarrow> i = j" by (simp add: i_def j_def)
  moreover have "sl_occupied (ring ! i) \<Longrightarrow> sl_seq (ring ! i) = s"
    using assms(2) by (simp add: i_def)
  ultimately show "cells w (ring[unat (s mod w) := c]) t =
      ((cells w ring)(s := if sl_occupied c then Some c else None)) t"
    unfolding cells_def Let_def fun_upd_apply i_def [symmetric] j_def [symmetric] using assms(3)
    by (cases "i = j"; cases "s = t") auto
qed

lemma cell_free:
  assumes "ring_ok w nx ring" and "in_window w nx s" and "cells w ring s = None"
  shows "\<not> sl_occupied (ring ! unat (s mod w))"
proof
  assume occ: "sl_occupied (ring ! unat (s mod w))"
  let ?t = "sl_seq (ring ! unat (s mod w))"
  have "unat (?t mod w) = unat (s mod w)" and "in_window w nx ?t"
    using occ assms(1) index_in_range [OF assms(1), of s] by (auto simp: ring_ok_def)
  then have "?t = s" using assms(2) in_window_inject [of w nx ?t s] word_unat_eq_iff by blast
  with occ assms(3) show False by (simp add: cells_def Let_def)
qed

lemma occupied_count_insert:
  assumes "i < length ring" and "\<not> sl_occupied (ring ! i)" and "sl_occupied c"
  shows "occupied_count (ring[i := c]) = Suc (occupied_count ring)"
  using assms
proof (induction ring arbitrary: i)
  case (Cons d ring)
  then show ?case by (cases i) (auto simp: occupied_count_def)
qed simp

subsection \<open>What the elementary changes keep\<close>

lemma ring_ok_update:
  assumes "ring_ok w nx ring" and "sl_occupied c \<Longrightarrow> unat (sl_seq c mod w) = i \<and> in_window w nx (sl_seq c)"
  shows "ring_ok w nx (ring[i := c])"
  using assms unfolding ring_ok_def by (metis length_list_update nth_list_update_eq nth_list_update_neq)

lemma ring_ok_shift:
  assumes "ring_ok w nx ring" and "nx \<le> m" and "\<And>s. s \<in> dom (cells w ring) \<Longrightarrow> m \<le> s"
  shows "ring_ok w m ring"
  unfolding ring_ok_def
proof (intro conjI allI impI)
  fix i assume i: "i < length ring" and occ: "sl_occupied (ring ! i)"
  let ?s = "sl_seq (ring ! i)"
  have at: "unat (?s mod w) = i" and win: "in_window w nx ?s"
    using assms(1) i occ by (auto simp: ring_ok_def)
  then have "cells w ring ?s = Some (ring ! i)" using occ by (simp add: cells_Some)
  then have "m \<le> ?s" using assms(3) by blast
  then show "unat (?s mod w) = i" and "in_window w m ?s"
    using at win assms(2) by (auto simp: in_window_def word_le_nat_alt)
qed (use assms(1) in \<open>auto simp: ring_ok_def\<close>)

lemma core_jump:
  assumes "core w nx ring buf held" and "nx \<le> m" and "\<And>s. nx \<le> s \<Longrightarrow> s < m \<Longrightarrow> cells w ring s = None"
  shows "core w m ring buf held"
proof -
  have ge: "m \<le> s" if "s \<in> dom (cells w ring)" for s
    using that sits_above_jump [OF cells_sits_above, of w nx ring m] assms(1,3)
    by (auto simp: core_def sits_above_def)
  have "ring_ok w m ring"
    using assms(1) by (intro ring_ok_shift [OF _ assms(2) ge]) (simp add: core_def)
  moreover have "s = m \<or> s \<in> set held" if "s \<in> dom (cells w ring)" for s
    using that ge [OF that] assms(1,2) unfolding core_def by (metis order.antisym)
  ultimately show ?thesis
    using assms(1,2) by (auto simp: core_def)
qed

lemma core_release:
  assumes c: "core w nx ring buf held" and head: "cells w ring nx = Some cl" and off: "\<not> sl_occupied e"
  shows "core w (nx + 1) (ring[unat (nx mod w) := e]) (buf - 1) held"
    and "cells w (ring[unat (nx mod w) := e]) = (cells w ring)(nx := None)"
proof -
  let ?ring = "ring[unat (nx mod w) := e]"
  have ok: "ring_ok w nx ring" using c by (simp add: core_def)
  have occ: "sl_occupied (ring ! unat (nx mod w))" "sl_seq (ring ! unat (nx mod w)) = nx"
    using head by (auto simp: cells_Some)
  show cells: "cells w ?ring = (cells w ring)(nx := None)"
    using cells_update [OF ok, of nx e] occ off by simp
  have nmax: "nx \<noteq> - 1" using cells_in_window [OF ok head] by (simp add: in_window_def)
  have above: "sits_above (nx + 1) (cells w ?ring)"
    unfolding cells by (rule sits_above_release [OF cells_sits_above [OF ok]]) (use head in auto)
  have "ring_ok w (nx + 1) ?ring"
    by (rule ring_ok_shift [OF ring_ok_update [OF ok]])
      (use off above succ_not_max(1) [OF nmax] in \<open>auto simp: sits_above_def less_imp_le\<close>)
  moreover have "buf - 1 = int (occupied_count ?ring)"
    using c occupied_count_update [OF index_in_range [OF ok] occ(1) off] by (simp add: core_def)
  moreover have "s \<in> dom (cells w ?ring) \<or> s < nx + 1" if "s \<in> set held" for s
    using that c succ_not_max(3) [OF nmax, of s] unfolding cells by (auto simp: core_def)
  ultimately show "core w (nx + 1) ?ring (buf - 1) held"
    using c by (auto simp: core_def cells split: if_splits)
qed

lemma core_place:
  assumes c: "core w nx ring buf held" and win: "in_window w nx s" and free: "cells w ring s = None"
    and e: "sl_occupied e" "sl_seq e = s"
  shows "core w nx (ring[unat (s mod w) := e]) (buf + 1) (if s \<noteq> nx then held @ [s] else held)"
    and "cells w (ring[unat (s mod w) := e]) = (cells w ring)(s \<mapsto> e)"
proof -
  have ok: "ring_ok w nx ring" using c by (simp add: core_def)
  have empty: "\<not> sl_occupied (ring ! unat (s mod w))" by (rule cell_free [OF ok win free])
  show cells: "cells w (ring[unat (s mod w) := e]) = (cells w ring)(s \<mapsto> e)"
    using cells_update [OF ok, of s e] empty e by simp
  have "ring_ok w nx (ring[unat (s mod w) := e])"
    using ring_ok_update [OF ok] e win by simp
  moreover have "buf + 1 = int (occupied_count (ring[unat (s mod w) := e]))"
    using c occupied_count_insert [OF index_in_range [OF ok] empty e(1)] by (simp add: core_def)
  ultimately show "core w nx (ring[unat (s mod w) := e]) (buf + 1) (if s \<noteq> nx then held @ [s] else held)"
    using c unfolding core_def cells by auto
qed

lemma core_clear:
  "w \<noteq> 0 \<Longrightarrow> length ring = unat w \<Longrightarrow> core w nx (map (\<lambda>_. empty_slot) ring) 0 []"
  "w \<noteq> 0 \<Longrightarrow> length ring = unat w \<Longrightarrow> cells w (map (\<lambda>_. empty_slot) ring) = Map.empty"
proof -
  assume w: "w \<noteq> 0" "length ring = unat w"
  have ok: "ring_ok w nx (map (\<lambda>_. empty_slot) ring)"
    using w by (auto simp: ring_ok_def empty_slot_def)
  show empty: "cells w (map (\<lambda>_. empty_slot) ring) = Map.empty"
  proof
    fix s show "cells w (map (\<lambda>_. empty_slot) ring) s = None"
      using index_in_range [OF ok, of s] by (simp add: cells_def empty_slot_def)
  qed
  show "core w nx (map (\<lambda>_. empty_slot) ring) 0 []"
    unfolding core_def empty using ok by (simp add: occupied_count_def empty_slot_def)
qed

section \<open>The operations implement the moves\<close>

text \<open>The fields that draining, holding and expiring never touch.\<close>

definition static ::
  "'p resequencer \<Rightarrow> (u64 \<times> duration \<times> bool \<times> nat) \<times> (u64 list \<times> u64 \<times> u64) \<times> int \<times> duration \<times>
     u64 \<times> u64 \<times> bool" where
  "static r =
     ((rs_window r, rs_timeout r, rs_started r, rs_readyPos r),
      (rs_resyncSeqs r, rs_resyncLo r, rs_resyncHi r), rs_highWater r, rs_holdBound r,
      rs_resyncs r, rs_rebaselines r, rs_closed r)"

text \<open>The fields of the hold and of the held list, which the moves themselves do not touch.\<close>

definition hold_fields ::
  "'p resequencer \<Rightarrow> (u64 list \<times> nat) \<times> bool \<times> instant \<times> instant \<times> duration" where
  "hold_fields r =
     ((rs_held r, rs_heldPos r), rs_waiting r, rs_deadline r, rs_armedAt r, rs_armedWindow r)"

lemmas field_simps' = static_def hold_fields_def

lemma view_release:
  assumes "rs_inv r" and "content r (rs_next r) = Some c"
  defines "r' \<equiv> (release r (idx r (rs_next r)))\<lparr>rs_next := rs_next r + 1\<rparr>"
  shows "rs_inv r'" and "moves (view r) (view r')" and "static r' = static r"
    and "hold_fields r' = hold_fields r"
proof -
  have c: "core (rs_window r) (rs_next r) (rs_ring r) (rs_buf r) (pendingHeld r)"
    using assms(1) by (simp add: rs_inv_def)
  have cell: "c = rs_ring r ! unat (rs_next r mod rs_window r)"
    using assms(2) by (simp add: cells_Some)
  note rel = core_release [OF c assms(2), of "c\<lparr>sl_occupied := False, sl_payload := None,
      sl_observedAt := zero_time\<rparr>", simplified]
  show "rs_inv r'"
    using assms(1) rel(1) by (simp add: r'_def rs_inv_def release_def Let_def idx_def cell)
  have "moves (view r) (rs_next r + 1, (content r)(rs_next r := None), rs_ready r @ [slot_item c])"
    using assms(2) by (rule moves_release1)
  then show "moves (view r) (view r')"
    using rel(2) by (simp add: r'_def release_def Let_def idx_def cell slot_item_def)
  show "static r' = static r" and "hold_fields r' = hold_fields r"
    by (simp_all add: r'_def release_def Let_def field_simps')
qed

lemma inv_cell_at: "rs_inv r \<Longrightarrow> cell_at r s = Some (rs_ring r ! idx r s)"
  by (auto simp: rs_inv_def core_def intro: cell_at_ring)

lemma head_content:
  "(sl_occupied (rs_ring r ! idx r s) \<and> sl_seq (rs_ring r ! idx r s) = s) \<longleftrightarrow> content r s \<noteq> None"
  by (simp add: cells_def idx_def Let_def)

lemma drain_moves:
  "rs_inv r \<Longrightarrow> \<exists>r'. drain r = Some r' \<and> rs_inv r' \<and> moves (view r) (view r') \<and>
     content r' (rs_next r') = None \<and> static r' = static r \<and> hold_fields r' = hold_fields r"
proof (induction r rule: drain.induct)
  case (1 r)
  note cell = inv_cell_at [OF "1.prems", of "rs_next r"]
  show ?case
  proof (cases "content r (rs_next r)")
    case None
    then have "drain r = Some r"
      using cell head_content [of r "rs_next r"] by (subst drain.simps) auto
    with None "1.prems" show ?thesis by (auto intro: moves.stay)
  next
    case (Some c)
    then have hd: "sl_occupied (rs_ring r ! idx r (rs_next r))" "sl_seq (rs_ring r ! idx r (rs_next r)) = rs_next r"
      using head_content [of r "rs_next r"] by auto
    let ?r = "(release r (idx r (rs_next r)))\<lparr>rs_next := rs_next r + 1\<rparr>"
    note step = view_release [OF "1.prems" Some]
    have "drain r = drain ?r" using cell hd by (subst drain.simps) (simp add: Let_def)
    moreover obtain r' where "drain ?r = Some r'" "rs_inv r'" "moves (view ?r) (view r')"
      "content r' (rs_next r') = None" "static r' = static ?r" "hold_fields r' = hold_fields ?r"
      using "1.IH" [OF cell, of "release r (idx r (rs_next r))"] hd step(1) by auto
    ultimately show ?thesis
      using step moves_trans [OF step(2), of "view r'"] by auto
  qed
qed

lemma content_moves:
  assumes "rs_inv r" and "moves (view r) (view r')"
  shows "rs_next r \<le> rs_next r'" and "content r' s = (if rs_next r' \<le> s then content r s else None)"
proof -
  have "sits_above (rs_next r) (content r)"
    using assms(1) by (intro cells_sits_above) (simp add: rs_inv_def core_def)
  from moves_spec [OF assms(2) this]
  show "rs_next r \<le> rs_next r'" and "content r' s = (if rs_next r' \<le> s then content r s else None)"
    by (auto simp: restrict_map_def)
qed

lemma inv_in_window: "rs_inv r \<Longrightarrow> content r s = Some c \<Longrightarrow> in_window (rs_window r) (rs_next r) s"
  by (auto simp: rs_inv_def core_def intro: cells_in_window)

text \<open>Draining releases a contiguous run: it never passes a sequence that is not buffered.\<close>

lemma drain_contiguous:
  "rs_inv r \<Longrightarrow> drain r = Some r' \<Longrightarrow> rs_next r \<le> s \<Longrightarrow> s < rs_next r' \<Longrightarrow> content r s \<noteq> None"
proof (induction r rule: drain.induct)
  case (1 r)
  note cell = inv_cell_at [OF "1.prems"(1), of "rs_next r"]
  show ?case
  proof (cases "content r (rs_next r)")
    case None
    then have "drain r = Some r"
      using cell head_content [of r "rs_next r"] by (subst drain.simps) auto
    with "1.prems" show ?thesis by (auto simp: not_le [symmetric])
  next
    case (Some c)
    then have hd: "sl_occupied (rs_ring r ! idx r (rs_next r))" "sl_seq (rs_ring r ! idx r (rs_next r)) = rs_next r"
      using head_content [of r "rs_next r"] by auto
    let ?r = "(release r (idx r (rs_next r)))\<lparr>rs_next := rs_next r + 1\<rparr>"
    note step = view_release [OF "1.prems"(1) Some]
    have dr: "drain ?r = Some r'" using "1.prems"(2) cell hd by (subst (asm) drain.simps) (simp add: Let_def)
    show ?thesis
    proof (cases "s = rs_next r")
      case True
      then show ?thesis using Some by simp
    next
      case False
      have "rs_next r \<noteq> - 1" using inv_in_window [OF "1.prems"(1) Some] by (simp add: in_window_def)
      then have "rs_next r + 1 \<le> s" using "1.prems"(3) False by (intro succ_not_max(2)) auto
      then have "content ?r s \<noteq> None"
        using "1.IH" [OF cell, of "release r (idx r (rs_next r))"] hd step(1) dr "1.prems"(4) by simp
      then show ?thesis
        using content_moves(2) [OF "1.prems"(1) step(2), of s] by (simp split: if_splits)
    qed
  qed
qed

lemma inv_jump:
  assumes "rs_inv r" and "rs_next r \<le> m" and "\<And>s. rs_next r \<le> s \<Longrightarrow> s < m \<Longrightarrow> content r s = None"
  shows "rs_inv (r\<lparr>rs_skipped := k, rs_next := m\<rparr>)"
    and "moves (view r) (view (r\<lparr>rs_skipped := k, rs_next := m\<rparr>))"
  using assms by (auto simp: rs_inv_def intro: core_jump moves_jump1)

lemma advance_loop_moves:
  "rs_inv r \<Longrightarrow> \<exists>r'. advance_loop r limit = Some r' \<and> rs_inv r' \<and> moves (view r) (view r') \<and>
     rs_next r' = (if rs_next r < limit then limit else rs_next r) \<and>
     static r' = static r \<and> hold_fields r' = hold_fields r"
proof (induction r limit rule: advance_loop.induct)
  case (1 r limit)
  note cell = inv_cell_at [OF "1.prems", of "rs_next r"]
  show ?case
  proof (cases "rs_next r < limit")
    case False
    then show ?thesis using "1.prems" by (subst advance_loop.simps) (auto intro: moves.stay)
  next
    case lt: True
    then have nmax: "rs_next r \<noteq> - 1" by (metis word_order.extremum_strict)
    define r1 where "r1 = (if sl_occupied (rs_ring r ! idx r (rs_next r)) \<and>
        sl_seq (rs_ring r ! idx r (rs_next r)) = rs_next r then release r (idx r (rs_next r))
      else r\<lparr>rs_skipped := rs_skipped r + 1\<rparr>)"
    let ?r = "r1\<lparr>rs_next := rs_next r1 + 1\<rparr>"
    have nxt: "rs_next r1 = rs_next r" by (simp add: r1_def)
    have step: "rs_inv ?r \<and> moves (view r) (view ?r) \<and> static ?r = static r \<and> hold_fields ?r = hold_fields r"
    proof (cases "content r (rs_next r)")
      case None
      have "rs_inv (r\<lparr>rs_skipped := rs_skipped r + 1, rs_next := rs_next r + 1\<rparr>)"
        "moves (view r) (view (r\<lparr>rs_skipped := rs_skipped r + 1, rs_next := rs_next r + 1\<rparr>))"
        using inv_jump [OF "1.prems", of "rs_next r + 1"] None succ_not_max [OF nmax]
        by (auto simp: less_imp_le)
      then show ?thesis using None head_content [of r "rs_next r"] by (auto simp: r1_def field_simps')
    next
      case (Some c)
      then show ?thesis
        using view_release [OF "1.prems" Some] head_content [of r "rs_next r"] by (auto simp: r1_def)
    qed
    have "advance_loop r limit = advance_loop ?r limit"
      using cell lt by (subst advance_loop.simps) (simp add: r1_def Let_def)
    moreover obtain r' where "advance_loop ?r limit = Some r'" "rs_inv r'" "moves (view ?r) (view r')"
      "rs_next r' = (if rs_next ?r < limit then limit else rs_next ?r)" "static r' = static ?r"
      "hold_fields r' = hold_fields ?r"
      using "1.IH" [OF lt cell r1_def] step by auto
    moreover have "rs_next r + 1 \<le> limit" using succ_not_max(2) [OF nmax lt] .
    ultimately show ?thesis
      using step lt moves_trans [of "view r" "view ?r" "view r'"] nxt by auto
  qed
qed

lemma inv_window_pos: "rs_inv r \<Longrightarrow> 0 < unat (rs_window r)"
  by (simp add: rs_inv_def core_def ring_ok_def unat_gt_0)

lemma advanceTo_moves:
  assumes rs_inv: "rs_inv r" and below: "rs_next r \<le> target"
    and nowrap: "unat (rs_next r) + unat (rs_window r) < 2 ^ 64"
  shows "\<exists>r'. advanceTo r target = Some r' \<and> rs_inv r' \<and> moves (view r) (view r') \<and>
     rs_next r' = target \<and> static r' = static r \<and> hold_fields r' = hold_fields r"
proof -
  let ?top = "rs_next r + rs_window r"
  have top: "unat ?top = unat (rs_next r) + unat (rs_window r)"
    using unat_plus_nowrap [of "rs_next r" "rs_window r"] nowrap by simp
  then have "rs_next r < ?top" using inv_window_pos [OF rs_inv] by (simp add: word_less_nat_alt)
  define limit where "limit = (if target > ?top then ?top else target)"
  obtain r1 where r1: "advance_loop r limit = Some r1" "rs_inv r1" "moves (view r) (view r1)"
    "rs_next r1 = (if rs_next r < limit then limit else rs_next r)"
    "static r1 = static r" "hold_fields r1 = hold_fields r"
    using advance_loop_moves [OF rs_inv, of limit] by blast
  have adv: "advanceTo r target = Some (if rs_next r1 < target
      then r1\<lparr>rs_skipped := rs_skipped r1 + (target - rs_next r1), rs_next := target\<rparr> else r1)"
    unfolding advanceTo_def Let_def limit_def [symmetric] by (simp add: r1(1))
  have limit_le: "limit \<le> target" by (simp add: limit_def less_imp_le)
  show ?thesis
  proof (cases "rs_next r1 < target")
    case False
    then have "rs_next r1 = target" using r1(4) below limit_le by (auto split: if_splits)
    with False r1(2-6) show ?thesis unfolding adv by auto
  next
    case True
    then have at: "rs_next r1 = ?top"
      using r1(4) below \<open>rs_next r < ?top\<close> by (auto simp: limit_def split: if_splits)
    have gap: "content r1 s = None" if "rs_next r1 \<le> s" for s
    proof (rule ccontr)
      assume "content r1 s \<noteq> None"
      then obtain c where "content r s = Some c"
        using content_moves(2) [OF rs_inv r1(3), of s] by (auto split: if_splits)
      then have "unat s < unat ?top"
        using inv_in_window [OF rs_inv] by (simp add: in_window_def top)
      with that at show False by (simp add: word_le_nat_alt)
    qed
    let ?r = "r1\<lparr>rs_skipped := rs_skipped r1 + (target - rs_next r1), rs_next := target\<rparr>"
    have "rs_inv ?r" "moves (view r1) (view ?r)"
      using inv_jump [OF r1(2), of target] gap True by (auto simp: less_imp_le)
    moreover have "advanceTo r target = Some ?r" using adv True by simp
    ultimately show ?thesis
      using r1(5,6) moves_trans [OF r1(3)] by (auto simp: field_simps')
  qed
qed

subsection \<open>Finding buffered frames\<close>

lemma smallest_fold:
  fixes nx :: u64
  defines "step \<equiv> \<lambda>(best, found) c.
    if sl_occupied c \<and> sl_seq c \<ge> nx \<and> (\<not> found \<or> sl_seq c < best) then (sl_seq c, True) else (best, found)"
  defines "S \<equiv> \<lambda>cs. {sl_seq c |c. c \<in> set cs \<and> sl_occupied c \<and> nx \<le> sl_seq c}"
  shows "case foldl step (bst, fnd) cs of (b, f) \<Rightarrow>
    (f \<longleftrightarrow> fnd \<or> S cs \<noteq> {}) \<and> (f \<longrightarrow> (fnd \<and> b = bst \<or> b \<in> S cs) \<and> (fnd \<longrightarrow> b \<le> bst) \<and> (\<forall>s\<in>S cs. b \<le> s))"
proof (induction cs arbitrary: bst fnd)
  case Nil
  then show ?case by (simp add: S_def)
next
  case (Cons c cs)
  let ?hit = "sl_occupied c \<and> nx \<le> sl_seq c"
  have S: "S (c # cs) = (if ?hit then insert (sl_seq c) (S cs) else S cs)"
    by (auto simp: S_def)
  obtain b f where bf: "foldl step (step (bst, fnd) c) cs = (b, f)" by fastforce
  show ?case
  proof (cases "?hit \<and> (\<not> fnd \<or> sl_seq c < bst)")
    case True
    then have "step (bst, fnd) c = (sl_seq c, True)" by (simp add: step_def)
    with bf Cons [where bst = "sl_seq c" and fnd = True] True show ?thesis by (auto simp: S less_le_not_le intro: order.trans)
  next
    case False
    then have "step (bst, fnd) c = (bst, fnd)" by (auto simp: step_def)
    with bf Cons [where bst = bst and fnd = fnd] False show ?thesis by (auto simp: S not_less intro: order.trans)
  qed
qed

lemma dom_content_ring:
  assumes "ring_ok w nx ring"
  shows "dom (cells w ring) = {sl_seq c |c. c \<in> set ring \<and> sl_occupied c \<and> nx \<le> sl_seq c}"
proof (rule set_eqI)
  fix s
  show "s \<in> dom (cells w ring) \<longleftrightarrow> s \<in> {sl_seq c |c. c \<in> set ring \<and> sl_occupied c \<and> nx \<le> sl_seq c}"
  proof
    assume "s \<in> dom (cells w ring)"
    then obtain c where c: "cells w ring s = Some c" by blast
    then have "c \<in> set ring" "sl_occupied c" "sl_seq c = s"
      using nth_mem [OF index_in_range [OF assms, of s]] by (auto simp: cells_Some)
    moreover have "nx \<le> s" using cells_in_window [OF assms c] by (simp add: in_window_def)
    ultimately show "s \<in> {sl_seq c |c. c \<in> set ring \<and> sl_occupied c \<and> nx \<le> sl_seq c}"
      by blast
  next
    assume "s \<in> {sl_seq c |c. c \<in> set ring \<and> sl_occupied c \<and> nx \<le> sl_seq c}"
    then obtain i where "i < length ring" "sl_occupied (ring ! i)" "s = sl_seq (ring ! i)"
      by (auto simp: in_set_conv_nth)
    then have "cells w ring s = Some (ring ! i)" using assms by (simp add: ring_ok_def cells_Some)
    then show "s \<in> dom (cells w ring)" by blast
  qed
qed

lemma smallestBuffered_spec:
  assumes "rs_inv r"
  shows "snd (smallestBuffered r) \<longleftrightarrow> dom (content r) \<noteq> {}"
    and "dom (content r) \<noteq> {} \<Longrightarrow> fst (smallestBuffered r) \<in> dom (content r) \<and>
      (\<forall>s\<in>dom (content r). fst (smallestBuffered r) \<le> s)"
proof -
  have "ring_ok (rs_window r) (rs_next r) (rs_ring r)" using assms by (simp add: rs_inv_def core_def)
  note dom = dom_content_ring [OF this]
  show "snd (smallestBuffered r) \<longleftrightarrow> dom (content r) \<noteq> {}"
    and "dom (content r) \<noteq> {} \<Longrightarrow> fst (smallestBuffered r) \<in> dom (content r) \<and>
      (\<forall>s\<in>dom (content r). fst (smallestBuffered r) \<le> s)"
    using smallest_fold [where nx = "rs_next r" and bst = 0 and fnd = False and cs = "rs_ring r"] unfolding dom smallestBuffered_def
    by (auto split: prod.splits)
qed

lemma buf_pos:
  assumes "rs_inv r"
  shows "0 < rs_buf r \<longleftrightarrow> dom (content r) \<noteq> {}"
proof -
  have ok: "ring_ok (rs_window r) (rs_next r) (rs_ring r)" using assms by (simp add: rs_inv_def core_def)
  have "0 < rs_buf r \<longleftrightarrow> (\<exists>c\<in>set (rs_ring r). sl_occupied c)"
    using assms by (auto simp: rs_inv_def core_def occupied_count_def filter_empty_conv)
  also have "\<dots> \<longleftrightarrow> dom (content r) \<noteq> {}"
  proof -
    have "rs_next r \<le> sl_seq c" if "c \<in> set (rs_ring r)" "sl_occupied c" for c
      using that ok by (auto simp: ring_ok_def in_window_def in_set_conv_nth)
    then show ?thesis unfolding dom_content_ring [OF ok] by blast
  qed
  finally show ?thesis .
qed

text \<open>
  The walk over the held list: it passes only sequences that are no longer buffered and stops at
  the first that is.
\<close>

lemma rs_inv_held:
  assumes "rs_inv r" and "rs_heldPos r' \<le> length (rs_held r')"
    and "rs_window r' = rs_window r" "rs_next r' = rs_next r" "rs_ring r' = rs_ring r" "rs_buf r' = rs_buf r"
    and "\<exists>pre. pendingHeld r = pre @ pendingHeld r' \<and> (\<forall>s\<in>set pre. content r s = None)"
  shows "rs_inv r'"
  using assms unfolding rs_inv_def core_def by (auto simp: domIff)

lemma oldestBufferedObservation_spec:
  assumes "rs_inv r" and "content r (rs_next r) = None" and "dom (content r) \<noteq> {}"
  shows "\<exists>s c r'. oldestBufferedObservation r = Some (Some (sl_observedAt c), r') \<and>
     content r s = Some c \<and> view r' = view r \<and> rs_buf r' = rs_buf r \<and> rs_inv r' \<and>
     static r' = static r \<and> rs_holds r' = rs_holds r \<and>
     (rs_waiting r', rs_deadline r', rs_armedAt r') = (rs_waiting r, rs_deadline r, rs_armedAt r) \<and>
     (\<exists>pre rest. pendingHeld r = pre @ pendingHeld r' \<and> pendingHeld r' = s # rest \<and>
        (\<forall>x\<in>set pre. content r x = None))"
  using assms
proof (induction r rule: oldestBufferedObservation.induct)
  case (1 r)
  obtain x where "x \<in> dom (content r)" using "1.prems"(3) by blast
  then have "x \<in> set (pendingHeld r)"
    using "1.prems"(1,2) unfolding rs_inv_def core_def by (metis domIff)
  then have pos: "rs_heldPos r < length (rs_held r)" by (metis drop_all empty_iff list.set(1) not_less)
  define seq where "seq = rs_held r ! rs_heldPos r"
  define r1 where "r1 = r\<lparr>rs_holdSlotVisits := rs_holdSlotVisits r + 1\<rparr>"
  have pend: "pendingHeld r = seq # drop (Suc (rs_heldPos r)) (rs_held r)"
    using Cons_nth_drop_Suc [OF pos] by (simp add: seq_def)
  have inv1: "rs_inv r1" using "1.prems"(1) by (simp add: rs_inv_def r1_def)
  have cell: "cell_at r1 seq = Some (rs_ring r ! idx r seq)"
    using inv_cell_at [OF inv1, of seq] by (simp add: r1_def idx_def)
  show ?case
  proof (cases "content r seq")
    case (Some c)
    then have hit: "c = rs_ring r ! idx r seq" "sl_occupied c" "sl_seq c = seq" "seq \<ge> rs_next r1"
      using inv_in_window [OF "1.prems"(1) Some] by (auto simp: cells_Some idx_def in_window_def r1_def)
    define r2 where "r2 = (if rs_heldPos r1 > length (rs_held r1) div 2
      then r1\<lparr>rs_held := drop (rs_heldPos r1) (rs_held r1), rs_heldPos := 0\<rparr> else r1)"
    have res: "oldestBufferedObservation r = Some (Some (sl_observedAt c), r2)"
      using pos cell hit
      by (subst oldestBufferedObservation.simps) (simp add: seq_def [symmetric] r1_def [symmetric] r2_def Let_def)
    have pend2: "pendingHeld r2 = pendingHeld r" by (simp add: r2_def r1_def)
    then have "rs_inv r2"
      using "1.prems"(1) by (intro rs_inv_held [of r r2]) (auto simp: r2_def r1_def rs_inv_def)
    with res Some pend pend2 show ?thesis
      by (intro exI [of _ seq] exI [of _ c] exI [of _ r2]) (auto simp: r2_def r1_def static_def)
  next
    case None
    let ?r = "r1\<lparr>rs_heldPos := rs_heldPos r1 + 1\<rparr>"
    have miss: "\<not> (sl_occupied (rs_ring r ! idx r seq) \<and> sl_seq (rs_ring r ! idx r seq) = seq \<and> seq \<ge> rs_next r1)"
      using None head_content [of r seq] by auto
    have res: "oldestBufferedObservation r = oldestBufferedObservation ?r"
      using pos cell miss
      by (subst oldestBufferedObservation.simps) (auto simp: seq_def [symmetric] r1_def [symmetric] Let_def)
    have pend': "pendingHeld r = seq # pendingHeld ?r" using pend by (simp add: r1_def)
    have "rs_inv ?r"
      using "1.prems"(1) pend' None pos by (intro rs_inv_held [of r ?r]) (auto simp: r1_def rs_inv_def)
    from "1.IH" [OF pos seq_def r1_def cell _ this] miss "1.prems"
    obtain s c r' where IH: "oldestBufferedObservation ?r = Some (Some (sl_observedAt c), r')"
      "content ?r s = Some c" "view r' = view ?r" "rs_buf r' = rs_buf ?r" "rs_inv r'"
      "static r' = static ?r" "rs_holds r' = rs_holds ?r"
      "(rs_waiting r', rs_deadline r', rs_armedAt r') = (rs_waiting ?r, rs_deadline ?r, rs_armedAt ?r)"
      "\<exists>pre rest. pendingHeld ?r = pre @ pendingHeld r' \<and> pendingHeld r' = s # rest \<and>
        (\<forall>x\<in>set pre. content ?r x = None)"
      by (auto simp: r1_def)
    then obtain pre rest where "pendingHeld ?r = pre @ pendingHeld r'" "pendingHeld r' = s # rest"
      "\<forall>x\<in>set pre. content ?r x = None" by blast
    then have "pendingHeld r = (seq # pre) @ pendingHeld r' \<and> pendingHeld r' = s # rest \<and>
        (\<forall>x\<in>set (seq # pre). content r x = None)"
      using pend' None by (simp add: r1_def)
    with IH(1-8) res show ?thesis
      by (intro exI [of _ s] exI [of _ c] exI [of _ r']) (auto simp: r1_def static_def)
  qed
qed

end
