(* ===== verification/Reseq_Hold.thy ===== *)
theory Reseq_Hold
  imports Reseq_Ring
begin

text \<open>
  The timing of the resequencer's holds: arming, expiring and placing a frame keep the invariant
  that bounds how long a buffered frame waits.
\<close>

section \<open>Holding and expiring\<close>

text \<open>
  Observation times: nothing buffered was observed after \<open>t\<close>, the held list is in order of
  observation, and an armed hold ends within the construction timeout of every buffered frame's
  observation.
\<close>

definition observed_order :: "'p buffer \<Rightarrow> u64 list \<Rightarrow> bool" where
  "observed_order cont held \<longleftrightarrow>
     sorted_wrt (\<lambda>a b. \<forall>ca cb. cont a = Some ca \<longrightarrow> cont b = Some cb \<longrightarrow>
       sl_observedAt ca \<le> sl_observedAt cb) held"

definition timed :: "instant \<Rightarrow> 'p resequencer \<Rightarrow> bool" where
  "timed t r \<longleftrightarrow>
     (\<forall>s c. content r s = Some c \<longrightarrow> sl_observedAt c \<le> t) \<and>
     observed_order (content r) (pendingHeld r) \<and>
     (rs_waiting r \<longrightarrow> (\<forall>s c. content r s = Some c \<longrightarrow> rs_deadline r \<le> sl_observedAt c + rs_timeout r)) \<and>
     effectiveHoldLocked r \<le> rs_timeout r"

lemma timedI:
  assumes "\<And>s c. content r s = Some c \<Longrightarrow> sl_observedAt c \<le> t"
    and "observed_order (content r) (pendingHeld r)"
    and "\<And>s c. rs_waiting r \<Longrightarrow> content r s = Some c \<Longrightarrow> rs_deadline r \<le> sl_observedAt c + rs_timeout r"
    and "effectiveHoldLocked r \<le> rs_timeout r"
  shows "timed t r"
  using assms by (simp add: timed_def)

lemma timedD:
  assumes "timed t r"
  shows "content r s = Some c \<Longrightarrow> sl_observedAt c \<le> t"
    and "observed_order (content r) (pendingHeld r)"
    and "rs_waiting r \<Longrightarrow> content r s = Some c \<Longrightarrow> rs_deadline r \<le> sl_observedAt c + rs_timeout r"
    and "effectiveHoldLocked r \<le> rs_timeout r"
  using assms by (simp_all add: timed_def)

lemma static_eqD:
  assumes "static r' = static r"
  shows "rs_window r' = rs_window r" "rs_timeout r' = rs_timeout r" "rs_started r' = rs_started r"
    "rs_readyPos r' = rs_readyPos r" "rs_holdBound r' = rs_holdBound r" "rs_closed r' = rs_closed r"
    "rs_resyncSeqs r' = rs_resyncSeqs r" "rs_resyncLo r' = rs_resyncLo r" "rs_resyncHi r' = rs_resyncHi r"
    "rs_highWater r' = rs_highWater r" "rs_resyncs r' = rs_resyncs r" "rs_rebaselines r' = rs_rebaselines r"
  using assms by (simp_all add: static_def)

lemma hold_fields_eqD:
  assumes "hold_fields r' = hold_fields r"
  shows "rs_held r' = rs_held r" "rs_heldPos r' = rs_heldPos r" "rs_waiting r' = rs_waiting r"
    "rs_deadline r' = rs_deadline r"
  using assms by (simp_all add: hold_fields_def)

lemma observed_order_shrink:
  assumes "observed_order cont held" and "\<And>s c. cont' s = Some c \<Longrightarrow> cont s = Some c"
  shows "observed_order cont' held"
  using assms(1) unfolding observed_order_def
  by (rule sorted_wrt_mono_rel [rotated]) (blast dest: assms(2))

lemma observed_order_insert:
  assumes "observed_order cont held" and "s \<notin> set held"
  shows "observed_order (cont(s \<mapsto> c)) held"
  unfolding observed_order_def
proof (rule sorted_wrt_mono_rel [OF _ assms(1) [unfolded observed_order_def]])
  fix a b assume "a \<in> set held" "b \<in> set held"
    and "\<forall>ca cb. cont a = Some ca \<longrightarrow> cont b = Some cb \<longrightarrow> sl_observedAt ca \<le> sl_observedAt cb"
  with assms(2) show "\<forall>ca cb. (cont(s \<mapsto> c)) a = Some ca \<longrightarrow> (cont(s \<mapsto> c)) b = Some cb \<longrightarrow>
      sl_observedAt ca \<le> sl_observedAt cb"
    by (cases "a = s"; cases "b = s") auto
qed

lemma observed_order_snoc:
  assumes "observed_order cont held" and "\<And>a x y. cont a = Some x \<Longrightarrow> cont s = Some y \<Longrightarrow> sl_observedAt x \<le> sl_observedAt y"
  shows "observed_order cont (held @ [s])"
  using assms by (simp add: observed_order_def sorted_wrt_append)

lemma timed_shrink:
  assumes "timed t r" and sub: "\<And>s c. content r' s = Some c \<Longrightarrow> content r s = Some c"
    and "hold_fields r' = hold_fields r" and "static r' = static r"
  shows "timed t r'"
proof -
  note same = hold_fields_eqD [OF assms(3)] static_eqD(2,5) [OF assms(4)]
  have "observed_order (content r') (pendingHeld r)"
    by (rule observed_order_shrink [of "content r"]) (use assms(1) sub in \<open>auto simp: timed_def\<close>)
  moreover have "sl_observedAt c \<le> t" if "content r' s = Some c" for s c
    using assms(1) sub [OF that] by (simp add: timed_def)
  moreover have "rs_deadline r \<le> sl_observedAt c + rs_timeout r"
    if "rs_waiting r" and "content r' s = Some c" for s c
    using assms(1) that(1) sub [OF that(2)] by (simp add: timed_def)
  ultimately show ?thesis
    using assms(1) by (auto simp: timed_def effectiveHoldLocked_def same split: if_splits)
qed

lemma timed_later: "timed t r \<Longrightarrow> t \<le> t' \<Longrightarrow> timed t' r"
  by (force simp: timed_def)

lemma timed_moves:
  assumes "rs_inv r" and "moves (view r) (view r')" and "timed t r"
    and "hold_fields r' = hold_fields r" and "static r' = static r"
  shows "timed t r'"
  by (rule timed_shrink [OF assms(3) _ assms(4,5)])
    (use content_moves(2) [OF assms(1,2)] in \<open>auto split: if_splits\<close>)

lemma endHoldLocked_simps [simp]:
  "rs_window (endHoldLocked r now) = rs_window r" "rs_next (endHoldLocked r now) = rs_next r"
  "rs_ring (endHoldLocked r now) = rs_ring r" "rs_ready (endHoldLocked r now) = rs_ready r"
  "rs_buf (endHoldLocked r now) = rs_buf r" "static (endHoldLocked r now) = static r"
  "rs_held (endHoldLocked r now) = rs_held r" "rs_heldPos (endHoldLocked r now) = rs_heldPos r"
  "rs_waiting (endHoldLocked r now) = False"
  by (simp_all add: endHoldLocked_def Let_def notifyLocked_def static_def)

lemma endHoldLocked_keeps:
  "rs_inv r \<Longrightarrow> rs_inv (endHoldLocked r now)"
  "timed t r \<Longrightarrow> timed t (endHoldLocked r now)"
  using static_eqD [of "endHoldLocked r now" r]
  by (auto simp: rs_inv_def timed_def effectiveHoldLocked_def)

lemma arm_spec:
  assumes inv: "rs_inv r" and gap: "content r (rs_next r) = None" and timed: "timed t r"
  shows "\<exists>r'. arm r now = Some r' \<and> rs_inv r' \<and> timed t r' \<and> view r' = view r \<and>
    rs_buf r' = rs_buf r \<and> static r' = static r \<and> (rs_waiting r' \<longleftrightarrow> 0 < rs_buf r)"
proof -
  have cell: "cell_at r (rs_next r) = Some (rs_ring r ! idx r (rs_next r))" by (rule inv_cell_at [OF inv])
  have head: "\<not> (sl_occupied (rs_ring r ! idx r (rs_next r)) \<and>
      sl_seq (rs_ring r ! idx r (rs_next r)) = rs_next r)"
    using gap head_content [of r "rs_next r"] by simp
  consider (empty) "\<not> 0 < rs_buf r" | (armed) "0 < rs_buf r" "rs_waiting r"
    | (fresh) "0 < rs_buf r" "\<not> rs_waiting r" by blast
  then show ?thesis
  proof cases
    case empty
    then show ?thesis
      using cell head endHoldLocked_keeps inv timed by (auto simp: arm_def)
  next
    case armed
    then show ?thesis using cell head inv timed by (auto simp: arm_def)
  next
    case fresh
    let ?r = "r\<lparr>rs_waiting := True\<rparr>"
    have "rs_inv ?r" "content ?r (rs_next ?r) = None" "dom (content ?r) \<noteq> {}"
      using inv gap fresh buf_pos [OF inv] by (simp_all add: rs_inv_def)
    from oldestBufferedObservation_spec [OF this] obtain s c r1 pre rest where
      old: "oldestBufferedObservation ?r = Some (Some (sl_observedAt c), r1)" "content r s = Some c"
      "view r1 = view r" "rs_buf r1 = rs_buf r" "rs_inv r1" "static r1 = static r" "rs_waiting r1"
      "pendingHeld r = pre @ pendingHeld r1" "pendingHeld r1 = s # rest"
      "\<forall>x\<in>set pre. content r x = None"
      by (auto simp: static_def)
    note st = static_eqD [OF old(6)]
    let ?r' = "notifyLocked (r1\<lparr>rs_deadline := sl_observedAt c + effectiveHoldLocked ?r, rs_armedAt := now,
        rs_armedWindow := effectiveHoldLocked ?r, rs_holds := rs_holds r1 + 1\<rparr>)"
    have "arm r now = Some ?r'" using fresh cell head old(1) by (auto simp: arm_def Let_def)
    moreover have "rs_inv ?r'" using old(5) by (simp add: rs_inv_def notifyLocked_def)
    moreover have "timed t ?r'"
    proof -
      have first: "sl_observedAt c \<le> sl_observedAt d" if "content r x = Some d" for x d
      proof -
        have "x \<in> set (s # rest)"
          using that gap inv old(8,9,10) unfolding rs_inv_def core_def
          by (metis UnE domI domIff set_append)
        moreover have "observed_order (content r) (s # rest)"
          using timed old(8,9) by (simp add: timed_def observed_order_def sorted_wrt_append)
        ultimately show ?thesis using that old(2) by (auto simp: observed_order_def)
      qed
      have hold: "effectiveHoldLocked ?r \<le> rs_timeout r"
        using timed by (auto simp: timed_def effectiveHoldLocked_def split: if_splits)
      then have "sl_observedAt c + effectiveHoldLocked ?r \<le> sl_observedAt d + rs_timeout r"
        if "content r x = Some d" for x d
        using first [OF that] by simp
      moreover have "observed_order (content r) (pendingHeld r1)"
        using timed old(8) by (simp add: timed_def observed_order_def sorted_wrt_append)
      moreover have "content ?r' = content r" "pendingHeld ?r' = pendingHeld r1"
        "rs_deadline ?r' = sl_observedAt c + effectiveHoldLocked ?r" "rs_timeout ?r' = rs_timeout r"
        "effectiveHoldLocked ?r' = effectiveHoldLocked ?r"
        using old(3) st(2,5) by (simp_all add: notifyLocked_def effectiveHoldLocked_def)
      ultimately show ?thesis
        using timed hold unfolding timed_def by metis
    qed
    ultimately show ?thesis
      using old(3,4,6,7) fresh by (auto simp: notifyLocked_def static_def)
  qed
qed

text \<open>
  Between operations the head of the window is a gap and a hold is armed exactly when something
  is buffered behind it. Closing disarms the hold for good, so a closed instance keeps only one
  direction.
\<close>

definition stable :: "'p resequencer \<Rightarrow> bool" where
  "stable r \<longleftrightarrow> content r (rs_next r) = None \<and> (rs_waiting r \<longrightarrow> 0 < rs_buf r) \<and>
     (\<not> rs_closed r \<longrightarrow> 0 < rs_buf r \<longrightarrow> rs_waiting r)"

text \<open>One turn of the expiry loop releases at least the smallest buffered frame.\<close>

lemma expire_turn:
  assumes inv: "rs_inv r" and some: "dom (content r) \<noteq> {}"
  defines "r1 \<equiv> r\<lparr>rs_deadlineWakeups := rs_deadlineWakeups r + 1\<rparr>"
  defines "m \<equiv> fst (smallestBuffered r1)"
  defines "r2 \<equiv> (if rs_next r1 < m
    then r1\<lparr>rs_skipped := rs_skipped r1 + (m - rs_next r1), rs_next := m\<rparr> else r1)"
  shows "\<exists>r3. drain r2 = Some r3 \<and> rs_inv r3 \<and> moves (view r) (view r3) \<and>
    content r3 (rs_next r3) = None \<and> static r3 = static r \<and> hold_fields r3 = hold_fields r \<and>
    dom (content r3) \<subset> dom (content r)"
proof -
  have inv1: "rs_inv r1" using inv by (simp add: rs_inv_def r1_def)
  have m: "m \<in> dom (content r)" "\<And>s. s \<in> dom (content r) \<Longrightarrow> m \<le> s"
    using smallestBuffered_spec(2) [OF inv1] some by (auto simp: m_def r1_def)
  have le: "rs_next r \<le> m" using m(1) inv_in_window [OF inv] by (auto simp: in_window_def)
  have gap: "content r s = None" if "s < m" for s
    using m(2) [of s] that by (metis domIff not_less)
  have r2: "r2 = r1\<lparr>rs_skipped := rs_skipped r2, rs_next := m\<rparr>"
    using le by (cases "rs_next r = m") (auto simp: r2_def r1_def)
  have "view r1 = view r" by (simp add: r1_def)
  then have inv2: "rs_inv r2" and mv2: "moves (view r) (view r2)"
    using inv_jump [OF inv1, of m "rs_skipped r2", folded r2] le gap by (simp_all add: r1_def)
  have "static r2 = static r" "hold_fields r2 = hold_fields r" and next2: "rs_next r2 = m"
    and cont2: "content r2 = content r"
    by (subst r2; simp add: r1_def field_simps')+
  moreover obtain r3 where r3: "drain r2 = Some r3" "rs_inv r3" "moves (view r2) (view r3)"
    "content r3 (rs_next r3) = None" "static r3 = static r2" "hold_fields r3 = hold_fields r2"
    using drain_moves [OF inv2] by blast
  moreover have "dom (content r3) \<subset> dom (content r)"
  proof
    show "dom (content r3) \<subseteq> dom (content r)"
      using content_moves(2) [OF inv2 r3(3)] cont2 by (auto split: if_splits)
    have "content r3 m = None"
    proof (cases "rs_next r3 = m")
      case True
      then show ?thesis using r3(4) by simp
    next
      case False
      then show ?thesis
        using content_moves(1) [OF inv2 r3(3)] content_moves(2) [OF inv2 r3(3), of m] next2 by auto
    qed
    with m(1) show "dom (content r3) \<noteq> dom (content r)" by blast
  qed
  ultimately show ?thesis using moves_trans [OF mv2 r3(3)] by auto
qed

lemma expire_spec:
  assumes "rs_inv r" and "timed t r" and "stable r"
  shows "\<exists>r'. expire r now = Some r' \<and> rs_inv r' \<and> timed t r' \<and> stable r' \<and>
    moves (view r) (view r') \<and> static r' = static r \<and> (rs_waiting r' \<longrightarrow> now < rs_deadline r')"
  using assms
proof (induction "card (dom (content r))" arbitrary: r rule: less_induct)
  case less
  show ?case
  proof (cases "rs_waiting r \<and> \<not> now < rs_deadline r")
    case False
    then have "expire r now = Some r" by (subst expire.simps) auto
    with less.prems False show ?thesis by (auto intro: moves.stay)
  next
    case True
    then have some: "dom (content r) \<noteq> {}"
      using less.prems buf_pos by (auto simp: stable_def)
    let ?r1 = "r\<lparr>rs_deadlineWakeups := rs_deadlineWakeups r + 1\<rparr>"
    have "snd (smallestBuffered ?r1)"
      using smallestBuffered_spec(1) [of ?r1] some less.prems(1) by (simp add: rs_inv_def)
    then have unroll: "expire r now =
        (let m = fst (smallestBuffered ?r1);
             r2 = (if rs_next ?r1 < m
               then ?r1\<lparr>rs_skipped := rs_skipped ?r1 + (m - rs_next ?r1), rs_next := m\<rparr> else ?r1)
         in do {r3 \<leftarrow> drain r2; r4 \<leftarrow> arm (endHoldLocked r3 now) now; expire r4 now})"
      using True by (subst expire.simps) (simp add: Let_def)
    obtain r3 where r3: "drain (let m = fst (smallestBuffered ?r1) in if rs_next ?r1 < m
        then ?r1\<lparr>rs_skipped := rs_skipped ?r1 + (m - rs_next ?r1), rs_next := m\<rparr> else ?r1) = Some r3"
      "rs_inv r3" "moves (view r) (view r3)" "content r3 (rs_next r3) = None" "static r3 = static r"
      "hold_fields r3 = hold_fields r" "dom (content r3) \<subset> dom (content r)"
      using expire_turn [OF less.prems(1) some] by (auto simp: Let_def)
    have "timed t r3" by (rule timed_moves [OF less.prems(1) r3(3) less.prems(2) r3(6,5)])
    from arm_spec [of "endHoldLocked r3 now" t now] endHoldLocked_keeps(1) [OF r3(2)]
      endHoldLocked_keeps(2) [OF this] r3(4)
    obtain r4 where r4: "arm (endHoldLocked r3 now) now = Some r4" "rs_inv r4" "timed t r4"
      "view r4 = view r3" "static r4 = static r3" "rs_waiting r4 \<longleftrightarrow> 0 < rs_buf r4"
      by auto
    have "stable r4" using r3(4) r4(4,6) by (simp add: stable_def)
    moreover have "card (dom (content r4)) < card (dom (content r))"
      using r3(7) r4(4) psubset_card_mono [of "dom (content r)" "dom (content r4)"] by simp
    ultimately obtain r' where r': "expire r4 now = Some r'" "rs_inv r'" "timed t r'" "stable r'"
      "moves (view r4) (view r')" "static r' = static r4" "rs_waiting r' \<longrightarrow> now < rs_deadline r'"
      using less.hyps [of r4] r4(2,3) by blast
    have "expire r now = Some r'" using unroll r3(1) r4(1) r'(1) by (simp add: Let_def)
    then show ?thesis
      using r' r4(4,5) r3(3,5) moves_trans [of "view r" "view r3" "view r'"] by auto
  qed
qed

section \<open>The operations\<close>

definition base_fields :: "'p resequencer \<Rightarrow> u64 \<times> duration \<times> bool \<times> nat \<times> duration \<times> bool \<times> u64" where
  "base_fields r = (rs_window r, rs_timeout r, rs_started r, rs_readyPos r, rs_holdBound r, rs_closed r,
     rs_rebaselines r)"

lemma base_fields_static: "static r' = static r \<Longrightarrow> base_fields r' = base_fields r"
  by (simp add: static_def base_fields_def)

lemma base_fieldsD:
  assumes "base_fields r' = base_fields r"
  shows "rs_window r' = rs_window r" "rs_timeout r' = rs_timeout r" "rs_started r' = rs_started r"
    "rs_readyPos r' = rs_readyPos r" "rs_holdBound r' = rs_holdBound r" "rs_closed r' = rs_closed r"
    "rs_rebaselines r' = rs_rebaselines r"
  using assms by (simp_all add: base_fields_def)

lemma buf_le_window: "rs_inv r \<Longrightarrow> rs_buf r \<le> uint (rs_window r)"
  using of_nat_mono [OF length_filter_le [of sl_occupied "rs_ring r"], where 'a = int]
  by (simp add: rs_inv_def core_def ring_ok_def occupied_count_def)

subsection \<open>Placing a frame\<close>

definition new_cell :: "u64 \<Rightarrow> 'p option \<Rightarrow> addr_port \<Rightarrow> instant \<Rightarrow> 'p slot" where
  "new_cell seq payload src now =
     \<lparr>sl_seq = seq, sl_src = src, sl_payload = payload, sl_observedAt = now, sl_occupied = True\<rparr>"

lemma new_cell_simps [simp]:
  "sl_seq (new_cell seq payload src now) = seq" "sl_src (new_cell seq payload src now) = src"
  "sl_payload (new_cell seq payload src now) = payload"
  "sl_observedAt (new_cell seq payload src now) = now" "sl_occupied (new_cell seq payload src now)"
  by (simp_all add: new_cell_def)

lemma place_spec:
  fixes r :: "'p resequencer" and payload :: "'p option" and src :: addr_port
  assumes inv: "rs_inv r" and timed: "timed now r" and win: "in_window (rs_window r) (rs_next r) seq"
    and free: "content r seq = None" and waiting: "rs_waiting r \<longrightarrow> dom (content r) \<noteq> {}"
  defines "r' \<equiv> place r seq payload src now" and "cell \<equiv> new_cell seq payload src now"
  shows "rs_inv r'" and "timed now r'" and "view r' = (rs_next r, (content r)(seq \<mapsto> cell), rs_ready r)"
    and "static r' = static (r\<lparr>rs_highWater := max (rs_highWater r) (rs_buf r + 1)\<rparr>)"
    and "rs_buf r' = rs_buf r + 1"
proof -
  have c: "core (rs_window r) (rs_next r) (rs_ring r) (rs_buf r) (pendingHeld r)"
    and pos: "rs_heldPos r \<le> length (rs_held r)"
    using inv by (simp_all add: rs_inv_def)
  note pl = core_place [OF c win free, of cell, unfolded cell_def, simplified, folded cell_def]
  have cell: "sl_observedAt cell = now" by (simp add: cell_def)
  define r1 where "r1 = r\<lparr>rs_ring := (rs_ring r)[idx r seq := cell], rs_buf := rs_buf r + 1,
    rs_held := if seq \<noteq> rs_next r then rs_held r @ [seq] else rs_held r,
    rs_highWater := max (rs_highWater r) (rs_buf r + 1)\<rparr>"
  have r': "r' = (if rs_waiting r \<and> seq = rs_next r
      then endHoldLocked (r1\<lparr>rs_gapFills := rs_gapFills r1 + 1\<rparr>) now else r1)"
    by (auto simp: r'_def place_def r1_def cell_def new_cell_def Let_def)
  have pend: "pendingHeld r1 = (if seq \<noteq> rs_next r then pendingHeld r @ [seq] else pendingHeld r)"
    using pos by (simp add: r1_def)
  have cont: "content r1 = (content r)(seq \<mapsto> cell)" using pl(2) by (simp add: r1_def idx_def)
  have inv1: "rs_inv r1" using pl(1) pos pend by (auto simp: rs_inv_def r1_def idx_def)
  have fresh: "seq \<notin> set (pendingHeld r)"
    using c free win by (auto simp: core_def in_window_def)
  have obs: "sl_observedAt x \<le> now" if "content r1 s = Some x" for s x
    using that timedD(1) [OF timed, of s x] cell by (cases "s = seq") (auto simp: cont)
  have "observed_order (content r1) (pendingHeld r)"
    unfolding cont by (rule observed_order_insert [OF timedD(2) [OF timed] fresh])
  moreover have "observed_order (content r1) (pendingHeld r @ [seq])"
    by (rule observed_order_snoc [OF calculation]) (use obs cell in \<open>auto simp: cont\<close>)
  ultimately have order: "observed_order (content r1) (pendingHeld r1)"
    by (simp add: pend)
  have dl: "rs_deadline r \<le> now + rs_timeout r" if w: "rs_waiting r"
  proof -
    obtain s x where "content r s = Some x" using w waiting by blast
    then have "rs_deadline r \<le> sl_observedAt x + rs_timeout r" "sl_observedAt x \<le> now"
      using timed w by (auto simp: timed_def)
    then show ?thesis by simp
  qed
  have "timed now r1"
  proof (rule timedI [OF obs order])
    fix s x assume "rs_waiting r1" and x: "content r1 s = Some x"
    then have w: "rs_waiting r" by (simp add: r1_def)
    have "rs_deadline r1 = rs_deadline r" "rs_timeout r1 = rs_timeout r" by (simp_all add: r1_def)
    then show "rs_deadline r1 \<le> sl_observedAt x + rs_timeout r1"
      using x timedD(3) [OF timed w, of s x] dl [OF w] cell by (cases "s = seq") (auto simp: cont)
  next
    have "effectiveHoldLocked r1 = effectiveHoldLocked r" "rs_timeout r1 = rs_timeout r"
      by (simp_all add: r1_def effectiveHoldLocked_def)
    then show "effectiveHoldLocked r1 \<le> rs_timeout r1" using timedD(4) [OF timed] by simp
  qed
  moreover have "timed now (r1\<lparr>rs_gapFills := rs_gapFills r1 + 1\<rparr>)"
    by (rule timed_shrink [OF calculation]) (simp_all add: field_simps')
  ultimately show "timed now r'"
    unfolding r' by (auto intro: endHoldLocked_keeps)
  have "rs_inv (r1\<lparr>rs_gapFills := rs_gapFills r1 + 1\<rparr>)" using inv1 by (simp add: rs_inv_def)
  then show "rs_inv r'" using inv1 unfolding r' by (simp add: endHoldLocked_keeps)
  show "view r' = (rs_next r, (content r)(seq \<mapsto> cell), rs_ready r)"
  proof -
    have "view r' = view r1" unfolding r' by simp
    moreover have "rs_next r1 = rs_next r" "rs_ready r1 = rs_ready r" by (simp_all add: r1_def)
    ultimately show ?thesis by (simp only: cont)
  qed
  show "static r' = static (r\<lparr>rs_highWater := max (rs_highWater r) (rs_buf r + 1)\<rparr>)"
    and "rs_buf r' = rs_buf r + 1"
  proof -
    have "static (r1\<lparr>rs_gapFills := rs_gapFills r1 + 1\<rparr>) = static r1" by (simp add: static_def)
    then have "static r' = static r1" unfolding r' by simp
    then show "static r' = static (r\<lparr>rs_highWater := max (rs_highWater r) (rs_buf r + 1)\<rparr>)"
      by (simp add: r1_def static_def)
    show "rs_buf r' = rs_buf r + 1" unfolding r' by (simp add: r1_def)
  qed
qed

end
