(* ===== verification/Reseq_Ops.thy ===== *)
theory Reseq_Ops
  imports Reseq_Hold
begin

text \<open>
  Every operation of the resequencer returns and keeps the invariant; what each does to the
  abstract view.
\<close>

section \<open>Admission\<close>

text \<open>Changes of counters and of the discontinuity run alone.\<close>

definition same_core :: "'p resequencer \<Rightarrow> 'p resequencer \<Rightarrow> bool" where
  "same_core r r' \<longleftrightarrow>
     rs_next r' = rs_next r \<and> rs_ring r' = rs_ring r \<and> rs_buf r' = rs_buf r \<and> rs_ready r' = rs_ready r \<and>
     hold_fields r' = hold_fields r \<and> base_fields r' = base_fields r \<and> rs_highWater r' = rs_highWater r"

lemma same_core_keeps:
  assumes "same_core r r'"
  shows "rs_inv r' \<longleftrightarrow> rs_inv r" and "timed t r' \<longleftrightarrow> timed t r" and "stable r' \<longleftrightarrow> stable r"
    and "view r' = view r" and "rs_waiting r' = rs_waiting r" and "rs_buf r' = rs_buf r"
    and "base_fields r' = base_fields r" and "rs_highWater r' = rs_highWater r"
    and "rs_deadline r' = rs_deadline r"
proof -
  have eqs: "rs_next r' = rs_next r" "rs_ring r' = rs_ring r" "rs_buf r' = rs_buf r"
    "hold_fields r' = hold_fields r" "base_fields r' = base_fields r"
    using assms by (simp_all add: same_core_def)
  note eqs' = eqs(1-3) hold_fields_eqD [OF eqs(4)] base_fieldsD [OF eqs(5)]
  show "rs_inv r' \<longleftrightarrow> rs_inv r" and "timed t r' \<longleftrightarrow> timed t r" and "stable r' \<longleftrightarrow> stable r"
    and "view r' = view r" and "rs_waiting r' = rs_waiting r" and "rs_buf r' = rs_buf r"
    and "base_fields r' = base_fields r" and "rs_highWater r' = rs_highWater r"
    and "rs_deadline r' = rs_deadline r"
    using assms by (simp_all add: rs_inv_def timed_def stable_def effectiveHoldLocked_def eqs' same_core_def)
qed

lemma same_core_updates [simp]:
  "same_core r r" "same_core r (resyncReset r)"
  "same_core r (r'\<lparr>rs_dropLate := a\<rparr>) \<longleftrightarrow> same_core r r'"
  "same_core r (r'\<lparr>rs_dropSuspect := a\<rparr>) \<longleftrightarrow> same_core r r'"
  "same_core r (r'\<lparr>rs_dropDup := a\<rparr>) \<longleftrightarrow> same_core r r'"
  "same_core r (r'\<lparr>rs_resyncLo := a\<rparr>) \<longleftrightarrow> same_core r r'"
  "same_core r (r'\<lparr>rs_resyncHi := a\<rparr>) \<longleftrightarrow> same_core r r'"
  "same_core r (r'\<lparr>rs_resyncSeqs := ss\<rparr>) \<longleftrightarrow> same_core r r'"
  by (simp_all add: same_core_def hold_fields_def base_fields_def resyncReset_def)

definition guard_ok :: "'p resequencer \<Rightarrow> bool" where
  "guard_ok r \<longleftrightarrow> length (rs_resyncSeqs r) < resyncCorroborate"

lemma endHoldLocked_counts [simp]:
  "rs_highWater (endHoldLocked r now) = rs_highWater r" "rs_resyncs (endHoldLocked r now) = rs_resyncs r"
  "rs_resyncSeqs (endHoldLocked r now) = rs_resyncSeqs r" "rs_rebaselines (endHoldLocked r now) = rs_rebaselines r"
  "base_fields (endHoldLocked r now) = base_fields r"
  using static_eqD(7,10,11,12) [of "endHoldLocked r now" r] base_fields_static [of "endHoldLocked r now" r]
  by simp_all

lemma effectiveHold_base:
  "base_fields r' = base_fields r \<Longrightarrow> effectiveHoldLocked r' = effectiveHoldLocked r"
  by (simp add: effectiveHoldLocked_def base_fields_def)

lemma rs_inv_ring: "rs_inv r \<Longrightarrow> rs_window r \<noteq> 0 \<and> length (rs_ring r) = unat (rs_window r)"
  by (simp add: rs_inv_def core_def ring_ok_def)

lemma timed_empty:
  "content r = Map.empty \<Longrightarrow> pendingHeld r = [] \<Longrightarrow> effectiveHoldLocked r \<le> rs_timeout r \<Longrightarrow> timed t r"
  by (simp add: timed_def observed_order_def)

lemma resync_spec:
  fixes r :: "'p resequencer" and base :: u64 and now :: instant
  assumes "rs_inv r" and "timed t r"
  defines "r' \<equiv> resync r base now"
  shows "rs_inv r'" and "timed t' r'" and "content r' = Map.empty" and "rs_next r' = base"
    and "rs_ready r' = rs_ready r" and "\<not> rs_waiting r'" and "rs_buf r' = 0"
    and "base_fields r' = base_fields r" and "rs_highWater r' = rs_highWater r"
    and "rs_resyncs r' = rs_resyncs r + 1" and "guard_ok r'"
proof -
  define r0 where "r0 = r\<lparr>rs_ring := map (\<lambda>_. empty_slot) (rs_ring r), rs_buf := 0, rs_held := [],
    rs_heldPos := 0, rs_next := base\<rparr>"
  let ?e = "endHoldLocked r0 now"
  have r': "r' = (resyncReset ?e)\<lparr>rs_resyncs := rs_resyncs (resyncReset ?e) + 1\<rparr>"
    by (simp add: r'_def resync_def r0_def Let_def)
  have clear: "core (rs_window r) base (map (\<lambda>_. empty_slot) (rs_ring r)) 0 []"
    "cells (rs_window r) (map (\<lambda>_. empty_slot :: 'p slot) (rs_ring r)) = Map.empty"
    using core_clear rs_inv_ring [OF assms(1)] by blast+
  show "rs_inv r'" using clear(1) by (simp add: r' rs_inv_def resyncReset_def r0_def)
  show cont: "content r' = Map.empty" using clear(2) by (simp add: r' resyncReset_def r0_def)
  show base: "base_fields r' = base_fields r"
  proof -
    have "base_fields r' = base_fields ?e" by (simp add: r' base_fields_def resyncReset_def)
    also have "\<dots> = base_fields r" by (simp only: endHoldLocked_counts) (simp add: r0_def base_fields_def)
    finally show ?thesis .
  qed
  show "timed t' r'"
  proof (rule timed_empty [OF cont])
    show "pendingHeld r' = []" by (simp add: r' resyncReset_def r0_def)
    show "effectiveHoldLocked r' \<le> rs_timeout r'"
      using timedD(4) [OF assms(2)] base_fieldsD(2) [OF base] effectiveHold_base [OF base] by simp
  qed
  show "rs_next r' = base" and "rs_ready r' = rs_ready r" and "\<not> rs_waiting r'" and "rs_buf r' = 0"
    and "rs_highWater r' = rs_highWater r" and "rs_resyncs r' = rs_resyncs r + 1" and "guard_ok r'"
    by (simp_all add: r' resyncReset_def r0_def guard_ok_def resyncCorroborate_def)
qed

lemma tryResync_cases:
  assumes "guard_ok r"
  obtains (collect) r' where "tryResync r seq now = (False, r')" "same_core r r'"
      "rs_resyncs r' = rs_resyncs r" "guard_ok r'"
  | (repin) r' where "tryResync r seq now = (True, resync r' seq now)" "same_core r r'"
      "rs_resyncs r' = rs_resyncs r"
proof -
  define lo hi where "lo = (if seq < rs_resyncLo r then seq else rs_resyncLo r)"
    and "hi = (if seq > rs_resyncHi r then seq else rs_resyncHi r)"
  define ext where "ext = r\<lparr>rs_resyncLo := lo, rs_resyncHi := hi, rs_resyncSeqs := rs_resyncSeqs r @ [seq]\<rparr>"
  have ext: "same_core r ext" "rs_resyncs ext = rs_resyncs r" by (simp_all add: ext_def)
  consider (start) "rs_resyncSeqs r = [] \<or> spanExceeds r seq"
    | (again) "rs_resyncSeqs r \<noteq> []" "\<not> spanExceeds r seq" "runContains r seq"
    | (new) "rs_resyncSeqs r \<noteq> []" "\<not> spanExceeds r seq" "\<not> runContains r seq"
    by blast
  then show thesis
  proof cases
    case start
    then show thesis
      by (intro collect [of "r\<lparr>rs_resyncLo := seq, rs_resyncHi := seq, rs_resyncSeqs := [seq]\<rparr>"])
        (simp_all add: tryResync_def guard_ok_def resyncCorroborate_def)
  next
    case again
    then show thesis using assms by (intro collect [of r]) (simp_all add: tryResync_def)
  next
    case new
    then have "tryResync r seq now =
        (if length (rs_resyncSeqs ext) < resyncCorroborate then (False, ext) else (True, resync ext seq now))"
      by (simp add: tryResync_def ext_def lo_def hi_def Let_def)
    then show thesis
      using ext collect [of ext] repin [of ext] by (cases "guard_ok ext") (simp_all add: guard_ok_def)
  qed
qed

text \<open>
  Admission either refuses the frame and changes nothing but counters and the run, or leaves the
  frame inside the window, reached by moves of the release point or by a re-pin that empties the
  buffer.
\<close>

definition refused :: "'p resequencer \<Rightarrow> 'p resequencer \<Rightarrow> bool" where
  "refused r r' \<longleftrightarrow> same_core r r' \<and> rs_resyncs r' = rs_resyncs r"

definition admitted :: "'p resequencer \<Rightarrow> u64 \<Rightarrow> 'p resequencer \<Rightarrow> bool" where
  "admitted r seq r' \<longleftrightarrow>
     in_window (rs_window r') (rs_next r') seq \<and> (rs_waiting r' \<longrightarrow> dom (content r') \<noteq> {}) \<and>
     moves (view r) (view r') \<and> rs_resyncs r' = rs_resyncs r \<and>
     (content r' seq \<noteq> None \<longrightarrow> stable r' \<and> view r' = view r)"

definition repinned :: "'p resequencer \<Rightarrow> u64 \<Rightarrow> 'p resequencer \<Rightarrow> bool" where
  "repinned r seq r' \<longleftrightarrow>
     content r' = Map.empty \<and> rs_next r' = seq \<and> rs_ready r' = rs_ready r \<and> \<not> rs_waiting r' \<and>
     rs_resyncs r' = rs_resyncs r + 1"

definition keeps :: "instant \<Rightarrow> 'p resequencer \<Rightarrow> 'p resequencer \<Rightarrow> bool" where
  "keeps t r r' \<longleftrightarrow> rs_inv r' \<and> timed t r' \<and> base_fields r' = base_fields r \<and>
     rs_highWater r' = rs_highWater r \<and> guard_ok r'"

lemma suspect_drop_spec:
  assumes "rs_inv r" and "timed t r" and "guard_ok r"
  shows "case suspect_drop r seq now of (ok, r') \<Rightarrow> keeps t r r' \<and>
    (if ok then repinned r seq r' else refused r r')"
  using assms(3)
proof (cases rule: tryResync_cases [where seq = seq and now = now, consumes 1, case_names collect repin])
  case (collect r')
  then have "same_core r (r'\<lparr>rs_dropSuspect := rs_dropSuspect r' + 1\<rparr>)" by simp
  from same_core_keeps [OF this] collect assms show ?thesis
    by (simp add: suspect_drop_def keeps_def refused_def guard_ok_def)
next
  case (repin r')
  note same = same_core_keeps [OF repin(2)]
  have "rs_inv r'" "timed t r'" using same assms by simp_all
  from resync_spec [OF this, where base = seq and now = now] repin same show ?thesis
    by (simp add: suspect_drop_def keeps_def repinned_def)
qed

lemma moves_same_view: "view r' = view r \<Longrightarrow> moves (view r) (view r')"
  by (metis moves.stay)

lemma keeps_same: "same_core r r' \<Longrightarrow> rs_inv r \<Longrightarrow> timed t r \<Longrightarrow> guard_ok r' \<Longrightarrow> keeps t r r'"
  using same_core_keeps [of r r'] by (simp add: keeps_def)

lemma guard_ok_reset [simp]: "guard_ok (resyncReset r)" "guard_ok ((resyncReset r)\<lparr>rs_dropLate := a\<rparr>)"
  "rs_resyncs (resyncReset r) = rs_resyncs r"
  by (simp_all add: guard_ok_def resyncReset_def resyncCorroborate_def)

text \<open>The arithmetic of a forward jump: nothing wraps because the frame lies ahead.\<close>

lemma jump_arith:
  fixes nx w seq :: u64
  assumes "nx \<le> seq" and "w \<le> seq - nx" and "seq \<noteq> - 1" and "w \<noteq> 0"
  shows "unat nx + unat w < 2 ^ 64" and "nx \<le> seq - w + 1"
    and "in_window w (seq - w + 1) seq" and "unat nx + unat w \<le> unat seq"
    and "nx < seq - w + 1"
proof -
  have sub: "unat (seq - nx) = unat seq - unat nx"
    using assms(1) by (simp add: unat_minus_nowrap)
  have le: "unat nx \<le> unat seq" "unat w \<le> unat seq - unat nx"
    using assms(1,2) sub by (simp_all add: word_le_nat_alt)
  then show top: "unat nx + unat w \<le> unat seq" by simp
  then show "unat nx + unat w < 2 ^ 64" using unat_u64_less [of seq] by simp
  have "w \<le> seq" using top by (simp add: word_le_nat_alt)
  then have sw: "unat (seq - w) = unat seq - unat w" by (simp add: unat_minus_nowrap)
  have w0: "0 < unat w" using assms(4) by (simp add: unat_gt_0)
  have "seq - w < seq" using sw w0 top by (simp add: word_less_nat_alt)
  then have succ: "unat (seq - w + 1) = unat seq - unat w + 1"
    using unat_step_below [of "seq - w" seq] sw by simp
  show "nx \<le> seq - w + 1" and "nx < seq - w + 1" using succ top by (auto simp: word_le_nat_alt word_less_nat_alt)
  show "in_window w (seq - w + 1) seq"
    using succ w0 top assms(3) by (auto simp: in_window_def word_le_nat_alt)
qed

lemma in_window_near:
  fixes nx w seq :: u64
  assumes "nx \<le> seq" and "\<not> w \<le> seq - nx" and "seq \<noteq> - 1"
  shows "in_window w nx seq"
  using assms by (auto simp: in_window_def word_le_nat_alt unat_minus_nowrap)

lemma admit_cases:
  fixes r :: "'p resequencer"
  defines "r' \<equiv> resyncReset r"
  obtains (suspect) "admit r seq now = Some (suspect_drop r seq now)"
  | (late) "admit r seq now = Some (False, r'\<lparr>rs_dropLate := rs_dropLate r' + 1\<rparr>)"
  | (near) "rs_next r \<le> seq" "\<not> rs_window r \<le> seq - rs_next r" "admit r seq now = Some (True, r')"
  | (far) "rs_next r \<le> seq" "rs_window r \<le> seq - rs_next r"
      "admit r seq now = do {r \<leftarrow> advanceTo (endHoldLocked r' now) (seq - rs_window r' + 1); Some (True, r)}"
proof -
  have eqs: "rs_window r' = rs_window r" "rs_next r' = rs_next r" by (simp_all add: r'_def resyncReset_def)
  consider "seq < rs_next r" "rs_next r - seq > rs_window r"
    | "seq < rs_next r" "\<not> rs_next r - seq > rs_window r"
    | "\<not> seq < rs_next r" "seq - rs_next r \<ge> resyncFactor * rs_window r"
    | "\<not> seq < rs_next r" "\<not> seq - rs_next r \<ge> resyncFactor * rs_window r" "\<not> seq - rs_next r \<ge> rs_window r"
    | "\<not> seq < rs_next r" "\<not> seq - rs_next r \<ge> resyncFactor * rs_window r" "seq - rs_next r \<ge> rs_window r"
    by blast
  then show thesis
  proof cases
    case 1
    then have "admit r seq now = Some (suspect_drop r seq now)" by (simp add: admit_def)
    then show thesis by (rule suspect)
  next
    case 2
    then show thesis by (intro late) (simp add: admit_def r'_def Let_def)
  next
    case 3
    then have "admit r seq now = Some (suspect_drop r seq now)" by (simp add: admit_def)
    then show thesis by (rule suspect)
  next
    case 4
    then have "admit r seq now = Some (True, r')"
      unfolding admit_def r'_def [symmetric] Let_def eqs by presburger
    with 4 show thesis by (intro near) simp_all
  next
    case 5
    then have "admit r seq now = do {r \<leftarrow> advanceTo (endHoldLocked r' now) (seq - rs_window r' + 1); Some (True, r)}"
      unfolding admit_def r'_def [symmetric] Let_def eqs by presburger
    with 5 show thesis by (intro far) simp_all
  qed
qed

lemma advance_admits:
  assumes inv: "rs_inv r" and timed: "timed t r" and guard: "guard_ok r" and idle: "\<not> rs_waiting r"
    and far: "rs_next r \<le> seq" "rs_window r \<le> seq - rs_next r" and nmax: "seq \<noteq> - 1"
  shows "\<exists>r'. advanceTo r (seq - rs_window r + 1) = Some r' \<and> keeps t r r' \<and> admitted r seq r'"
proof -
  note ar = jump_arith [OF far nmax conjunct1 [OF rs_inv_ring [OF inv]]]
  obtain r' where r': "advanceTo r (seq - rs_window r + 1) = Some r'" "rs_inv r'"
    "moves (view r) (view r')" "rs_next r' = seq - rs_window r + 1" "static r' = static r"
    "hold_fields r' = hold_fields r"
    using advanceTo_moves [OF inv ar(2,1)] by blast
  have base: "base_fields r' = base_fields r" by (rule base_fields_static [OF r'(5)])
  have "timed t r'" by (rule timed_moves [OF inv r'(3) timed r'(6,5)])
  moreover have "guard_ok r'" "rs_highWater r' = rs_highWater r" and rsn: "rs_resyncs r' = rs_resyncs r"
    using static_eqD(7,10,11) [OF r'(5)] guard by (simp_all add: guard_ok_def)
  ultimately have "keeps t r r'" using r'(2) base by (simp add: keeps_def)
  moreover have "admitted r seq r'"
  proof -
    have "content r seq = None"
      using inv_in_window [OF inv, of seq] ar(4) by (cases "content r seq") (auto simp: in_window_def)
    then have "content r' seq = None" using content_moves(2) [OF inv r'(3), of seq] by simp
    moreover have "\<not> rs_waiting r'" using hold_fields_eqD(3) [OF r'(6)] idle by simp
    moreover have "in_window (rs_window r') (rs_next r') seq"
      using ar(3) r'(4) base_fieldsD(1) [OF base] by simp
    ultimately show ?thesis using r'(3) rsn by (simp add: admitted_def)
  qed
  ultimately show ?thesis using r'(1) by blast
qed

lemma admit_spec:
  assumes inv: "rs_inv r" and timed: "timed t r" and stable: "stable r" and guard: "guard_ok r"
    and nmax: "seq \<noteq> - 1"
  shows "\<exists>ok r'. admit r seq now = Some (ok, r') \<and> keeps t r r' \<and>
    (if ok then admitted r seq r' \<or> repinned r seq r' else refused r r')"
proof -
  let ?r = "resyncReset r"
  note same = same_core_keeps [OF same_core_updates(2) [of r]]
  show ?thesis
  proof (cases rule: admit_cases [of r seq now, case_names suspect late near far])
    case suspect
    then show ?thesis
      using suspect_drop_spec [OF inv timed guard, of seq now]
      by (cases "suspect_drop r seq now") (auto split: if_splits)
  next
    case late
    let ?l = "?r\<lparr>rs_dropLate := rs_dropLate ?r + 1\<rparr>"
    have "same_core r ?l" by simp
    moreover have "keeps t r ?l" using keeps_same [of r ?l] inv timed by simp
    ultimately have "keeps t r ?l" and "refused r ?l" by (simp_all add: refused_def)
    with late show ?thesis by auto
  next
    case near
    have "in_window (rs_window r) (rs_next r) seq" by (rule in_window_near [OF near(1,2) nmax])
    moreover have "rs_window ?r = rs_window r" using base_fieldsD(1) [OF same(7)] .
    moreover have "rs_waiting r \<longrightarrow> dom (content r) \<noteq> {}"
      using stable buf_pos [OF inv] by (simp add: stable_def)
    ultimately have "admitted r seq ?r"
      using same(3,4,5) stable moves_same_view [OF same(4)] by (simp add: admitted_def)
    moreover have "keeps t r ?r" using keeps_same [of r ?r] inv timed by simp
    ultimately show ?thesis using near(3) by auto
  next
    case far
    let ?e = "endHoldLocked ?r now"
    have fields: "rs_next ?e = rs_next r" "rs_window ?e = rs_window r" "rs_window ?r = rs_window r"
      "rs_ring ?e = rs_ring r" "rs_ready ?e = rs_ready r" "rs_resyncs ?e = rs_resyncs r"
      by (simp_all add: resyncReset_def)
    have "rs_inv ?r" "timed t ?r" using same(1,2) inv timed by simp_all
    then have "rs_inv ?e" "timed t ?e" "guard_ok ?e" "\<not> rs_waiting ?e"
      using endHoldLocked_keeps(1) [of ?r now] endHoldLocked_keeps(2) [of t ?r now] guard_ok_reset(1) [of r] by (simp_all add: guard_ok_def)
    from advance_admits [OF this, of seq] far(1,2) nmax
    obtain r' where r': "advanceTo ?e (seq - rs_window r + 1) = Some r'" "keeps t ?e r'" "admitted ?e seq r'"
      unfolding fields by blast
    have "keeps t r r'" using r'(2) same(7,8) by (simp add: keeps_def)
    moreover have "admitted r seq r'" using r'(3) fields by (simp add: admitted_def)
    moreover have "admit r seq now = Some (True, r')"
      unfolding far(3) fields r'(1) by simp
    ultimately show ?thesis by auto
  qed
qed

section \<open>The operations keep the invariant\<close>

definition good :: "instant \<Rightarrow> 'p resequencer \<Rightarrow> bool" where
  "good t r \<longleftrightarrow> rs_inv r \<and> timed t r \<and> stable r \<and> guard_ok r \<and> rs_highWater r \<le> uint (rs_window r) \<and>
     (\<not> rs_started r \<longrightarrow> content r = Map.empty \<and> pendingHeld r = []) \<and>
     rs_readyPos r \<le> length (rs_ready r)"

lemma good_New:
  assumes "New w d = Some r"
  shows "good t r" and "\<not> rs_started r" and "rs_window r = w" and "rs_timeout r = d"
    and "rs_ready r = []" and "rs_readyPos r = 0" and "\<not> rs_closed r"
proof -
  have w: "w \<noteq> 0" using assms by (auto simp: New_def split: if_splits)
  have rep: "replicate (unat w) empty_slot = map (\<lambda>_. empty_slot) (replicate (unat w) empty_slot)" by simp
  have "core w 0 (replicate (unat w) (empty_slot :: 'a slot)) 0 []"
    "cells w (replicate (unat w) (empty_slot :: 'a slot)) = Map.empty"
    by (subst rep; rule core_clear [OF w]; simp)+
  then show "good t r"
    using assms by (auto simp: New_def good_def rs_inv_def timed_def stable_def guard_ok_def observed_order_def
        effectiveHoldLocked_def resyncCorroborate_def split: if_splits)
  show "\<not> rs_started r" and "rs_window r = w" and "rs_timeout r = d"
    and "rs_ready r = []" and "rs_readyPos r = 0" and "\<not> rs_closed r"
    using assms by (auto simp: New_def split: if_splits)
qed

definition start :: "'p resequencer \<Rightarrow> u64 \<Rightarrow> 'p resequencer" where
  "start r seq = (if \<not> rs_started r then r\<lparr>rs_started := True, rs_next := seq\<rparr> else r)"

lemma good_start:
  assumes "good t r"
  shows "good t (start r seq)" and "rs_started (start r seq)" and "content (start r seq) = content r"
    and "rs_ready (start r seq) = rs_ready r" and "rs_resyncs (start r seq) = rs_resyncs r"
    and "rs_window (start r seq) = rs_window r"
proof -
  have "core (rs_window r) seq (rs_ring r) (rs_buf r) []" if "\<not> rs_started r"
    using assms that by (auto simp: good_def rs_inv_def core_def ring_ok_def cells_def Let_def fun_eq_iff)
      (metis option.distinct(1))+
  then show "good t (start r seq)"
    using assms by (auto simp: good_def start_def rs_inv_def timed_def stable_def guard_ok_def
        effectiveHoldLocked_def)
  show "rs_started (start r seq)" and "content (start r seq) = content r"
    and "rs_ready (start r seq) = rs_ready r" and "rs_resyncs (start r seq) = rs_resyncs r"
    and "rs_window (start r seq) = rs_window r"
    by (simp_all add: start_def)
qed

lemma moves_ready: "moves (nx, cont, rd) (nx', cont', rd') \<Longrightarrow> \<exists>xs. rd' = rd @ xs"
  by (induction "(nx, cont, rd)" "(nx', cont', rd')" arbitrary: nx cont rd rule: moves.induct) auto

lemma expire_good:
  assumes "good t r" and "t \<le> now"
  shows "\<exists>r'. expire r now = Some r' \<and> good now r' \<and> moves (view r) (view r') \<and> static r' = static r \<and>
    (rs_waiting r' \<longrightarrow> now < rs_deadline r')"
proof -
  obtain r' where r': "expire r now = Some r'" "rs_inv r'" "timed t r'" "stable r'"
    "moves (view r) (view r')" "static r' = static r" "rs_waiting r' \<longrightarrow> now < rs_deadline r'"
    using expire_spec [of r t now] assms(1) by (auto simp: good_def)
  note st = static_eqD [OF r'(6)]
  have "content r' = Map.empty \<and> pendingHeld r' = []" if "\<not> rs_started r'"
  proof -
    have empty: "content r = Map.empty" "pendingHeld r = []" and "\<not> rs_waiting r"
      using that assms(1) st buf_pos [of r] by (auto simp: good_def stable_def)
    then have "r' = r" using r'(1) by (simp add: expire.simps)
    with empty show ?thesis by simp
  qed
  then have "good now r'"
    using r'(2-4) assms st moves_ready [OF r'(5)] timed_later [OF r'(3) assms(2)]
    by (auto simp: good_def guard_ok_def)
  with r' show ?thesis by blast
qed

text \<open>How an accepted frame enters: expiry and admission, then the frame, then the run it completes.\<close>

definition took :: "'p resequencer \<Rightarrow> u64 \<Rightarrow> 'p slot \<Rightarrow> 'p resequencer \<Rightarrow> bool" where
  "took r seq cell r' \<longleftrightarrow>
     (\<exists>r1 r2. moves (view r) (view r1) \<and> rs_inv r1 \<and> rs_resyncs r1 = rs_resyncs r \<and>
        (admitted r1 seq r2 \<or> repinned r1 seq r2) \<and> rs_inv r2 \<and> in_window (rs_window r) (rs_next r2) seq \<and>
        content r2 seq = None \<and>
        moves (rs_next r2, (content r2)(seq \<mapsto> cell), rs_ready r2) (view r') \<and>
        rs_resyncs r' = rs_resyncs r2)"

definition passed :: "'p resequencer \<Rightarrow> 'p resequencer \<Rightarrow> bool" where
  "passed r r' \<longleftrightarrow> moves (view r) (view r') \<and> rs_resyncs r' = rs_resyncs r"

lemma enter_spec:
  assumes inv: "rs_inv r" and timed: "timed now r" and win: "in_window (rs_window r) (rs_next r) seq"
    and free: "content r seq = None" and waiting: "rs_waiting r \<longrightarrow> dom (content r) \<noteq> {}"
    and hw: "rs_highWater r \<le> uint (rs_window r)" and rp: "rs_readyPos r \<le> length (rs_ready r)"
    and guard: "guard_ok r" and started: "rs_started r"
  shows "\<exists>r1 r'. drain (place r seq payload src now) = Some r1 \<and> arm r1 now = Some r' \<and> good now r' \<and>
    moves (rs_next r, (content r)(seq \<mapsto> new_cell seq payload src now), rs_ready r) (view r') \<and>
    base_fields r' = base_fields r \<and> rs_resyncs r' = rs_resyncs r \<and> rs_next r' = rs_next r1"
proof -
  note pl = place_spec [OF inv timed win free waiting, of payload src]
  obtain r1 where r1: "drain (place r seq payload src now) = Some r1" "rs_inv r1"
    "moves (view (place r seq payload src now)) (view r1)" "content r1 (rs_next r1) = None"
    "static r1 = static (place r seq payload src now)"
    "hold_fields r1 = hold_fields (place r seq payload src now)"
    using drain_moves [OF pl(1)] by blast
  have timed1: "timed now r1" by (rule timed_moves [OF pl(1) r1(3) pl(2) r1(6,5)])
  obtain r' where r': "arm r1 now = Some r'" "rs_inv r'" "timed now r'" "view r' = view r1"
    "rs_buf r' = rs_buf r1" "static r' = static r1" "rs_waiting r' \<longleftrightarrow> 0 < rs_buf r1"
    using arm_spec [OF r1(2,4) timed1, of now] by blast
  have st: "static r' = static (r\<lparr>rs_highWater := max (rs_highWater r) (rs_buf r + 1)\<rparr>)"
    using r'(6) r1(5) pl(4) by simp
  have "stable r'" using r1(4) r'(4,5,7) by (simp add: stable_def)
  moreover have "rs_buf r + 1 \<le> uint (rs_window r)"
    using buf_le_window [OF pl(1)] pl(5) static_eqD(1) [OF pl(4)] by simp
  moreover have mv: "moves (rs_next r, (content r)(seq \<mapsto> new_cell seq payload src now), rs_ready r) (view r')"
    using r1(3) pl(3) r'(4) by simp
  then have "rs_readyPos r \<le> length (rs_ready r')" using moves_ready [OF mv] rp by auto
  ultimately have "good now r'"
    using r'(2,3) static_eqD [OF st] hw guard started by (simp add: good_def guard_ok_def)
  moreover have "base_fields r' = base_fields r"
    using base_fields_static [OF st] by (simp add: base_fields_def)
  moreover have "rs_resyncs r' = rs_resyncs r" using static_eqD(11) [OF st] by simp
  moreover have "rs_next r' = rs_next r1" using r'(4) by simp
  ultimately show ?thesis using r1(1) r'(1) mv by blast
qed

lemma Observe_spec:
  assumes good: "good t r" and later: "t \<le> now" and nmax: "seq \<noteq> - 1"
  shows "\<exists>ok r'. Observe r seq payload src now = Some (ok, r') \<and> good now r' \<and>
    base_fields r' = base_fields (start r seq) \<and>
    (if ok then took (start r seq) seq (new_cell seq payload src now) r' else passed (start r seq) r')"
proof -
  let ?s = "start r seq"
  note bg = good_start [OF good, of seq]
  obtain r1 where r1: "expire ?s now = Some r1" "good now r1" "moves (view ?s) (view r1)" "static r1 = static ?s"
    using expire_good [OF bg(1) later] by blast
  have base1: "base_fields r1 = base_fields ?s" by (rule base_fields_static [OF r1(4)])
  have good1: "rs_inv r1" "timed now r1" "stable r1" "guard_ok r1" "rs_highWater r1 \<le> uint (rs_window r1)"
    "rs_readyPos r1 \<le> length (rs_ready r1)" using r1(2) by (simp_all add: good_def)
  obtain ok r2 where r2: "admit r1 seq now = Some (ok, r2)" "keeps now r1 r2"
    "if ok then admitted r1 seq r2 \<or> repinned r1 seq r2 else refused r1 r2"
    using admit_spec [OF good1(1-4) nmax, of now] by blast
  have base2: "base_fields r2 = base_fields r1" and inv2: "rs_inv r2" "timed now r2" "guard_ok r2"
    and hw2: "rs_highWater r2 = rs_highWater r1"
    using r2(2) by (simp_all add: keeps_def)
  have win1: "rs_window r1 = rs_window ?s" "rs_window r2 = rs_window ?s" "rs_started r2"
    using base_fieldsD(1,3) [OF base1] base_fieldsD(1,3) [OF base2] bg(2) by simp_all
  have obs: "Observe r seq payload src now = do {
      (ok, r) \<leftarrow> Some (ok, r2);
      if \<not> ok then Some (False, r)
      else do {
        cell \<leftarrow> cell_at r seq;
        if sl_occupied cell \<and> sl_seq cell = seq then Some (False, r\<lparr>rs_dropDup := rs_dropDup r + 1\<rparr>)
        else do {r \<leftarrow> drain (place r seq payload src now); r \<leftarrow> arm r now; Some (True, r)}}}"
    unfolding Observe_def start_def [symmetric] Let_def r1(1) bind.bind_lunit r2(1) ..
  have rs1: "rs_resyncs r1 = rs_resyncs ?s" using static_eqD(11) [OF r1(4)] .
  show ?thesis
  proof (cases ok)
    case False
    with r2(3) have ref: "same_core r1 r2" "rs_resyncs r2 = rs_resyncs r1" by (simp_all add: refused_def)
    note same = same_core_keeps [OF ref(1)]
    have "good now r2"
      using good1 inv2 same base_fieldsD [OF base2] win1(3) by (simp add: good_def)
    moreover have "passed ?s r2" using r1(3) same(4) ref(2) rs1 by (simp add: passed_def)
    ultimately show ?thesis using obs False base1 base2 by auto
  next
    case True
    note cell = inv_cell_at [OF inv2(1), of seq] and head = head_content [of r2 seq]
    from True r2(3) have adm: "admitted r1 seq r2 \<or> repinned r1 seq r2" by simp
    have win2: "in_window (rs_window r2) (rs_next r2) seq"
      using adm inv_window_pos [OF inv2(1)] nmax by (auto simp: admitted_def repinned_def in_window_def)
    have wait2: "rs_waiting r2 \<longrightarrow> dom (content r2) \<noteq> {}"
      using adm by (auto simp: admitted_def repinned_def)
    have rp2: "rs_readyPos r2 \<le> length (rs_ready r2)"
    proof -
      have "\<exists>xs. rs_ready r2 = rs_ready r1 @ xs"
        using adm by (auto simp: admitted_def repinned_def dest: moves_ready)
      then show ?thesis using good1(6) base_fieldsD(4) [OF base2] by auto
    qed
    show ?thesis
    proof (cases "content r2 seq")
      case (Some c)
      let ?d = "r2\<lparr>rs_dropDup := rs_dropDup r2 + 1\<rparr>"
      from Some adm have st: "stable r2" "view r2 = view r1" "rs_resyncs r2 = rs_resyncs r1"
        by (auto simp: admitted_def repinned_def)
      have "same_core r2 ?d" by simp
      note same = same_core_keeps [OF this]
      have "good now ?d"
        using inv2 st good1(5) hw2 same win1 rp2 base_fieldsD [OF same(7)] by (simp add: good_def guard_ok_def)
      moreover have "passed ?s ?d" using r1(3) st(2,3) same(4) rs1 by (simp add: passed_def)
      moreover have "Observe r seq payload src now = Some (False, ?d)"
        using obs True cell head Some by simp
      ultimately show ?thesis using base1 base2 same(7) by auto
    next
      case None
      obtain r3 r' where r': "drain (place r2 seq payload src now) = Some r3" "arm r3 now = Some r'" "good now r'"
        "moves (rs_next r2, (content r2)(seq \<mapsto> new_cell seq payload src now), rs_ready r2) (view r')"
        "base_fields r' = base_fields r2" "rs_resyncs r' = rs_resyncs r2"
        using enter_spec [OF inv2(1,2) win2 None wait2 _ rp2 inv2(3) win1(3), of payload src] good1(5) hw2 win1
        by auto
      have "took ?s seq (new_cell seq payload src now) r'"
        unfolding took_def using r1(3) good1(1) rs1 adm inv2(1) win2 None r'(4,6) win1(2)
        by (intro exI [of _ r1] exI [of _ r2]) simp
      moreover have "Observe r seq payload src now = Some (True, r')"
        using obs True cell head None r'(1,2) by auto
      ultimately show ?thesis using base1 base2 r'(3,5) by auto
    qed
  qed
qed

abbreviation pending :: "'p resequencer \<Rightarrow> 'p item list" where
  "pending r \<equiv> drop (rs_readyPos r) (rs_ready r)"

lemma take_ready_good:
  assumes "good t r"
  shows "good t (snd (take_ready r))"
    and "pending r = (case fst (take_ready r) of None \<Rightarrow> [] | Some it \<Rightarrow> [it]) @ pending (snd (take_ready r))"
    and "fst (take_ready r) = None \<longleftrightarrow> pending r = []"
    and "rs_next (snd (take_ready r)) = rs_next r" "content (snd (take_ready r)) = content r"
    and "static (snd (take_ready r)) = static (r\<lparr>rs_readyPos := rs_readyPos (snd (take_ready r))\<rparr>)"
    and "hold_fields (snd (take_ready r)) = hold_fields r"
proof -
  let ?r = "snd (take_ready r)"
  have eqs: "rs_ring ?r = rs_ring r" "rs_next ?r = rs_next r" "rs_buf ?r = rs_buf r" "rs_window ?r = rs_window r"
    "static ?r = static (r\<lparr>rs_readyPos := rs_readyPos ?r\<rparr>)" "hold_fields ?r = hold_fields r"
    by (simp_all add: take_ready_def Let_def static_def hold_fields_def)
  then show "rs_next ?r = rs_next r" "content ?r = content r"
    "static ?r = static (r\<lparr>rs_readyPos := rs_readyPos ?r\<rparr>)" "hold_fields ?r = hold_fields r"
    by simp_all
  show "fst (take_ready r) = None \<longleftrightarrow> pending r = []" by (simp add: take_ready_def Let_def)
  show "pending r = (case fst (take_ready r) of None \<Rightarrow> [] | Some it \<Rightarrow> [it]) @ pending ?r"
    using Cons_nth_drop_Suc [of "rs_readyPos r" "rs_ready r"]
    by (cases "rs_readyPos r < length (rs_ready r)") (auto simp: take_ready_def Let_def)
  have "rs_readyPos ?r \<le> length (rs_ready ?r)"
    using assms by (auto simp: take_ready_def Let_def good_def)
  moreover have st: "rs_timeout ?r = rs_timeout r" "rs_started ?r = rs_started r" "rs_holdBound ?r = rs_holdBound r"
    "rs_closed ?r = rs_closed r" "rs_resyncSeqs ?r = rs_resyncSeqs r" "rs_highWater ?r = rs_highWater r"
    using static_eqD [OF eqs(5)] by simp_all
  moreover have "effectiveHoldLocked ?r = effectiveHoldLocked r" by (simp add: effectiveHoldLocked_def st)
  ultimately show "good t ?r"
    using assms by (simp add: good_def rs_inv_def timed_def stable_def guard_ok_def eqs(1-4) hold_fields_eqD [OF eqs(6)])
qed

lemma Pop_spec:
  assumes "good t r" and "t \<le> now"
  shows "\<exists>r1. expire r now = Some r1 \<and> good now r1 \<and> moves (view r) (view r1) \<and> static r1 = static r \<and>
    (rs_waiting r1 \<longrightarrow> now < rs_deadline r1) \<and> Pop r now = Some (take_ready r1)"
  using expire_good [OF assms] by (auto simp: Pop_def)

lemma Rebaseline_spec:
  assumes "good t r" and "first \<noteq> 0"
  shows "\<exists>r'. RebaselineAt r first now = Some r' \<and> good now r' \<and> rs_next r' = first \<and>
    content r' = Map.empty \<and> rs_ready r' = rs_ready r \<and> rs_readyPos r' = rs_readyPos r \<and> rs_started r' \<and>
    rs_window r' = rs_window r \<and> rs_timeout r' = rs_timeout r \<and> rs_closed r' = rs_closed r"
proof -
  define r0 where "r0 = r\<lparr>rs_ring := map (\<lambda>_. empty_slot) (rs_ring r), rs_buf := 0, rs_held := [],
    rs_heldPos := 0, rs_started := True, rs_next := first\<rparr>"
  define r1 where "r1 = resyncReset (endHoldLocked r0 now)"
  let ?r = "notifyLocked (r1\<lparr>rs_rebaselines := rs_rebaselines r1 + 1\<rparr>)"
  have res: "RebaselineAt r first now = Some ?r"
    using assms(2) by (simp add: RebaselineAt_def r1_def r0_def Let_def)
  have ring: "rs_window r \<noteq> 0" "length (rs_ring r) = unat (rs_window r)"
    using rs_inv_ring [of r] assms(1) by (simp_all add: good_def)
  note clear = core_clear [OF ring]
  have base: "base_fields (endHoldLocked r0 now) = base_fields (r\<lparr>rs_started := True\<rparr>)"
    unfolding endHoldLocked_counts by (simp add: r0_def base_fields_def)
  have hw: "rs_highWater (endHoldLocked r0 now) = rs_highWater r" by (simp add: r0_def)
  have fields: "rs_window ?r = rs_window r" "rs_timeout ?r = rs_timeout r" "rs_started ?r"
    "rs_readyPos ?r = rs_readyPos r" "rs_holdBound ?r = rs_holdBound r" "rs_closed ?r = rs_closed r"
    "rs_highWater ?r = rs_highWater r" "rs_next ?r = first" "rs_ready ?r = rs_ready r"
    "rs_ring ?r = map (\<lambda>_. empty_slot) (rs_ring r)" "rs_buf ?r = 0" "rs_held ?r = []" "rs_heldPos ?r = 0"
    "rs_waiting ?r = False" "rs_resyncSeqs ?r = []"
    using base_fieldsD [OF base] hw by (simp_all add: notifyLocked_def r1_def resyncReset_def) (simp_all add: r0_def)
  have "good now ?r"
    using assms(1) clear unfolding good_def rs_inv_def timed_def stable_def guard_ok_def effectiveHoldLocked_def
      observed_order_def fields resyncCorroborate_def by auto
  then show ?thesis using res clear(2) fields by auto
qed

lemma SetHoldBound_good: "good t r \<Longrightarrow> good t (SetHoldBound r d)"
  by (auto simp: good_def SetHoldBound_def Let_def rs_inv_def timed_def stable_def guard_ok_def
      effectiveHoldLocked_def)

lemma SetNotifier_good: "good t r \<Longrightarrow> good t (SetNotifier r b)"
  by (auto simp: good_def SetNotifier_def rs_inv_def timed_def stable_def guard_ok_def effectiveHoldLocked_def)

lemma Close_spec:
  assumes "good t r"
  shows "good t (Close r now)" and "view (Close r now) = view r"
    and "static (Close r now) = static (r\<lparr>rs_closed := True\<rparr>)"
proof -
  let ?c = "r\<lparr>rs_closed := True\<rparr>"
  have "rs_inv ?c" "timed t ?c"
    using assms by (auto simp: good_def rs_inv_def timed_def effectiveHoldLocked_def)
  then have e: "rs_inv (endHoldLocked ?c now)" "timed t (endHoldLocked ?c now)"
    by (auto intro: endHoldLocked_keeps)
  note st = static_eqD [of "endHoldLocked ?c now" ?c, simplified]
  show stat: "static (Close r now) = static ?c"
  proof (cases "rs_closed r")
    case False
    have "static (notifyLocked (endHoldLocked ?c now)) = static (endHoldLocked ?c now)"
      by (simp add: notifyLocked_def static_def)
    with False show ?thesis by (simp add: Close_def)
  qed (simp add: Close_def static_def)
  show "view (Close r now) = view r" by (simp add: Close_def notifyLocked_def)
  show "good t (Close r now)"
  proof (cases "rs_closed r")
    case False
    have "good t (endHoldLocked ?c now)"
      using assms e st by (auto simp: good_def stable_def guard_ok_def)
    then have "good t (notifyLocked (endHoldLocked ?c now))"
      by (auto simp: notifyLocked_def good_def rs_inv_def timed_def stable_def guard_ok_def effectiveHoldLocked_def)
    with False show ?thesis by (simp add: Close_def)
  qed (use assms in \<open>simp add: Close_def\<close>)
qed

end
