(* ===== verification/Reseq_Order.thy ===== *)
theory Reseq_Order
  imports Reseq_Ops
begin

text \<open>
  What a whole run of the resequencer delivers: runs never panic and never stop, memory stays
  within the window, delivery is strictly ascending between discontinuities, no frame waits past
  the timeout, and the discontinuity guard.
\<close>

section \<open>Runs\<close>

datatype 'p rs_op =
  OpObserve u64 "'p option" addr_port
| OpPop
| OpHold duration
| OpNotifier bool
| OpRebaseline u64
| OpClose

type_synonym 'p rs_trace = "(instant \<times> 'p rs_op) list"

fun apply_op :: "'p rs_op \<Rightarrow> instant \<Rightarrow> 'p resequencer \<Rightarrow> ('p item option \<times> 'p resequencer) option" where
  "apply_op (OpObserve seq payload src) now r = do {(_, r) \<leftarrow> Observe r seq payload src now; Some (None, r)}"
| "apply_op OpPop now r = Pop r now"
| "apply_op (OpHold d) now r = Some (None, SetHoldBound r d)"
| "apply_op (OpNotifier b) now r = Some (None, SetNotifier r b)"
| "apply_op (OpRebaseline first) now r = do {r \<leftarrow> RebaselineAt r first now; Some (None, r)}"
| "apply_op OpClose now r = Some (None, Close r now)"

fun run :: "'p rs_trace \<Rightarrow> 'p resequencer \<Rightarrow> ('p item list \<times> 'p resequencer) option" where
  "run [] r = Some ([], r)"
| "run ((now, x) # ops) r = do {
     (out, r) \<leftarrow> apply_op x now r;
     (outs, r) \<leftarrow> run ops r;
     Some (case out of None \<Rightarrow> outs | Some it \<Rightarrow> it # outs, r)
   }"

text \<open>
  The caller's side: the clock does not run backwards, no frame carries the last sequence of the
  64-bit space (the transport hands over 63-bit sequences), and a first sequence is not zero.
\<close>

fun op_ok :: "'p rs_op \<Rightarrow> bool" where
  "op_ok (OpObserve seq payload src) \<longleftrightarrow> seq \<noteq> - 1"
| "op_ok (OpRebaseline first) \<longleftrightarrow> first \<noteq> 0"
| "op_ok _ \<longleftrightarrow> True"

fun trace_ok :: "instant \<Rightarrow> 'p rs_trace \<Rightarrow> bool" where
  "trace_ok t [] \<longleftrightarrow> True"
| "trace_ok t ((now, x) # ops) \<longleftrightarrow> t \<le> now \<and> op_ok x \<and> trace_ok now ops"

fun trace_end :: "instant \<Rightarrow> 'p rs_trace \<Rightarrow> instant" where
  "trace_end t [] = t"
| "trace_end t ((now, x) # ops) = trace_end now ops"

text \<open>A short run, used by the examples below: three frames, the last two out of order, and two pops.\<close>

definition sample_src :: addr_port where
  "sample_src = zero_addr_port"

definition sample_ops :: "u64 rs_trace" where
  "sample_ops = [(1, OpObserve 5 (Some 5) sample_src), (2, OpObserve 7 (Some 7) sample_src),
     (3, OpObserve 6 (Some 6) sample_src), (4, OpPop), (5, OpPop)]"

definition sample_rs :: "u64 resequencer" where
  "sample_rs = the (New 4 100)"

definition sample_outs :: "u64 item list" where
  "sample_outs = fst (the (run sample_ops sample_rs))"

definition sample_state :: "u64 resequencer" where
  "sample_state = snd (the (run sample_ops sample_rs))"

lemma New_sample: "New 4 100 = Some sample_rs"
  by (simp add: sample_rs_def New_def)

lemma trace_ok_sample: "trace_ok 0 sample_ops" "trace_end 0 sample_ops = 5"
  by code_simp+

lemma run_sample: "run sample_ops sample_rs = Some (sample_outs, sample_state)"
proof -
  have "run sample_ops sample_rs \<noteq> None" by code_simp
  then show ?thesis by (auto simp: sample_outs_def sample_state_def)
qed

lemma good_later: "good t r \<Longrightarrow> t \<le> t' \<Longrightarrow> good t' r"
  by (auto simp: good_def intro: timed_later)

lemma SetHoldBound_fields [simp]:
  "rs_next (SetHoldBound r d) = rs_next r" "rs_ring (SetHoldBound r d) = rs_ring r" "rs_ready (SetHoldBound r d) = rs_ready r"
  "rs_timeout (SetHoldBound r d) = rs_timeout r"
  "rs_window (SetHoldBound r d) = rs_window r" "rs_closed (SetHoldBound r d) = rs_closed r"
  "rs_started (SetHoldBound r d) = rs_started r" "rs_readyPos (SetHoldBound r d) = rs_readyPos r"
  by (simp_all add: SetHoldBound_def Let_def)

lemma SetNotifier_fields [simp]:
  "rs_next (SetNotifier r b) = rs_next r" "rs_ring (SetNotifier r b) = rs_ring r" "rs_ready (SetNotifier r b) = rs_ready r"
  "rs_timeout (SetNotifier r b) = rs_timeout r"
  "rs_window (SetNotifier r b) = rs_window r" "rs_closed (SetNotifier r b) = rs_closed r"
  "rs_started (SetNotifier r b) = rs_started r" "rs_readyPos (SetNotifier r b) = rs_readyPos r"
  by (simp_all add: SetNotifier_def)

lemma apply_op_good:
  assumes "good t r" and "t \<le> now" and "op_ok x"
  shows "\<exists>out r'. apply_op x now r = Some (out, r') \<and> good now r' \<and> rs_window r' = rs_window r \<and>
    rs_timeout r' = rs_timeout r \<and> (rs_closed r' \<longleftrightarrow> rs_closed r \<or> x = OpClose)"
proof (cases x)
  case (OpObserve seq payload src)
  then show ?thesis
    using Observe_spec [OF assms(1,2), of seq payload src] assms(3)
    by (auto simp: base_fields_def start_def)
next
  case OpPop
  obtain r1 where "good now r1" "static r1 = static r" "Pop r now = Some (take_ready r1)"
    using Pop_spec [OF assms(1,2)] by blast
  then show ?thesis
    using OpPop take_ready_good(1,6) [of now r1] by (cases "take_ready r1") (auto simp: static_def)
next
  case (OpHold d)
  then show ?thesis
    using SetHoldBound_good [OF good_later [OF assms(1,2)], of d] by simp
next
  case (OpNotifier b)
  then show ?thesis using SetNotifier_good [OF good_later [OF assms(1,2)], of b] by simp
next
  case (OpRebaseline first)
  then show ?thesis using Rebaseline_spec [OF assms(1), of first now] assms(3) by auto
next
  case OpClose
  then show ?thesis
    using Close_spec [OF good_later [OF assms(1,2)], of now] by (auto simp: static_def)
qed

lemma run_good:
  "good t r \<Longrightarrow> trace_ok t ops \<Longrightarrow>
   \<exists>outs r'. run ops r = Some (outs, r') \<and> good (trace_end t ops) r' \<and> rs_window r' = rs_window r \<and>
     rs_timeout r' = rs_timeout r \<and> (rs_closed r' \<longleftrightarrow> rs_closed r \<or> OpClose \<in> snd ` set ops)"
proof (induction ops arbitrary: t r)
  case (Cons p ops)
  obtain now x where p: "p = (now, x)" by fastforce
  obtain out r1 where r1: "apply_op x now r = Some (out, r1)" "good now r1" "rs_window r1 = rs_window r"
    "rs_timeout r1 = rs_timeout r" "rs_closed r1 \<longleftrightarrow> rs_closed r \<or> x = OpClose"
    using apply_op_good [of t r now x] Cons.prems p by auto
  obtain outs r' where "run ops r1 = Some (outs, r')" "good (trace_end now ops) r'" "rs_window r' = rs_window r1"
    "rs_timeout r' = rs_timeout r1" "rs_closed r' \<longleftrightarrow> rs_closed r1 \<or> OpClose \<in> snd ` set ops"
    using Cons.IH [OF r1(2)] Cons.prems(2) p by auto
  with r1 p show ?case by auto
qed simp

lemma good_bounds:
  assumes "good t r"
  shows "0 \<le> Buffered r" "Buffered r \<le> uint (rs_window r)" "HighWater r \<le> uint (rs_window r)"
    "0 \<le> Pending r" "length (rs_ring r) = unat (rs_window r)"
  using assms buf_le_window [of r] rs_inv_ring [of r]
  by (auto simp: good_def Buffered_def HighWater_def Pending_def rs_inv_def core_def)

text \<open>
  C2: From a new resequencer every sequence of operations, with a clock that does not run
  backwards and sequences below the last 64-bit word, returns: no index is out of range, no panic
  is reached and the expiry loop ends. At most \<open>window\<close> frames are ever buffered.
\<close>

theorem run_total_bounded:
  assumes "New window timeout = Some r" and "trace_ok t ops"
  shows "\<exists>outs r'. run ops r = Some (outs, r') \<and> 0 \<le> Buffered r' \<and> Buffered r' \<le> uint window \<and>
    HighWater r' \<le> uint window \<and> 0 \<le> Pending r' \<and> length (rs_ring r') = unat window"
proof -
  obtain outs r' where "run ops r = Some (outs, r')" "good (trace_end t ops) r'" "rs_window r' = window"
    using run_good [OF good_New(1) [OF assms(1)] assms(2)] good_New(3) [OF assms(1)] by auto
  with good_bounds [OF this(2)] show ?thesis by auto
qed

theorem run_total_bounded_witness:
  "\<exists>outs r'. run sample_ops sample_rs = Some (outs, r') \<and> 0 \<le> Buffered r' \<and> Buffered r' \<le> uint (4 :: u64) \<and>
    HighWater r' \<le> uint (4 :: u64) \<and> 0 \<le> Pending r' \<and> length (rs_ring r') = unat (4 :: u64)"
  by (rule run_total_bounded [OF New_sample trace_ok_sample(1)])

section \<open>Delivery order\<close>

text \<open>
  A tag reads a frame's sequence off its payload. Everything delivered so far is in strictly
  ascending order of tags below the release point, everything buffered carries its sequence as
  its tag, and all of it satisfies \<open>P\<close>.
\<close>

definition item_tag :: "('p \<Rightarrow> u64) \<Rightarrow> 'p item \<Rightarrow> u64" where
  "item_tag tg it = tg (the (it_Payload it))"

definition ascending ::
  "('p \<Rightarrow> u64) \<Rightarrow> ('p item \<Rightarrow> bool) \<Rightarrow> 'p item list \<Rightarrow> u64 \<Rightarrow> 'p buffer \<Rightarrow> bool" where
  "ascending tg P xs nx cont \<longleftrightarrow>
     sorted_wrt (<) (map (item_tag tg) xs) \<and> (\<forall>it\<in>set xs. item_tag tg it < nx \<and> P it) \<and>
     (\<forall>s c. cont s = Some c \<longrightarrow> item_tag tg (slot_item c) = s \<and> P (slot_item c))"

lemma ascending_moves:
  assumes asc: "ascending tg P xs nx cont" and above: "sits_above nx cont"
    and mv: "moves (nx, cont, rd) (nx', cont', rd @ ys)"
  shows "ascending tg P (xs @ ys) nx' cont'"
proof -
  let ?S = "{s \<in> dom cont. s < nx'}"
  note spec = moves_spec [OF mv above]
  have ys: "ys = map (\<lambda>s. slot_item (the (cont s))) (sorted_list_of_set ?S)" using spec by simp
  have cell: "item_tag tg (slot_item (the (cont s))) = s \<and> P (slot_item (the (cont s))) \<and> nx \<le> s"
    if "s \<in> dom cont" for s
    using that asc above by (auto simp: ascending_def sits_above_def)
  have tags: "map (item_tag tg) ys = sorted_list_of_set ?S"
    unfolding ys map_map by (rule map_idI) (use cell in auto)
  have cross: "item_tag tg it < s" if "it \<in> set xs" and "nx \<le> s" for it s
    using that asc by (auto simp: ascending_def intro: order.strict_trans2)
  have "sorted_wrt (<) (map (item_tag tg) (xs @ ys))"
    unfolding map_append tags sorted_wrt_append using asc cell cross by (auto simp: ascending_def)
  moreover have "item_tag tg it < nx' \<and> P it" if "it \<in> set (xs @ ys)" for it
    using that asc cell cross spec by (auto simp: ascending_def ys)
  moreover have "item_tag tg (slot_item c) = s \<and> P (slot_item c)" if "cont' s = Some c" for s c
    using that asc spec by (auto simp: ascending_def restrict_map_def split: if_splits)
  ultimately show ?thesis by (simp add: ascending_def)
qed

definition asc_state :: "('p \<Rightarrow> u64) \<Rightarrow> ('p item \<Rightarrow> bool) \<Rightarrow> 'p item list \<Rightarrow> 'p resequencer \<Rightarrow> bool" where
  "asc_state tg P outs r \<longleftrightarrow> ascending tg P (outs @ pending r) (rs_next r) (content r) \<and>
     (\<not> rs_started r \<longrightarrow> outs @ pending r = [])"

lemma good_above: "good t r \<Longrightarrow> sits_above (rs_next r) (content r)"
  by (auto simp: good_def rs_inv_def core_def intro: cells_sits_above)

lemma asc_state_moves:
  assumes "ascending tg P (outs @ pending r) (rs_next r) (content r)" and "sits_above (rs_next r) (content r)"
    and "moves (view r) (view r')" and "rs_readyPos r' = rs_readyPos r" and "rs_readyPos r \<le> length (rs_ready r)"
  shows "ascending tg P (outs @ pending r') (rs_next r') (content r')"
proof -
  obtain ys where ys: "rs_ready r' = rs_ready r @ ys" using moves_ready [OF assms(3)] by blast
  have "ascending tg P ((outs @ pending r) @ ys) (rs_next r') (content r')"
    using ascending_moves [OF assms(1,2)] assms(3) ys by simp
  then show ?thesis using assms(4,5) ys by simp
qed

text \<open>A frame enters with its own sequence as its tag, unless a re-pin happened.\<close>

lemma ascending_start:
  assumes "good t r" and "asc_state tg P outs r"
  shows "ascending tg P (outs @ pending (start r seq)) (rs_next (start r seq)) (content (start r seq))"
  using assms by (auto simp: asc_state_def start_def good_def ascending_def)

lemma ascending_insert:
  "ascending tg P xs nx cont \<Longrightarrow> item_tag tg (slot_item c) = s \<Longrightarrow> P (slot_item c) \<Longrightarrow>
   ascending tg P xs nx (cont(s \<mapsto> c))"
  by (auto simp: ascending_def)

lemma sits_above_insert:
  "sits_above nx cont \<Longrightarrow> in_window w nx s \<Longrightarrow> sits_above nx (cont(s \<mapsto> c))"
  by (auto simp: sits_above_def in_window_def)

lemma word_neq_plus_one: "(a :: u64) \<noteq> a + 1"
  by simp

lemma Observe_ascending:
  assumes good: "good t r" and later: "t \<le> now" and nmax: "seq \<noteq> - 1" and asc: "asc_state tg P outs r"
    and tag: "tg q = seq" and P: "P \<lparr>it_Payload = Some q, it_Src = src\<rparr>"
    and res: "Observe r seq (Some q) src now = Some (ok, r')" and calm: "rs_resyncs r' = rs_resyncs r"
  shows "asc_state tg P outs r'"
proof -
  let ?s = "start r seq" and ?c = "new_cell seq (Some q) src now"
  note bg = good_start [OF good, of seq]
  from Observe_spec [OF good later nmax, of "Some q" src] res
  have r': "good now r'" "base_fields r' = base_fields ?s"
    "if ok then took ?s seq ?c r' else passed ?s r'" by auto
  note base = base_fieldsD [OF r'(2)]
  have asc0: "ascending tg P (outs @ pending ?s) (rs_next ?s) (content ?s)"
    by (rule ascending_start [OF good asc])
  have rp0: "rs_readyPos ?s \<le> length (rs_ready ?s)" using bg(1) by (simp add: good_def)
  have "ascending tg P (outs @ pending r') (rs_next r') (content r')"
  proof (cases ok)
    case False
    then show ?thesis
      using r'(3) asc_state_moves [OF asc0 good_above [OF bg(1)], of r'] base(4) rp0 by (simp add: passed_def)
  next
    case True
    with r'(3) obtain r1 r2 where r12: "moves (view ?s) (view r1)" "rs_resyncs r1 = rs_resyncs ?s"
      "admitted r1 seq r2 \<or> repinned r1 seq r2" "rs_inv r2" "in_window (rs_window ?s) (rs_next r2) seq"
      "moves (rs_next r2, (content r2)(seq \<mapsto> ?c), rs_ready r2) (view r')" "rs_resyncs r' = rs_resyncs r2"
      by (auto simp: took_def)
    have "moves (view r1) (view r2)"
      using r12(2,3,7) calm bg(5) by (auto simp: admitted_def repinned_def)
    then have mv: "moves (view ?s) (view r2)" using moves_trans [OF r12(1)] by blast
    obtain ys zs where ys: "rs_ready r2 = rs_ready ?s @ ys" "rs_ready r' = rs_ready r2 @ zs"
      using moves_ready [OF mv] moves_ready [OF r12(6)] by blast
    have "ascending tg P ((outs @ pending ?s) @ ys) (rs_next r2) (content r2)"
      using ascending_moves [OF asc0 good_above [OF bg(1)]] mv ys(1) by simp
    then have "ascending tg P ((outs @ pending ?s) @ ys) (rs_next r2) ((content r2)(seq \<mapsto> ?c))"
      using tag P by (intro ascending_insert) (simp_all add: item_tag_def slot_item_def)
    moreover have "sits_above (rs_next r2) ((content r2)(seq \<mapsto> ?c))"
      using r12(4,5) by (intro sits_above_insert [OF cells_sits_above]) (auto simp: rs_inv_def core_def)
    ultimately have "ascending tg P (((outs @ pending ?s) @ ys) @ zs) (rs_next r') (content r')"
      using ascending_moves r12(6) ys(2) by metis
    then show ?thesis using base(4) rp0 ys by simp
  qed
  then show ?thesis using base(3) bg(2) by (simp add: asc_state_def)
qed

lemma moves_empty:
  "moves (nx, cont, rd) (nx', cont', rd') \<Longrightarrow> cont = Map.empty \<Longrightarrow> cont' = Map.empty \<and> rd' = rd"
  by (induction "(nx, cont, rd)" "(nx', cont', rd')" arbitrary: nx cont rd rule: moves.induct) auto

lemma Pop_ascending:
  assumes good: "good t r" and later: "t \<le> now" and asc: "asc_state tg P outs r" and res: "Pop r now = Some (out, r')"
  shows "asc_state tg P (outs @ (case out of None \<Rightarrow> [] | Some it \<Rightarrow> [it])) r'"
proof -
  obtain r1 where r1: "good now r1" "moves (view r) (view r1)" "static r1 = static r" "take_ready r1 = (out, r')"
    using Pop_spec [OF good later] res by auto
  note tk = take_ready_good [OF r1(1), unfolded r1(4) fst_conv snd_conv]
  have "ascending tg P (outs @ pending r1) (rs_next r1) (content r1)"
    using asc_state_moves [OF _ good_above [OF good] r1(2) static_eqD(4) [OF r1(3)]] asc good
    by (auto simp: asc_state_def good_def)
  then have "ascending tg P ((outs @ (case out of None \<Rightarrow> [] | Some it \<Rightarrow> [it])) @ pending r') (rs_next r') (content r')"
    using tk(2,4,5) by simp
  moreover have "(outs @ (case out of None \<Rightarrow> [] | Some it \<Rightarrow> [it])) @ pending r' = []" if "\<not> rs_started r'"
  proof -
    have ns: "\<not> rs_started r" using that static_eqD(3) [OF tk(6)] static_eqD(3) [OF r1(3)] by simp
    then have "content r = Map.empty" and none: "outs @ pending r = []"
      using good asc by (simp_all add: good_def asc_state_def)
    then have "pending r1 = pending r"
      using moves_empty [OF r1(2)] static_eqD(4) [OF r1(3)] by simp
    then show ?thesis using none tk(2) by simp
  qed
  ultimately show ?thesis by (simp add: asc_state_def)
qed

text \<open>Every observed frame carries its sequence as its tag, and its item satisfies \<open>P\<close>.\<close>

fun tagged_op :: "('p \<Rightarrow> u64) \<Rightarrow> 'p rs_op \<Rightarrow> bool" where
  "tagged_op tg (OpObserve seq (Some q) src) \<longleftrightarrow> tg q = seq"
| "tagged_op tg (OpObserve seq None src) \<longleftrightarrow> False"
| "tagged_op tg _ \<longleftrightarrow> True"

definition tagged :: "('p \<Rightarrow> u64) \<Rightarrow> 'p rs_trace \<Rightarrow> bool" where
  "tagged tg ops \<longleftrightarrow> list_all (\<lambda>p. tagged_op tg (snd p)) ops"

text \<open>No discontinuity: no rebaseline, and no re-pin at any step.\<close>

fun steady :: "'p rs_trace \<Rightarrow> 'p resequencer \<Rightarrow> bool" where
  "steady [] r \<longleftrightarrow> True"
| "steady ((now, OpRebaseline first) # ops) r \<longleftrightarrow> False"
| "steady ((now, x) # ops) r \<longleftrightarrow>
     (case apply_op x now r of
        None \<Rightarrow> False
      | Some (out, r') \<Rightarrow> rs_resyncs r' = rs_resyncs r \<and> steady ops r')"

fun offered :: "'p rs_trace \<Rightarrow> 'p item list" where
  "offered [] = []"
| "offered ((now, OpObserve seq payload src) # ops) = \<lparr>it_Payload = payload, it_Src = src\<rparr> # offered ops"
| "offered ((now, x) # ops) = offered ops"

lemma apply_op_ascending:
  assumes good: "good t r" and later: "t \<le> now" and ok: "op_ok x" and asc: "asc_state tg P outs r"
    and tag: "tagged_op tg x" and P: "\<And>it. it \<in> set (offered [(now, x)]) \<Longrightarrow> P it"
    and res: "apply_op x now r = Some (out, r')" and calm: "rs_resyncs r' = rs_resyncs r"
    and nre: "\<And>first. x \<noteq> OpRebaseline first"
  shows "asc_state tg P (outs @ (case out of None \<Rightarrow> [] | Some it \<Rightarrow> [it])) r'"
proof (cases x)
  case (OpObserve seq payload src)
  then obtain q where "payload = Some q" "tg q = seq" using tag by (cases payload) auto
  moreover obtain b where "Observe r seq payload src now = Some (b, r')" "out = None"
    using res OpObserve by (cases "Observe r seq payload src now") auto
  ultimately show ?thesis
    using Observe_ascending [OF good later _ asc, where seq = seq and q = q and src = src] OpObserve ok P calm by auto
next
  case OpPop
  then show ?thesis using Pop_ascending [OF good later asc] res by simp
next
  case (OpRebaseline first)
  then show ?thesis using nre by blast
next
  case OpClose
  then show ?thesis
    using res asc Close_spec(2,3) [OF good, of now] by (auto simp: asc_state_def static_def)
qed (use res asc in \<open>auto simp: asc_state_def\<close>)

lemma steady_Cons:
  assumes "steady ((now, x) # ops) r" and "apply_op x now r = Some (out, r')"
  shows "rs_resyncs r' = rs_resyncs r" and "steady ops r'" and "x \<noteq> OpRebaseline first"
  using assms by (cases x; auto)+

lemma run_ascending:
  assumes "good t r" and "trace_ok t ops" and "asc_state tg P outs0 r" and "tagged tg ops"
    and "\<And>it. it \<in> set (offered ops) \<Longrightarrow> P it" and "steady ops r" and "run ops r = Some (outs, r')"
  shows "asc_state tg P (outs0 @ outs) r'"
  using assms
proof (induction ops arbitrary: t r outs0 outs)
  case (Cons p ops)
  obtain now x where p: "p = (now, x)" by fastforce
  have ok: "t \<le> now" "op_ok x" "trace_ok now ops" "tagged_op tg x" "tagged tg ops"
    using Cons.prems(2,4) p by (simp_all add: tagged_def)
  obtain out r1 where r1: "apply_op x now r = Some (out, r1)" "good now r1"
    using apply_op_good [OF Cons.prems(1) ok(1,2)] by blast
  obtain outs1 where outs1: "run ops r1 = Some (outs1, r')"
    "outs = (case out of None \<Rightarrow> [] | Some it \<Rightarrow> [it]) @ outs1"
    using Cons.prems(7) p r1(1) by (cases "run ops r1") (auto split: option.splits)
  have off: "set (offered [(now, x)]) \<union> set (offered ops) \<subseteq> set (offered (p # ops))"
    using p by (cases x) auto
  have st: "rs_resyncs r1 = rs_resyncs r" "steady ops r1" "\<And>first. x \<noteq> OpRebaseline first"
    using steady_Cons [OF Cons.prems(6) [unfolded p] r1(1)] by auto
  have "asc_state tg P (outs0 @ (case out of None \<Rightarrow> [] | Some it \<Rightarrow> [it])) r1"
    by (rule apply_op_ascending [OF Cons.prems(1) ok(1,2) Cons.prems(3) ok(4) _ r1(1) st(1,3)])
      (use Cons.prems(5) off in blast)
  from Cons.IH [OF r1(2) ok(3) this ok(5) _ st(2) outs1(1)] Cons.prems(5) off show ?case
    by (auto simp: outs1(2))
qed simp

text \<open>
  C1: Between discontinuities delivery is strictly ascending: in a run without a rebaseline or a
  re-pin, the sequences of the popped frames strictly increase, so none is delivered twice or
  late, and each popped item is one of the observed frames.
\<close>

theorem delivery_ascending:
  assumes "New window timeout = Some r" and "trace_ok t ops" and "tagged tg ops" and "steady ops r"
    and "run ops r = Some (outs, r')"
  shows "sorted_wrt (<) (map (item_tag tg) outs) \<and> set outs \<subseteq> set (offered ops)"
proof -
  note new = good_New [OF assms(1)]
  have "content r = Map.empty" using new(1,2) by (simp add: good_def)
  then have "asc_state tg (\<lambda>it. it \<in> set (offered ops)) [] r"
    using new(5,6) by (simp add: asc_state_def ascending_def)
  from run_ascending [OF new(1) assms(2) this assms(3) _ assms(4,5)]
  show ?thesis by (auto simp: asc_state_def ascending_def sorted_wrt_append)
qed

theorem delivery_ascending_witness:
  "map (item_tag id) sample_outs = [5, 6] \<and> sorted_wrt (<) (map (item_tag id) sample_outs) \<and>
   set sample_outs \<subseteq> set (offered sample_ops)"
proof -
  have "tagged id sample_ops" "steady sample_ops sample_rs" by code_simp+
  moreover have "map (item_tag id) sample_outs = [5, 6]" by code_simp
  ultimately show ?thesis
    using delivery_ascending [OF New_sample trace_ok_sample(1) _ _ run_sample, of id] by blast
qed

section \<open>Timeout progress\<close>

lemma ring_content:
  assumes "rs_inv r" and "c \<in> set (rs_ring r)" and "sl_occupied c"
  shows "content r (sl_seq c) = Some c"
  using assms by (auto simp: rs_inv_def core_def ring_ok_def cells_Some in_set_conv_nth)

lemma waiting_bound:
  assumes "good t r" and "\<not> rs_closed r" and "rs_waiting r \<longrightarrow> now < rs_deadline r"
    and "c \<in> set (rs_ring r)" and "sl_occupied c"
  shows "now < sl_observedAt c + rs_timeout r"
proof -
  have parts: "rs_inv r" "timed t r" "stable r" using assms(1) by (simp_all add: good_def)
  have c: "content r (sl_seq c) = Some c" by (rule ring_content [OF parts(1) assms(4,5)])
  then have "0 < rs_buf r" using buf_pos [OF parts(1)] by blast
  then have w: "rs_waiting r" using parts(3) assms(2) by (simp add: stable_def)
  then show ?thesis using timedD(3) [OF parts(2) w c] assms(3) by simp
qed

text \<open>
  C3: No frame waits past the timeout. After any run that did not close the resequencer, a pop
  at a later time leaves buffered only frames observed less than the construction timeout ago,
  whatever hold bounds were installed on the way: every older frame has been released.
\<close>

theorem pop_timeout:
  assumes "New window timeout = Some r0" and "trace_ok t ops" and "run ops r0 = Some (outs, r)"
    and "OpClose \<notin> snd ` set ops" and "trace_end t ops \<le> now"
  shows "\<exists>out r'. Pop r now = Some (out, r') \<and>
    (\<forall>c\<in>set (rs_ring r'). sl_occupied c \<longrightarrow> now < sl_observedAt c + timeout)"
proof -
  note new = good_New [OF assms(1)]
  have r: "good (trace_end t ops) r" "rs_timeout r = timeout" "\<not> rs_closed r"
    using run_good [OF new(1) assms(2)] assms(3,4) new(4,7) by auto
  obtain r1 where r1: "good now r1" "static r1 = static r" "rs_waiting r1 \<longrightarrow> now < rs_deadline r1"
    "Pop r now = Some (take_ready r1)"
    using Pop_spec [OF r(1) assms(5)] by blast
  have ring: "rs_ring (snd (take_ready r1)) = rs_ring r1" by (simp add: take_ready_def Let_def)
  have "now < sl_observedAt c + timeout" if "c \<in> set (rs_ring r1)" "sl_occupied c" for c
    using waiting_bound [OF r1(1) _ r1(3) that] static_eqD(2,6) [OF r1(2)] r(2,3) by simp
  then show ?thesis using r1(4) ring by (cases "take_ready r1") auto
qed

theorem pop_timeout_witness:
  "\<exists>out r'. Pop sample_state 6 = Some (out, r') \<and>
    (\<forall>c\<in>set (rs_ring r'). sl_occupied c \<longrightarrow> 6 < sl_observedAt c + 100)"
proof -
  have "OpClose \<notin> snd ` set sample_ops" by (simp add: sample_ops_def)
  then show ?thesis
    using pop_timeout [OF New_sample trace_ok_sample(1) run_sample, of 6] by (simp add: trace_ok_sample)
qed

section \<open>The discontinuity guard\<close>

definition suspect :: "'p resequencer \<Rightarrow> u64 \<Rightarrow> bool" where
  "suspect r seq \<longleftrightarrow>
     (if seq < rs_next r then rs_next r - seq > rs_window r
      else seq - rs_next r \<ge> resyncFactor * rs_window r)"

definition unexpired :: "'p resequencer \<Rightarrow> instant \<Rightarrow> bool" where
  "unexpired r now \<longleftrightarrow> (rs_waiting r \<longrightarrow> now < rs_deadline r)"

lemma expire_unexpired: "unexpired r now \<Longrightarrow> expire r now = Some r"
  by (simp add: unexpired_def expire.simps)

lemma start_started [simp]: "rs_started r \<Longrightarrow> start r seq = r"
  by (simp add: start_def)

lemma Observe_suspect_drop:
  assumes "rs_started r" and "unexpired r now" and "suspect r seq" and "tryResync r seq now = (False, r')"
  shows "Observe r seq payload src now = Some (False, r'\<lparr>rs_dropSuspect := rs_dropSuspect r' + 1\<rparr>)"
proof -
  have "admit r seq now = Some (False, r'\<lparr>rs_dropSuspect := rs_dropSuspect r' + 1\<rparr>)"
    using assms(3,4) by (auto simp: admit_def suspect_def suspect_drop_def split: if_splits)
  then show ?thesis
    using assms(1) expire_unexpired [OF assms(2)] by (simp add: Observe_def)
qed

lemma suspect_same: "same_core r r' \<Longrightarrow> suspect r' seq = suspect r seq"
  using base_fieldsD(1) [of r' r] by (simp add: same_core_def suspect_def)

lemma unexpired_same: "same_core r r' \<Longrightarrow> unexpired r' now = unexpired r now"
  using same_core_keeps(5,9) [of r r'] by (simp add: unexpired_def)

lemma started_same: "same_core r r' \<Longrightarrow> rs_started r' = rs_started r"
  using base_fieldsD(3) [of r' r] by (simp add: same_core_def)

lemma same_core_trans: "same_core r r' \<Longrightarrow> same_core r' r'' \<Longrightarrow> same_core r r''"
  by (simp add: same_core_def)

text \<open>The run of a lone repeated sequence never grows past that sequence.\<close>

definition lone_run :: "u64 \<Rightarrow> 'p resequencer \<Rightarrow> bool" where
  "lone_run seq r \<longleftrightarrow> rs_resyncSeqs r = [] \<or>
     (rs_resyncSeqs r = [seq] \<and> rs_resyncLo r = seq \<and> rs_resyncHi r = seq)"

lemma tryResync_lone:
  assumes "lone_run seq r" and "rs_window r \<noteq> 0"
  shows "\<exists>r'. tryResync r seq now = (False, r') \<and> same_core r r' \<and> lone_run seq r' \<and> rs_resyncs r' = rs_resyncs r"
proof (cases "rs_resyncSeqs r = []")
  case True
  then show ?thesis
    by (simp add: tryResync_def lone_run_def)
next
  case False
  then have "\<not> spanExceeds r seq" "runContains r seq"
    using assms by (auto simp: lone_run_def spanExceeds_def runContains_def Let_def)
  then show ?thesis using assms(1) False by (simp add: tryResync_def)
qed

lemma lone_observations:
  assumes "rs_started r" and "suspect r seq" and "lone_run seq r" and "rs_window r \<noteq> 0"
    and "list_all (unexpired r) (map fst obs)"
  shows "\<exists>r'. run (map (\<lambda>(now, payload, src). (now, OpObserve seq payload src)) obs) r = Some ([], r') \<and>
    same_core r r' \<and> rs_resyncs r' = rs_resyncs r"
  using assms
proof (induction obs arbitrary: r)
  case (Cons x obs)
  obtain now payload src where x: "x = (now, payload, src)" by (cases x)
  obtain r1 where r1: "tryResync r seq now = (False, r1)" "same_core r r1" "lone_run seq r1" "rs_resyncs r1 = rs_resyncs r"
    using tryResync_lone [OF Cons.prems(3,4)] by blast
  let ?r = "r1\<lparr>rs_dropSuspect := rs_dropSuspect r1 + 1\<rparr>"
  have obs: "Observe r seq payload src now = Some (False, ?r)"
    using Observe_suspect_drop [OF Cons.prems(1) _ Cons.prems(2) r1(1)] Cons.prems(5) x by simp
  have same: "same_core r ?r" using r1(2) by simp
  have "list_all (unexpired ?r) (map fst obs)"
    using Cons.prems(5) unexpired_same [OF same] by (simp add: list_all_iff)
  moreover have "rs_window ?r = rs_window r" using base_fieldsD(1) same_core_keeps(7) [OF same] by blast
  ultimately obtain r' where "run (map (\<lambda>(now, payload, src). (now, OpObserve seq payload src)) obs) ?r = Some ([], r')"
    "same_core ?r r'" "rs_resyncs r' = rs_resyncs ?r"
    using Cons.IH [of ?r] Cons.prems suspect_same [OF same] started_same [OF same] r1(3) by (auto simp: lone_run_def)
  then show ?case
    using obs x r1(4) same_core_trans [OF same] by auto
qed auto

text \<open>
  C30: A single sequence far outside the window, delivered any number of times, never moves the
  release point: as long as no hold expires meanwhile, the release point, the buffered frames,
  the released frames and the re-pin count stay what they were.
\<close>

theorem repeated_suspect_ignored:
  assumes "New window timeout = Some r0" and "trace_ok t ops" and "run ops r0 = Some (outs, r)"
    and "rs_started r" and "rs_resyncSeqs r = []" and "suspect r seq"
    and "list_all (unexpired r) (map fst obs)"
  shows "\<exists>r'. run (map (\<lambda>(now, payload, src). (now, OpObserve seq payload src)) obs) r = Some ([], r') \<and>
    rs_next r' = rs_next r \<and> rs_ring r' = rs_ring r \<and> rs_ready r' = rs_ready r \<and> rs_resyncs r' = rs_resyncs r"
proof -
  have "rs_inv r" using run_good [OF good_New(1) [OF assms(1)] assms(2)] assms(3) by (auto simp: good_def)
  then have "rs_window r \<noteq> 0" by (simp add: rs_inv_def core_def ring_ok_def)
  from lone_observations [OF assms(4,6) _ this assms(7)] assms(5)
  show ?thesis by (auto simp: lone_run_def same_core_def)
qed

theorem repeated_suspect_ignored_witness:
  "\<exists>r'. run (map (\<lambda>(now, payload, src). (now, OpObserve 1000 payload src))
       [(6, Some 1000, sample_src), (7, Some 1000, sample_src), (8, None, sample_src)]) sample_state = Some ([], r') \<and>
    rs_next r' = rs_next sample_state \<and> rs_ring r' = rs_ring sample_state \<and>
    rs_ready r' = rs_ready sample_state \<and> rs_resyncs r' = rs_resyncs sample_state"
proof -
  have "rs_started sample_state" "rs_resyncSeqs sample_state = []" "suspect sample_state 1000"
    "list_all (unexpired sample_state) (map fst
      [(6, Some 1000, sample_src), (7, Some 1000, sample_src), (8, None :: u64 option, sample_src)])"
    by code_simp+
  then show ?thesis by (rule repeated_suspect_ignored [OF New_sample trace_ok_sample(1) run_sample])
qed

text \<open>What entering a frame does, exactly: the release point moves to the first gap.\<close>

lemma enter_exact:
  fixes r :: "'p resequencer" and payload :: "'p option" and src :: addr_port
  assumes inv: "rs_inv r" and timed: "timed now r" and win: "in_window (rs_window r) (rs_next r) seq"
    and free: "content r seq = None" and waiting: "rs_waiting r \<longrightarrow> dom (content r) \<noteq> {}"
    and hw: "rs_highWater r \<le> uint (rs_window r)" and rp: "rs_readyPos r \<le> length (rs_ready r)"
    and guard: "guard_ok r" and started: "rs_started r"
  defines "cont \<equiv> (content r)(seq \<mapsto> new_cell seq payload src now)"
  shows "\<exists>r1 r'. drain (place r seq payload src now) = Some r1 \<and> arm r1 now = Some r' \<and> good now r' \<and>
    base_fields r' = base_fields r \<and> rs_next r \<le> rs_next r' \<and> cont (rs_next r') = None \<and>
    (\<forall>s. rs_next r \<le> s \<longrightarrow> s < rs_next r' \<longrightarrow> cont s \<noteq> None) \<and>
    content r' = cont |` {s. rs_next r' \<le> s} \<and>
    rs_ready r' = rs_ready r @ map (\<lambda>s. slot_item (the (cont s))) (sorted_list_of_set {s \<in> dom cont. s < rs_next r'})"
proof -
  obtain r1 r' where r': "drain (place r seq payload src now) = Some r1" "arm r1 now = Some r'" "good now r'"
    "moves (rs_next r, cont, rs_ready r) (view r')" "base_fields r' = base_fields r" "rs_next r' = rs_next r1"
    using enter_spec [OF inv timed win free waiting hw rp guard started, of payload src]
    unfolding cont_def by blast
  note pl = place_spec [OF inv timed win free waiting, of payload src]
  have view: "rs_next (place r seq payload src now) = rs_next r" "content (place r seq payload src now) = cont"
    using pl(3) by (simp_all add: cont_def)
  have "sits_above (rs_next r) cont"
    unfolding cont_def using inv win
    by (intro sits_above_insert [OF cells_sits_above]) (auto simp: rs_inv_def core_def)
  note spec = moves_spec [OF r'(4) this]
  have "cont s \<noteq> None" if "rs_next r \<le> s" "s < rs_next r'" for s
    using drain_contiguous [OF pl(1) r'(1), of s] that r'(6) view by simp
  moreover have "cont (rs_next r') = None"
  proof -
    have "content r' (rs_next r') = None" using r'(3) by (simp add: good_def stable_def)
    then show ?thesis using spec by (simp add: restrict_map_def)
  qed
  ultimately show ?thesis using r'(1,2,3,5) spec by blast
qed

subsection \<open>Re-pinning on a corroborated discontinuity\<close>

lemma word_span_mono:
  fixes lo hi lo' hi' :: u64
  assumes "lo' \<le> lo" and "lo \<le> hi" and "hi \<le> hi'"
  shows "hi - lo \<le> hi' - lo'"
  using assms by (simp add: word_le_nat_alt unat_minus_nowrap)

lemma spanExceeds_within:
  assumes "rs_resyncLo r \<le> rs_resyncHi r" and "hi' - lo' < rs_window r"
    and "lo' \<le> rs_resyncLo r" "rs_resyncHi r \<le> hi'" "lo' \<le> seq" "seq \<le> hi'"
  shows "\<not> spanExceeds r seq"
proof -
  let ?lo = "if seq < rs_resyncLo r then seq else rs_resyncLo r"
  let ?hi = "if seq > rs_resyncHi r then seq else rs_resyncHi r"
  have "?hi - ?lo \<le> hi' - lo'"
    using assms by (intro word_span_mono) (auto simp: not_less)
  then show ?thesis using assms(2) unfolding spanExceeds_def Let_def by (simp add: not_le)
qed

lemma tryResync_first:
  "rs_resyncSeqs r = [] \<Longrightarrow>
   tryResync r seq now = (False, r\<lparr>rs_resyncLo := seq, rs_resyncHi := seq, rs_resyncSeqs := [seq]\<rparr>)"
  by (simp add: tryResync_def)

lemma tryResync_second:
  assumes "rs_resyncSeqs r = [s1]" "rs_resyncLo r = s1" "rs_resyncHi r = s1" "s1 \<noteq> s2" "\<not> spanExceeds r s2"
  shows "tryResync r s2 now =
    (False, r\<lparr>rs_resyncLo := min s1 s2, rs_resyncHi := max s1 s2, rs_resyncSeqs := [s1, s2]\<rparr>)"
  using assms
  by (auto simp: tryResync_def runContains_def Let_def resyncCorroborate_def min_def max_def not_le not_less)

lemma tryResync_third:
  assumes "rs_resyncSeqs r = [s1, s2]" "s1 \<noteq> s3" "s2 \<noteq> s3" "\<not> spanExceeds r s3"
  shows "\<exists>r'. tryResync r s3 now = (True, resync r' s3 now) \<and> same_core r r'"
  using assms by (auto simp: tryResync_def runContains_def Let_def resyncCorroborate_def)

lemma Observe_repin:
  assumes good: "good t r" and later: "t \<le> now" and "rs_started r" and "unexpired r now" and "suspect r seq"
    and nmax: "seq \<noteq> - 1" and trs: "tryResync r seq now = (True, resync r0 seq now)" and same: "same_core r r0"
  shows "\<exists>r'. Observe r seq payload src now = Some (True, r') \<and> rs_next r' = seq + 1 \<and>
    rs_ready r' = rs_ready r @ [\<lparr>it_Payload = payload, it_Src = src\<rparr>] \<and> Buffered r' = 0"
proof -
  let ?r = "resync r0 seq now"
  note eqs = same_core_keeps [OF same]
  have inv0: "rs_inv r0" "timed now r0" "rs_readyPos r0 \<le> length (rs_ready r0)" "rs_started r0"
    "rs_highWater r0 \<le> uint (rs_window r0)"
    using good later eqs assms(3) timed_later base_fieldsD [OF eqs(7)] by (auto simp: good_def)
  note rs = resync_spec [OF inv0(1,2), where base = seq and now = now]
  note base = base_fieldsD [OF rs(8)]
  have win: "in_window (rs_window ?r) (rs_next ?r) seq"
    using inv_window_pos [OF rs(1)] nmax rs(4) by (simp add: in_window_def)
  have "admit r seq now = Some (True, ?r)"
    using assms(5) trs by (auto simp: admit_def suspect_def suspect_drop_def split: if_splits)
  then have obs: "Observe r seq payload src now = do {
      cell \<leftarrow> cell_at ?r seq;
      if sl_occupied cell \<and> sl_seq cell = seq then Some (False, ?r\<lparr>rs_dropDup := rs_dropDup ?r + 1\<rparr>)
      else do {r \<leftarrow> drain (place ?r seq payload src now); r \<leftarrow> arm r now; Some (True, r)}}"
    using assms(3) expire_unexpired [OF assms(4)] by (simp add: Observe_def)
  have free: "content ?r seq = None" by (simp add: rs(3))
  have rest: "rs_waiting ?r \<longrightarrow> dom (content ?r) \<noteq> {}" "rs_highWater ?r \<le> uint (rs_window ?r)"
    "rs_readyPos ?r \<le> length (rs_ready ?r)" "rs_started ?r"
    using rs(5,6,9) base(1,3,4) inv0(3,4,5) by simp_all
  let ?cont = "[seq \<mapsto> new_cell seq payload src now]"
  have cont: "(content ?r)(seq \<mapsto> new_cell seq payload src now) = ?cont" by (simp add: rs(3))
  obtain r1 r' where r': "drain (place ?r seq payload src now) = Some r1" "arm r1 now = Some r'" "good now r'"
    "seq \<le> rs_next r'" "?cont (rs_next r') = None" "\<forall>s. seq \<le> s \<longrightarrow> s < rs_next r' \<longrightarrow> ?cont s \<noteq> None"
    "content r' = ?cont |` {s. rs_next r' \<le> s}"
    "rs_ready r' = rs_ready r0 @ map (\<lambda>s. slot_item (the (?cont s))) (sorted_list_of_set {s \<in> dom ?cont. s < rs_next r'})"
    using enter_exact [OF rs(1) rs(2) [where t' = now] win free rest(1-3) rs(11) rest(4), of payload src]
    unfolding cont rs(4,5) by blast
  have lt: "seq < rs_next r'" using r'(4,5) by (auto simp: order.strict_iff_order)
  have nx: "rs_next r' = seq + 1"
  proof (rule order.antisym)
    show "seq + 1 \<le> rs_next r'" by (rule succ_not_max(2) [OF nmax lt])
    show "rs_next r' \<le> seq + 1"
      using r'(6) [rule_format, of "seq + 1"] succ_not_max(1) [OF nmax] less_imp_le
      by (force simp: not_less [symmetric])
  qed
  have "{s \<in> dom ?cont. s < rs_next r'} = {seq}" using lt by auto
  then have "rs_ready r' = rs_ready r @ [\<lparr>it_Payload = payload, it_Src = src\<rparr>]"
    using r'(8) eqs(4) by (simp add: slot_item_def)
  moreover have "Buffered r' = 0"
  proof -
    have "content r' = Map.empty" using r'(7) lt by (auto simp: restrict_map_def fun_eq_iff)
    then have "\<not> 0 < rs_buf r'" using buf_pos [of r'] r'(3) by (simp add: good_def)
    then show ?thesis using good_bounds(1) [OF r'(3)] by (simp add: Buffered_def)
  qed
  moreover have "Observe r seq payload src now = Some (True, r')"
    using obs inv_cell_at [OF rs(1), of seq] head_content [of ?r seq] rs(3) r'(1,2) by auto
  ultimately show ?thesis using nx by blast
qed

text \<open>
  C31: Three distinct far-off sequences that lie within one window of each other re-pin the
  release point: the third is delivered at once, the buffer of the old stream is discarded and
  the release point continues after it. What had been released before is still delivered.
\<close>

theorem corroborated_resync:
  assumes "New window timeout = Some r0" and "trace_ok t ops" and "run ops r0 = Some (outs, r)"
    and "rs_started r" and "rs_resyncSeqs r = []" and "list_all (suspect r) [s1, s2, s3]"
    and "distinct [s1, s2, s3]" and "max s1 (max s2 s3) - min s1 (min s2 s3) < window" and "s3 \<noteq> - 1"
    and "list_all (unexpired r) [t1, t2, t3]" and "trace_end t ops \<le> t3"
  shows "\<exists>r'. run [(t1, OpObserve s1 p1 a1), (t2, OpObserve s2 p2 a2), (t3, OpObserve s3 p3 a3)] r = Some ([], r') \<and>
    rs_next r' = s3 + 1 \<and> Buffered r' = 0 \<and>
    rs_ready r' = rs_ready r @ [\<lparr>it_Payload = p3, it_Src = a3\<rparr>]"
proof -
  have good: "good (trace_end t ops) r" and w: "rs_window r = window"
    using run_good [OF good_New(1) [OF assms(1)] assms(2)] assms(3) good_New(3) [OF assms(1)] by auto
  define r1 where "r1 = r\<lparr>rs_resyncLo := s1, rs_resyncHi := s1, rs_resyncSeqs := [s1],
    rs_dropSuspect := rs_dropSuspect r + 1\<rparr>"
  define r2 where "r2 = r1\<lparr>rs_resyncLo := min s1 s2, rs_resyncHi := max s1 s2, rs_resyncSeqs := [s1, s2],
    rs_dropSuspect := rs_dropSuspect r1 + 1\<rparr>"
  have same: "same_core r r1" "same_core r r2" by (simp_all add: r1_def r2_def)
  have o1: "Observe r s1 p1 a1 t1 = Some (False, r1)"
    using Observe_suspect_drop [OF assms(4) _ _ tryResync_first [OF assms(5)], of t1 s1 p1 a1] assms(6,10)
    by (simp add: r1_def)
  have "\<not> spanExceeds r1 s2"
    by (rule spanExceeds_within [of r1 "max s1 (max s2 s3)" "min s1 (min s2 s3)"])
      (use assms(8) w in \<open>auto simp: r1_def min_le_iff_disj le_max_iff_disj\<close>)
  then have "tryResync r1 s2 t2 =
      (False, r1\<lparr>rs_resyncLo := min s1 s2, rs_resyncHi := max s1 s2, rs_resyncSeqs := [s1, s2]\<rparr>)"
    using assms(7) by (intro tryResync_second) (auto simp: r1_def)
  from Observe_suspect_drop [OF _ _ _ this, of p2 a2]
  have o2: "Observe r1 s2 p2 a2 t2 = Some (False, r2)"
    using assms(4,6,10) started_same [OF same(1)] unexpired_same [OF same(1)] suspect_same [OF same(1)]
    by (simp add: r2_def)
  have "\<not> spanExceeds r2 s3"
    by (rule spanExceeds_within [of r2 "max s1 (max s2 s3)" "min s1 (min s2 s3)"])
      (use assms(8) w in \<open>auto simp: r2_def r1_def min_def max_def\<close>)
  then obtain rr where try3: "tryResync r2 s3 t3 = (True, resync rr s3 t3)" "same_core r2 rr"
    using tryResync_third [of r2 s1 s2 s3] assms(7) by (auto simp: r2_def)
  have "good (trace_end t ops) r2"
    using good same_core_keeps [OF same(2)] base_fieldsD [OF same_core_keeps(7) [OF same(2)]]
    by (auto simp: good_def guard_ok_def r2_def resyncCorroborate_def r1_def)
  from Observe_repin [OF this assms(11) _ _ _ assms(9) try3, of p3 a3]
  obtain r' where "Observe r2 s3 p3 a3 t3 = Some (True, r')" "rs_next r' = s3 + 1" "Buffered r' = 0"
    "rs_ready r' = rs_ready r2 @ [\<lparr>it_Payload = p3, it_Src = a3\<rparr>]"
    using assms(4,6,10) started_same [OF same(2)] unexpired_same [OF same(2)] suspect_same [OF same(2)] by auto
  then show ?thesis using o1 o2 same_core_keeps(4) [OF same(2)] by simp
qed

theorem corroborated_resync_witness:
  "\<exists>r'. run [(6, OpObserve 1000 (Some 1000) sample_src), (7, OpObserve 1002 (Some 1002) sample_src),
      (8, OpObserve 1001 (Some 1001) sample_src)] sample_state = Some ([], r') \<and>
    rs_next r' = 1001 + 1 \<and> Buffered r' = 0 \<and>
    rs_ready r' = rs_ready sample_state @ [\<lparr>it_Payload = Some 1001, it_Src = sample_src\<rparr>]"
proof -
  have "rs_started sample_state" "rs_resyncSeqs sample_state = []"
    "list_all (suspect sample_state) [1000, 1002, 1001]" "distinct [1000, 1002, 1001 :: u64]"
    "max 1000 (max 1002 1001) - min 1000 (min 1002 1001) < (4 :: u64)" "1001 \<noteq> (- 1 :: u64)"
    "list_all (unexpired sample_state) [6, 7, 8]" "trace_end 0 sample_ops \<le> 8"
    by code_simp+
  then show ?thesis by (rule corroborated_resync [OF New_sample trace_ok_sample(1) run_sample])
qed

end
