(* ===== verification/Reseq_Reorder.thy ===== *)
theory Reseq_Reorder
  imports Reseq_Order
begin

text \<open>
  Reordering inside the resequencer's window: whatever the order in which the frames of a window
  arrive, all of them come out, in sequence order.
\<close>

section \<open>Reordering inside the window\<close>

text \<open>
  Frames of the window observed in any order, with no hold expiring: the release point is the
  first sequence not yet observed, everything below has been released in order, everything above
  is buffered.
\<close>

definition frame_item :: "(u64 \<Rightarrow> 'p option) \<Rightarrow> (u64 \<Rightarrow> addr_port) \<Rightarrow> u64 \<Rightarrow> 'p item" where
  "frame_item pay src s = \<lparr>it_Payload = pay s, it_Src = src s\<rparr>"

definition caught_up ::
  "(u64 \<Rightarrow> 'p option) \<Rightarrow> (u64 \<Rightarrow> addr_port) \<Rightarrow> u64 \<Rightarrow> 'p item list \<Rightarrow> u64 set \<Rightarrow> 'p resequencer \<Rightarrow> bool" where
  "caught_up pay src n rd S r \<longleftrightarrow>
     n \<le> rs_next r \<and> {n..<rs_next r} \<subseteq> S \<and> rs_next r \<notin> S \<and>
     dom (content r) = {s \<in> S. rs_next r \<le> s} \<and>
     (\<forall>s c. content r s = Some c \<longrightarrow> slot_item c = frame_item pay src s) \<and>
     rs_ready r = rd @ map (frame_item pay src) (sorted_list_of_set {n..<rs_next r})"

fun unexpired_run :: "'p rs_trace \<Rightarrow> 'p resequencer \<Rightarrow> bool" where
  "unexpired_run [] r \<longleftrightarrow> True"
| "unexpired_run ((now, x) # ops) r \<longleftrightarrow> unexpired r now \<and>
     (case apply_op x now r of None \<Rightarrow> False | Some (out, r') \<Rightarrow> unexpired_run ops r')"

lemma sorted_list_of_set_split:
  fixes a b c :: u64
  assumes "a \<le> b" and "b \<le> c"
  shows "sorted_list_of_set {a..<c} = sorted_list_of_set {a..<b} @ sorted_list_of_set {b..<c}"
proof (rule sorted_distinct_set_unique)
  show "sorted (sorted_list_of_set {a..<b} @ sorted_list_of_set {b..<c})"
    by (auto simp: sorted_append intro: less_imp_le order.trans)
  show "set (sorted_list_of_set {a..<c}) = set (sorted_list_of_set {a..<b} @ sorted_list_of_set {b..<c})"
    using assms by (auto intro: order.trans order.strict_trans2)
qed auto

lemma Observe_near:
  assumes good: "good t r" and later: "t \<le> now" and started: "rs_started r" and unexp: "unexpired r now"
    and small: "unat (rs_window r) < 2 ^ 62" and win: "in_window (rs_window r) (rs_next r) seq"
    and free: "content r seq = None"
  shows "\<exists>r'. Observe r seq payload src now = Some (True, r') \<and> good now r' \<and> base_fields r' = base_fields r \<and>
    rs_next r \<le> rs_next r' \<and> ((content r)(seq \<mapsto> new_cell seq payload src now)) (rs_next r') = None \<and>
    (\<forall>s. rs_next r \<le> s \<longrightarrow> s < rs_next r' \<longrightarrow> ((content r)(seq \<mapsto> new_cell seq payload src now)) s \<noteq> None) \<and>
    content r' = (content r)(seq \<mapsto> new_cell seq payload src now) |` {s. rs_next r' \<le> s} \<and>
    rs_ready r' = rs_ready r @ map (\<lambda>s. slot_item (the (((content r)(seq \<mapsto> new_cell seq payload src now)) s)))
      (sorted_list_of_set {s \<in> dom ((content r)(seq \<mapsto> new_cell seq payload src now)). s < rs_next r'})"
proof -
  let ?r = "resyncReset r"
  note same = same_core_keeps [OF same_core_updates(2) [of r]]
  note base = base_fieldsD [OF same(7)]
  have diff: "unat (seq - rs_next r) = unat seq - unat (rs_next r)" "rs_next r \<le> seq"
    using win by (simp_all add: in_window_def unat_minus_nowrap)
  have four: "unat (resyncFactor * rs_window r) = 4 * unat (rs_window r)"
    using small unat_mult_lem [of resyncFactor "rs_window r"] by (simp add: resyncFactor_def)
  have "\<not> resyncFactor * rs_window r \<le> seq - rs_next r" "\<not> rs_window r \<le> seq - rs_next r"
    using win diff four inv_window_pos [of r] good by (auto simp: in_window_def word_le_nat_alt good_def)
  then have "admit r seq now = Some (True, ?r)"
    using diff(2) base(1) same(4) by (auto simp: admit_def Let_def)
  then have obs: "Observe r seq payload src now = do {
      cell \<leftarrow> cell_at ?r seq;
      if sl_occupied cell \<and> sl_seq cell = seq then Some (False, ?r\<lparr>rs_dropDup := rs_dropDup ?r + 1\<rparr>)
      else do {r \<leftarrow> drain (place ?r seq payload src now); r \<leftarrow> arm r now; Some (True, r)}}"
    using started expire_unexpired [OF unexp] by (simp add: Observe_def)
  have inv: "rs_inv ?r" "timed now ?r" "in_window (rs_window ?r) (rs_next ?r) seq" "content ?r seq = None"
    "rs_waiting ?r \<longrightarrow> dom (content ?r) \<noteq> {}" "rs_highWater ?r \<le> uint (rs_window ?r)"
    "rs_readyPos ?r \<le> length (rs_ready ?r)" "rs_started ?r"
    using good later started win free same base timed_later buf_pos [of r] by (auto simp: good_def stable_def)
  have eqs: "content ?r = content r" "rs_next ?r = rs_next r" "rs_ready ?r = rs_ready r" using same(4) by simp_all
  from enter_exact [OF inv(1-7) guard_ok_reset(1) inv(8), of payload src]
  obtain r1 r' where r': "drain (place ?r seq payload src now) = Some r1" "arm r1 now = Some r'" "good now r'"
    "base_fields r' = base_fields ?r" "rs_next r \<le> rs_next r'"
    "((content r)(seq \<mapsto> new_cell seq payload src now)) (rs_next r') = None"
    "\<forall>s. rs_next r \<le> s \<longrightarrow> s < rs_next r' \<longrightarrow> ((content r)(seq \<mapsto> new_cell seq payload src now)) s \<noteq> None"
    "content r' = (content r)(seq \<mapsto> new_cell seq payload src now) |` {s. rs_next r' \<le> s}"
    "rs_ready r' = rs_ready r @ map (\<lambda>s. slot_item (the (((content r)(seq \<mapsto> new_cell seq payload src now)) s)))
      (sorted_list_of_set {s \<in> dom ((content r)(seq \<mapsto> new_cell seq payload src now)). s < rs_next r'})"
    unfolding eqs by blast
  have "Observe r seq payload src now = Some (True, r')"
    using obs inv_cell_at [OF inv(1), of seq] head_content [of ?r seq] inv(4) r'(1,2) by auto
  with r'(3-9) same(7) show ?thesis by simp
qed

lemma caught_up_step:
  assumes good: "good t r" and later: "t \<le> now" and started: "rs_started r" and unexp: "unexpired r now"
    and small: "unat (rs_window r) < 2 ^ 62" and cu: "caught_up pay src n rd S r"
    and new: "seq \<notin> S" "n \<le> seq" "unat seq < unat n + unat (rs_window r)" "seq \<noteq> - 1"
  shows "\<exists>r'. Observe r seq (pay seq) (src seq) now = Some (True, r') \<and> good now r' \<and>
    base_fields r' = base_fields r \<and> caught_up pay src n rd (insert seq S) r'"
proof -
  let ?c = "new_cell seq (pay seq) (src seq) now"
  let ?cont = "(content r)(seq \<mapsto> ?c)"
  have cu': "n \<le> rs_next r" "{n..<rs_next r} \<subseteq> S" "rs_next r \<notin> S" "dom (content r) = {s \<in> S. rs_next r \<le> s}"
    "\<And>s c. content r s = Some c \<Longrightarrow> slot_item c = frame_item pay src s"
    "rs_ready r = rd @ map (frame_item pay src) (sorted_list_of_set {n..<rs_next r})"
    using cu by (auto simp: caught_up_def)
  have ge: "rs_next r \<le> seq" using new(1,2) cu'(2) by (meson atLeastLessThan_iff not_less subsetD)
  then have "in_window (rs_window r) (rs_next r) seq"
    using new(3,4) cu'(1) by (simp add: in_window_def word_le_nat_alt)
  moreover have "content r seq = None" using cu'(4) new(1) by blast
  ultimately obtain r' where r': "Observe r seq (pay seq) (src seq) now = Some (True, r')" "good now r'"
    "base_fields r' = base_fields r" "rs_next r \<le> rs_next r'" "?cont (rs_next r') = None"
    "\<forall>s. rs_next r \<le> s \<longrightarrow> s < rs_next r' \<longrightarrow> ?cont s \<noteq> None"
    "content r' = ?cont |` {s. rs_next r' \<le> s}"
    "rs_ready r' = rs_ready r @ map (\<lambda>s. slot_item (the (?cont s))) (sorted_list_of_set {s \<in> dom ?cont. s < rs_next r'})"
    using Observe_near [OF good later started unexp small, of seq "pay seq" "src seq"] by blast
  have dom: "dom ?cont = {s \<in> insert seq S. rs_next r \<le> s}" using cu'(4) ge by auto
  have items: "slot_item (the (?cont s)) = frame_item pay src s" if "s \<in> dom ?cont" for s
    using that cu'(5) by (auto simp: frame_item_def slot_item_def split: if_splits)
  have mid: "{s \<in> dom ?cont. s < rs_next r'} = {rs_next r..<rs_next r'}"
  proof -
    have "s \<in> dom ?cont" if "rs_next r \<le> s" "s < rs_next r'" for s using r'(6) that by blast
    moreover have "rs_next r \<le> s" if "s \<in> dom ?cont" for s using that unfolding dom by blast
    ultimately show ?thesis
      unfolding set_eq_iff mem_Collect_eq atLeastLessThan_iff by blast
  qed
  have "caught_up pay src n rd (insert seq S) r'"
    unfolding caught_up_def
  proof (intro conjI allI impI)
    show "n \<le> rs_next r'" using cu'(1) r'(4) by simp
    have "{rs_next r..<rs_next r'} \<subseteq> insert seq S" unfolding mid [symmetric] dom by blast
    moreover have "{n..<rs_next r'} = {n..<rs_next r} \<union> {rs_next r..<rs_next r'}"
      using cu'(1) r'(4) by (simp add: ivl_disj_un_two(3))
    ultimately show "{n..<rs_next r'} \<subseteq> insert seq S" using cu'(2) by blast
    show "rs_next r' \<notin> insert seq S"
    proof
      assume "rs_next r' \<in> insert seq S"
      then have "rs_next r' \<in> dom ?cont" unfolding dom using r'(4) by blast
      with r'(5) show False by blast
    qed
    show "dom (content r') = {s \<in> insert seq S. rs_next r' \<le> s}"
      unfolding r'(7) dom_restrict dom using r'(4) by auto
    show "slot_item c = frame_item pay src s" if "content r' s = Some c" for s c
      using that items [of s] unfolding r'(7) by (auto simp: restrict_map_def split: if_splits)
    have "map (\<lambda>s. slot_item (the (?cont s))) (sorted_list_of_set {s \<in> dom ?cont. s < rs_next r'}) =
        map (frame_item pay src) (sorted_list_of_set {rs_next r..<rs_next r'})"
      unfolding mid [symmetric] by (rule map_cong) (use items in auto)
    then show "rs_ready r' = rd @ map (frame_item pay src) (sorted_list_of_set {n..<rs_next r'})"
      using r'(8) cu'(6) sorted_list_of_set_split [OF cu'(1) r'(4)] by simp
  qed
  with r'(1-3) show ?thesis by blast
qed

definition observe_all :: "(u64 \<Rightarrow> 'p option) \<Rightarrow> (u64 \<Rightarrow> addr_port) \<Rightarrow> (instant \<times> u64) list \<Rightarrow> 'p rs_trace" where
  "observe_all pay src obs = map (\<lambda>(now, s). (now, OpObserve s (pay s) (src s))) obs"

lemma caught_up_run:
  assumes "good t r" and "trace_ok t (observe_all pay src obs)" and "rs_started r"
    and "unexpired_run (observe_all pay src obs) r" and "unat (rs_window r) < 2 ^ 62"
    and "caught_up pay src n rd S r" and "distinct (map snd obs)" and "set (map snd obs) \<inter> S = {}"
    and "\<forall>s\<in>set (map snd obs). n \<le> s \<and> unat s < unat n + unat (rs_window r)"
  shows "\<exists>t' r'. run (observe_all pay src obs) r = Some ([], r') \<and> good t' r' \<and>
    caught_up pay src n rd (S \<union> set (map snd obs)) r'"
  using assms
proof (induction obs arbitrary: t r S)
  case Nil
  then show ?case by (auto simp: observe_all_def)
next
  case (Cons x obs)
  obtain now s where x: "x = (now, s)" by fastforce
  have tr: "t \<le> now" "s \<noteq> - 1" "trace_ok now (observe_all pay src obs)"
    using Cons.prems(2) x by (simp_all add: observe_all_def)
  have un: "unexpired r now" using Cons.prems(4) x by (simp add: observe_all_def)
  obtain r1 where r1: "Observe r s (pay s) (src s) now = Some (True, r1)" "good now r1"
    "base_fields r1 = base_fields r" "caught_up pay src n rd (insert s S) r1"
    using caught_up_step [OF Cons.prems(1) tr(1) Cons.prems(3) un Cons.prems(5,6), of s] Cons.prems(8,9) tr(2) x
    by auto
  note base = base_fieldsD(1,3) [OF r1(3)]
  have "unexpired_run (observe_all pay src obs) r1"
    using Cons.prems(4) x r1(1) by (simp add: observe_all_def)
  then obtain t' r' where "run (observe_all pay src obs) r1 = Some ([], r')" "good t' r'"
    "caught_up pay src n rd (insert s S \<union> set (map snd obs)) r'"
    using Cons.IH [OF r1(2) tr(3) _ _ _ r1(4)] Cons.prems(3,5,7,8,9) base x by auto
  then show ?case using x r1(1) by (auto simp: observe_all_def)
qed

text \<open>
  C4: Reordering inside the window is invisible. When nothing is buffered and the next frames,
  all of the next \<open>m - next\<close> sequences and at most a window of them, are observed in any order
  with no hold expiring, every one of them is released, in sequence order, and the buffer is
  empty again.
\<close>

theorem reorder_invisible:
  assumes "New window timeout = Some r0" and "trace_ok t ops" and "run ops r0 = Some (outs, r)"
    and "rs_started r" and "Buffered r = 0" and "unat window < 2 ^ 62"
    and "distinct (map snd obs)" and "set (map snd obs) = {rs_next r..<m}" and "rs_next r \<le> m"
    and "unat m \<le> unat (rs_next r) + unat window"
    and "trace_ok (trace_end t ops) (observe_all pay src obs)" and "unexpired_run (observe_all pay src obs) r"
  shows "\<exists>r'. run (observe_all pay src obs) r = Some ([], r') \<and> rs_next r' = m \<and> Buffered r' = 0 \<and>
    rs_ready r' = rs_ready r @ map (frame_item pay src) (sort (map snd obs))"
proof -
  have good: "good (trace_end t ops) r" and w: "rs_window r = window"
    using run_good [OF good_New(1) [OF assms(1)] assms(2)] assms(3) good_New(3) [OF assms(1)] by auto
  have "content r = Map.empty"
    using buf_pos [of r] good assms(5) by (auto simp: good_def Buffered_def)
  then have cu0: "caught_up pay src (rs_next r) (rs_ready r) {} r" by (simp add: caught_up_def)
  have small: "unat (rs_window r) < 2 ^ 62" using assms(6) w by simp
  have range: "\<forall>s\<in>set (map snd obs). rs_next r \<le> s \<and> unat s < unat (rs_next r) + unat (rs_window r)"
    using assms(8,10) w by (auto simp: word_less_nat_alt)
  obtain t' r' where r': "run (observe_all pay src obs) r = Some ([], r')" "good t' r'"
    "caught_up pay src (rs_next r) (rs_ready r) {rs_next r..<m} r'"
    using caught_up_run [OF good assms(11,4,12) small cu0 assms(7) _ range]
    unfolding assms(8) by (simp only: Int_empty_right Un_empty_left) blast
  have cu: "rs_next r \<le> rs_next r'" "{rs_next r..<rs_next r'} \<subseteq> {rs_next r..<m}" "rs_next r' \<notin> {rs_next r..<m}"
    "dom (content r') = {s \<in> {rs_next r..<m}. rs_next r' \<le> s}"
    "rs_ready r' = rs_ready r @ map (frame_item pay src) (sorted_list_of_set {rs_next r..<rs_next r'})"
    using r'(3) by (simp_all add: caught_up_def)
  have ge: "m \<le> rs_next r'" using cu(1,3) by simp
  moreover have "\<not> m < rs_next r'"
  proof
    assume "m < rs_next r'"
    then have "m \<in> {rs_next r..<rs_next r'}" using assms(9) by simp
    with cu(2) show False by auto
  qed
  ultimately have m: "rs_next r' = m" by simp
  have "dom (content r') = {}" unfolding cu(4) m by (auto dest: leD)
  then have "Buffered r' = 0"
    using buf_pos [of r'] r'(2) good_bounds(1) [OF r'(2)] by (auto simp: good_def Buffered_def)
  moreover have "sorted_list_of_set {rs_next r..<m} = sort (map snd obs)"
    using assms(7,8) sorted_list_of_set_sort_remdups [of "map snd obs"] by (simp add: distinct_remdups_id)
  ultimately show ?thesis using r'(1) cu(5) m by auto
qed

definition sample_obs :: "(instant \<times> u64) list" where
  "sample_obs = [(6, 9), (7, 8)]"

theorem reorder_invisible_witness:
  "\<exists>r'. run (observe_all Some (\<lambda>_. sample_src) sample_obs) sample_state = Some ([], r') \<and>
    rs_next r' = 10 \<and> Buffered r' = 0 \<and>
    rs_ready r' = rs_ready sample_state @ map (frame_item Some (\<lambda>_. sample_src)) (sort (map snd sample_obs))"
proof -
  have nx: "rs_next sample_state = 8" by code_simp
  have "x = 8 \<or> x = 9" if "8 \<le> x" "x < 10" for x :: u64
  proof -
    have "unat x = 8 \<or> unat x = 9" using that by (auto simp: word_le_nat_alt word_less_nat_alt)
    then show ?thesis unfolding word_unat_eq_iff by simp
  qed
  then have "{8..<10} \<subseteq> {9, 8 :: u64}" by (metis atLeastLessThan_iff insert_iff subsetI)
  moreover have "{9, 8 :: u64} \<subseteq> {8..<10}" by simp
  ultimately have "{8..<10} = {9, 8 :: u64}" by (rule equalityI)
  then have "set (map snd sample_obs) = {rs_next sample_state..<10}"
    by (simp only: nx sample_obs_def list.map snd_conv list.set)
  moreover have "rs_started sample_state" "Buffered sample_state = 0"
    "distinct (map snd sample_obs)" "rs_next sample_state \<le> 10"
    "unat (10 :: u64) \<le> unat (rs_next sample_state) + unat (4 :: u64)"
    "trace_ok (trace_end 0 sample_ops) (observe_all Some (\<lambda>_. sample_src) sample_obs)"
    "unexpired_run (observe_all Some (\<lambda>_. sample_src) sample_obs) sample_state"
    by code_simp+
  moreover have "unat (4 :: u64) < 2 ^ 62" by simp
  ultimately show ?thesis
    using reorder_invisible [OF New_sample trace_ok_sample(1) run_sample] by blast
qed

end
