(* ===== verification/Replay.thy ===== *)
theory Replay
  imports Frame
begin

text \<open>
  The replay filters of internal/telemetry: the monotonic high-water mark over probe sequences
  (probe.go) and the per-type guard over control frames (control.go). Both are instances of the
  filter interface of the prelude.
\<close>

section \<open>Definitions\<close>

record anti_replay =
  ar_high :: u64
  ar_have :: bool

definition AntiReplay :: anti_replay where
  "AntiReplay = \<lparr>ar_high = 0, ar_have = False\<rparr>"

definition AntiReplay_Accept :: "anti_replay \<Rightarrow> u64 \<Rightarrow> bool \<times> anti_replay" where
  "AntiReplay_Accept a seq =
     (if ar_have a \<and> seq \<le> ar_high a then (False, a)
      else (True, a\<lparr>ar_high := seq, ar_have := True\<rparr>))"

definition AntiReplay_HighWater :: "anti_replay \<Rightarrow> u64 \<times> bool" where
  "AntiReplay_HighWater a = (ar_high a, ar_have a)"

datatype control_error = ErrControlReplay

text \<open>The set of security-relevant types is fixed; the guards are created on first sight.\<close>

record control_guard =
  cg_secure :: "u8 \<Rightarrow> bool"
  cg_guards :: "u8 \<Rightarrow> anti_replay option"

definition NewControlGuard :: "u8 list \<Rightarrow> control_guard" where
  "NewControlGuard securityRelevant =
     \<lparr>cg_secure = fold (\<lambda>t secure. secure(t := True)) securityRelevant (\<lambda>_. False),
      cg_guards = (\<lambda>_. None)\<rparr>"

definition ControlGuard_Admit :: "control_guard \<Rightarrow> control \<Rightarrow> control_error option \<times> control_guard" where
  "ControlGuard_Admit g c =
     (if \<not> cg_secure g (ct_ControlType c) then (None, g)
      else
        let ar = (case cg_guards g (ct_ControlType c) of None \<Rightarrow> AntiReplay | Some ar \<Rightarrow> ar);
            (ok, ar) = AntiReplay_Accept ar (ct_Seq c);
            g = g\<lparr>cg_guards := (cg_guards g)(ct_ControlType c := Some ar)\<rparr>
        in if \<not> ok then (Some ErrControlReplay, g) else (None, g))"

section \<open>The high-water mark as a filter\<close>

definition spent_seq :: "anti_replay \<Rightarrow> u64 \<Rightarrow> bool" where
  "spent_seq a k \<longleftrightarrow> ar_have a \<and> k \<le> ar_high a"

interpretation probe_replay: once_filter AntiReplay_Accept spent_seq "\<lambda>_. True"
  by unfold_locales (auto simp: AntiReplay_Accept_def spent_seq_def)

lemma accepted_above:
  "fst (AntiReplay_Accept a k) \<longleftrightarrow> \<not> spent_seq a k"
  by (simp add: AntiReplay_Accept_def spent_seq_def)

lemma accepted_ascending:
  "sorted_wrt (<) (fst (run_filter AntiReplay_Accept a ks)) \<and>
   (ar_have a \<longrightarrow> (\<forall>k\<in>set (fst (run_filter AntiReplay_Accept a ks)). ar_high a < k))"
proof (induction ks arbitrary: a)
  case (Cons k ks)
  let ?a = "snd (AntiReplay_Accept a k)"
  have "ar_have a \<longrightarrow> ar_high a \<le> ar_high ?a \<and> ar_have ?a"
    by (auto simp: AntiReplay_Accept_def)
  with Cons [of ?a] show ?case
    by (auto simp: AntiReplay_Accept_def case_prod_beta Let_def intro: order.strict_trans1 order.strict_trans)
qed simp

text \<open>
  C34: Probe replay protection. Whatever sequences are offered, the high-water filter accepts a
  strictly increasing subsequence of them, so a replayed or reordered probe is refused, and a
  sequence is refused only when an equal or newer one has been accepted.
\<close>

theorem probe_sequences_ascend:
  "sorted_wrt (<) (fst (run_filter AntiReplay_Accept AntiReplay ks)) \<and>
   (fst (AntiReplay_Accept (snd (run_filter AntiReplay_Accept AntiReplay ks)) k) \<longleftrightarrow>
      list_all (\<lambda>j. j < k) (fst (run_filter AntiReplay_Accept AntiReplay ks)))"
proof -
  have high: "list_all (\<lambda>j. j < k) (fst (run_filter AntiReplay_Accept a ks)) \<and> (ar_have a \<longrightarrow> ar_high a < k) \<longleftrightarrow>
      \<not> spent_seq (snd (run_filter AntiReplay_Accept a ks)) k" for a
  proof (induction ks arbitrary: a)
    case Nil
    then show ?case by (auto simp: spent_seq_def not_le)
  next
    case (Cons j ks)
    show ?case
      using Cons [of "snd (AntiReplay_Accept a j)"]
      by (auto simp: AntiReplay_Accept_def case_prod_beta Let_def split: if_splits
          intro: order.strict_trans order.strict_trans1)
  qed
  show ?thesis
    using accepted_ascending [of AntiReplay ks] high [of AntiReplay]
    by (simp add: accepted_above AntiReplay_def)
qed

section \<open>The control guard\<close>

text \<open>The guard restricted to the types it protects, as a filter over type and sequence.\<close>

definition admit_secure :: "control_guard \<Rightarrow> u8 \<times> u64 \<Rightarrow> bool \<times> control_guard" where
  "admit_secure g k =
     (let (e, g') = ControlGuard_Admit g \<lparr>ct_ControlType = fst k, ct_Seq = snd k, ct_Payload = []\<rparr>
      in (e = None \<and> cg_secure g (fst k), g'))"

definition guard_of :: "control_guard \<Rightarrow> u8 \<Rightarrow> anti_replay" where
  "guard_of g t = (case cg_guards g t of None \<Rightarrow> AntiReplay | Some ar \<Rightarrow> ar)"

definition spent_control :: "control_guard \<Rightarrow> u8 \<times> u64 \<Rightarrow> bool" where
  "spent_control g k \<longleftrightarrow> cg_secure g (fst k) \<and> spent_seq (guard_of g (fst k)) (snd k)"

lemma admit_secure_simp:
  "admit_secure g (t, seq) =
     (if \<not> cg_secure g t then (False, g)
      else (fst (AntiReplay_Accept (guard_of g t) seq),
            g\<lparr>cg_guards := (cg_guards g)(t := Some (snd (AntiReplay_Accept (guard_of g t) seq)))\<rparr>))"
  by (simp add: admit_secure_def ControlGuard_Admit_def guard_of_def Let_def case_prod_beta)

lemma guard_of_update:
  "guard_of (g\<lparr>cg_guards := (cg_guards g)(t := Some ar)\<rparr>) t' = (if t' = t then ar else guard_of g t')"
  by (simp add: guard_of_def)

interpretation control_replay: once_filter admit_secure spent_control "\<lambda>_. True"
proof (unfold_locales, goal_cases)
  case (1 g k)
  then show ?case
    by (cases k) (simp add: admit_secure_simp spent_control_def probe_replay.spent_refused)
next
  case (2 g k)
  then show ?case
    by (cases k) (simp add: admit_secure_simp spent_control_def guard_of_update probe_replay.accepted_spent
        split: if_splits)
next
  case (3 g k k')
  then show ?case
    by (cases k; cases k') (auto simp: admit_secure_simp spent_control_def guard_of_update probe_replay.spent_mono)
qed

lemma secure_New: "cg_secure (NewControlGuard ts) t \<longleftrightarrow> t \<in> set ts"
proof -
  have "fold (\<lambda>t secure. secure(t := True)) ts f t \<longleftrightarrow> t \<in> set ts \<or> f t" for f
    by (induction ts arbitrary: f) auto
  then show ?thesis by (simp add: NewControlGuard_def)
qed

lemma guard_of_New: "guard_of (NewControlGuard ts) t = AntiReplay"
  by (simp add: guard_of_def NewControlGuard_def)

text \<open>The frames admitted from a sequence of control frames, in order.\<close>

fun admitted_controls :: "control_guard \<Rightarrow> control list \<Rightarrow> control list \<times> control_guard" where
  "admitted_controls g [] = ([], g)"
| "admitted_controls g (c # cs) =
     (let (e, g) = ControlGuard_Admit g c; (cs', g) = admitted_controls g cs
      in (if e = None then c # cs' else cs', g))"

lemma Admit_payload:
  "ControlGuard_Admit g c =
     ControlGuard_Admit g \<lparr>ct_ControlType = ct_ControlType c, ct_Seq = ct_Seq c, ct_Payload = []\<rparr>"
  by (simp add: ControlGuard_Admit_def)

lemma cg_secure_Admit [simp]: "cg_secure (snd (ControlGuard_Admit g c)) = cg_secure g"
  by (simp add: ControlGuard_Admit_def Let_def case_prod_beta)

lemma admitted_controls_filter:
  "map (\<lambda>c. (ct_ControlType c, ct_Seq c)) (filter (\<lambda>c. cg_secure g (ct_ControlType c)) (fst (admitted_controls g cs))) =
   fst (run_filter admit_secure g (map (\<lambda>c. (ct_ControlType c, ct_Seq c)) cs))"
proof (induction cs arbitrary: g)
  case (Cons c cs)
  show ?case
    using Cons [of "snd (ControlGuard_Admit g c)"] Admit_payload [of g c]
    by (auto simp: admit_secure_def Let_def case_prod_beta)
qed simp

lemma guard_of_Admit:
  "cg_secure g (ct_ControlType c) \<Longrightarrow> guard_of (snd (ControlGuard_Admit g c)) t =
     (if t = ct_ControlType c then snd (AntiReplay_Accept (guard_of g t) (ct_Seq c)) else guard_of g t)"
  "\<not> cg_secure g (ct_ControlType c) \<Longrightarrow> ControlGuard_Admit g c = (None, g)"
  "cg_secure g (ct_ControlType c) \<Longrightarrow> fst (ControlGuard_Admit g c) = None \<longleftrightarrow> fst (AntiReplay_Accept (guard_of g (ct_ControlType c)) (ct_Seq c))"
  by (auto simp: ControlGuard_Admit_def guard_of_def Let_def case_prod_beta)

lemma admitted_of_type:
  "cg_secure g t \<Longrightarrow> map ct_Seq (filter (\<lambda>c. ct_ControlType c = t) (fst (admitted_controls g cs))) =
     fst (run_filter AntiReplay_Accept (guard_of g t) (map ct_Seq (filter (\<lambda>c. ct_ControlType c = t) cs)))"
proof (induction cs arbitrary: g)
  case (Cons c cs)
  have IH: "map ct_Seq (filter (\<lambda>c. ct_ControlType c = t) (fst (admitted_controls (snd (ControlGuard_Admit g c)) cs))) =
      fst (run_filter AntiReplay_Accept (guard_of (snd (ControlGuard_Admit g c)) t) (map ct_Seq (filter (\<lambda>c. ct_ControlType c = t) cs)))"
    using Cons by simp
  show ?case
  proof (cases "ct_ControlType c = t")
    case True
    then show ?thesis using IH Cons.prems guard_of_Admit(1,3) [of g c] by (simp add: Let_def case_prod_beta)
  next
    case False
    then have "guard_of (snd (ControlGuard_Admit g c)) t = guard_of g t"
      by (cases "cg_secure g (ct_ControlType c)") (simp_all add: guard_of_Admit)
    then show ?thesis using IH False by (simp add: Let_def case_prod_beta)
  qed
qed simp

text \<open>
  C35: Control replay protection. Of a sequence of authenticated control frames, no two admitted
  frames of a security-relevant type carry the same type and sequence, so a captured frame is never
  acted upon twice; the admitted frames of one such type have strictly increasing sequences, and
  they are those its own high-water filter accepts, whatever frames of other types come between; a
  frame of any other type is always admitted.
\<close>

theorem control_admitted_once:
  "distinct (map (\<lambda>c. (ct_ControlType c, ct_Seq c))
     (filter (\<lambda>c. ct_ControlType c \<in> set secure) (fst (admitted_controls (NewControlGuard secure) cs)))) \<and>
   (if t \<in> set secure
    then sorted_wrt (<) (map ct_Seq (filter (\<lambda>c. ct_ControlType c = t) (fst (admitted_controls (NewControlGuard secure) cs)))) \<and>
      map ct_Seq (filter (\<lambda>c. ct_ControlType c = t) (fst (admitted_controls (NewControlGuard secure) cs))) =
        fst (run_filter AntiReplay_Accept AntiReplay (map ct_Seq (filter (\<lambda>c. ct_ControlType c = t) cs)))
    else filter (\<lambda>c. ct_ControlType c = t) (fst (admitted_controls (NewControlGuard secure) cs)) =
      filter (\<lambda>c. ct_ControlType c = t) cs)"
proof -
  have "filter (\<lambda>c. ct_ControlType c = t) (fst (admitted_controls g cs)) = filter (\<lambda>c. ct_ControlType c = t) cs"
    if "\<not> cg_secure g t" for g
    using that
  proof (induction cs arbitrary: g)
    case (Cons c cs)
    then show ?case using Cons.IH [of "snd (ControlGuard_Admit g c)"] guard_of_Admit(2) [of g c]
      by (auto simp: Let_def case_prod_beta)
  qed simp
  from this [of "NewControlGuard secure"] show ?thesis
    using control_replay.accepted_distinct [of "NewControlGuard secure"]
      admitted_controls_filter [of "NewControlGuard secure" cs] admitted_of_type [of "NewControlGuard secure" t cs]
      accepted_ascending [of AntiReplay]
    by (simp add: secure_New guard_of_New)
qed

end
