(* ===== verification/Liveness.thy ===== *)
theory Liveness
  imports Wanbond_Prelude
begin

text \<open>
  The per-path up/down state machine (internal/telemetry/liveness.go), driven by echoes and
  ticks at the clock readings the source takes. The transition log is kept as a list, newest
  entry last.
\<close>

section \<open>Definitions\<close>

datatype path_state = StateDown | StateUp

fun path_state_string :: "path_state \<Rightarrow> string" where
  "path_state_string StateUp = ''up''"
| "path_state_string StateDown = ''down''"

record liveness_config =
  lc_DownAfter :: duration
  lc_UpAfterSuccesses :: int
  lc_RideThrough :: duration

definition DefaultProbeInterval :: duration where "DefaultProbeInterval = 200 * millisecond"
definition DefaultDownAfter :: duration where "DefaultDownAfter = 1200 * millisecond"
definition DefaultUpSuccesses :: int where "DefaultUpSuccesses = 3"
definition DefaultLossWindow :: int where "DefaultLossWindow = 0"
definition RecoveryBudget :: duration where "RecoveryBudget = 3 * second"

definition FailoverBudget :: "duration \<Rightarrow> duration \<Rightarrow> duration \<Rightarrow> duration" where
  "FailoverBudget downAfter rideThrough probeInterval = downAfter + rideThrough + 2 * probeInterval"

text \<open>Durations in whole milliseconds, truncated towards zero.\<close>

definition Milliseconds :: "duration \<Rightarrow> int" where
  "Milliseconds d = (if d < 0 then - ((- d) div millisecond) else d div millisecond)"

record transition_log =
  tl_from :: string
  tl_to :: string
  tl_silence_ms :: int
  tl_threshold_ms :: int

record liveness =
  lv_cfg :: liveness_config
  lv_log :: "transition_log list"
  lv_state :: path_state
  lv_lastGood :: instant
  lv_haveGood :: bool
  lv_goodStreak :: int

definition NewLiveness :: "liveness_config \<Rightarrow> liveness" where
  "NewLiveness cfg = \<lparr>lv_cfg = cfg, lv_log = [], lv_state = StateDown, lv_lastGood = zero_time,
     lv_haveGood = False, lv_goodStreak = 0\<rparr>"

definition transition :: "liveness \<Rightarrow> path_state \<Rightarrow> instant \<Rightarrow> duration \<Rightarrow> liveness" where
  "transition l to now threshold =
     l\<lparr>lv_state := to,
       lv_log := lv_log l @ [\<lparr>tl_from = path_state_string (lv_state l), tl_to = path_state_string to,
         tl_silence_ms = Milliseconds (time_sub now (lv_lastGood l)),
         tl_threshold_ms = Milliseconds threshold\<rparr>]\<rparr>"

definition RecordEcho :: "liveness \<Rightarrow> instant \<Rightarrow> liveness" where
  "RecordEcho l now =
     (let l = (if lv_haveGood l \<and> time_sub now (lv_lastGood l) > lc_DownAfter (lv_cfg l)
               then l\<lparr>lv_goodStreak := 0\<rparr> else l);
          l = l\<lparr>lv_lastGood := now, lv_haveGood := True, lv_goodStreak := lv_goodStreak l + 1\<rparr>
      in if lv_state l = StateDown \<and> lv_goodStreak l \<ge> lc_UpAfterSuccesses (lv_cfg l)
         then transition l StateUp now (lc_DownAfter (lv_cfg l)) else l)"

definition Tick :: "liveness \<Rightarrow> instant \<Rightarrow> liveness" where
  "Tick l now =
     (if \<not> lv_haveGood l then l
      else
        let silence = time_sub now (lv_lastGood l);
            downThreshold = lc_DownAfter (lv_cfg l) + lc_RideThrough (lv_cfg l)
        in if lv_state l = StateUp \<and> silence > downThreshold
           then transition (l\<lparr>lv_goodStreak := 0\<rparr>) StateDown now downThreshold
           else if lv_state l = StateDown \<and> silence > lc_DownAfter (lv_cfg l) then l\<lparr>lv_goodStreak := 0\<rparr>
           else l)"

definition Liveness_State :: "liveness \<Rightarrow> path_state" where
  "Liveness_State l = lv_state l"

section \<open>Runs of the state machine\<close>

datatype live_event = Echo | TickEv

fun live_step :: "liveness \<Rightarrow> instant \<times> live_event \<Rightarrow> liveness" where
  "live_step l (now, Echo) = RecordEcho l now"
| "live_step l (now, TickEv) = Tick l now"

definition live_run :: "liveness \<Rightarrow> (instant \<times> live_event) list \<Rightarrow> liveness" where
  "live_run l evs = foldl live_step l evs"

text \<open>The clock does not run backwards.\<close>

fun clock_ok :: "instant \<Rightarrow> (instant \<times> live_event) list \<Rightarrow> bool" where
  "clock_ok t [] \<longleftrightarrow> True"
| "clock_ok t ((now, e) # evs) \<longleftrightarrow> t \<le> now \<and> clock_ok now evs"

fun clock_end :: "instant \<Rightarrow> (instant \<times> live_event) list \<Rightarrow> instant" where
  "clock_end t [] = t"
| "clock_end t ((now, e) # evs) = clock_end now evs"

definition cfg_ok :: "liveness_config \<Rightarrow> bool" where
  "cfg_ok cfg \<longleftrightarrow> 0 \<le> lc_DownAfter cfg \<and> 0 \<le> lc_RideThrough cfg \<and>
     lc_DownAfter cfg + lc_RideThrough cfg < max_duration"

subsection \<open>The verdict, read off the history\<close>

text \<open>
  A reference for the machine, computed from the whole history, newest event first. The streak
  is the number of echoes at the end of the history that are each at most \<open>DownAfter\<close> after the
  one before; the path is up after an event when the streak has reached the required count at
  some echo and no tick since saw a silence past the ride-through threshold.
\<close>

fun last_echo :: "(instant \<times> live_event) list \<Rightarrow> instant option" where
  "last_echo [] = None"
| "last_echo ((t, Echo) # h) = Some t"
| "last_echo ((t, TickEv) # h) = last_echo h"

fun streak :: "duration \<Rightarrow> (instant \<times> live_event) list \<Rightarrow> int" where
  "streak d [] = 0"
| "streak d ((t, Echo) # h) = (case last_echo h of None \<Rightarrow> 1 | Some t' \<Rightarrow> if t - t' > d then 1 else streak d h + 1)"
| "streak d ((t, TickEv) # h) = streak d h"

fun is_up :: "liveness_config \<Rightarrow> (instant \<times> live_event) list \<Rightarrow> bool" where
  "is_up cfg [] \<longleftrightarrow> False"
| "is_up cfg ((t, Echo) # h) \<longleftrightarrow> is_up cfg h \<or> streak (lc_DownAfter cfg) ((t, Echo) # h) \<ge> lc_UpAfterSuccesses cfg"
| "is_up cfg ((t, TickEv) # h) \<longleftrightarrow> is_up cfg h \<and>
     (case last_echo h of None \<Rightarrow> True | Some t' \<Rightarrow> t - t' \<le> lc_DownAfter cfg + lc_RideThrough cfg)"

subsection \<open>The machine computes the reference\<close>

definition tracks :: "liveness_config \<Rightarrow> instant \<Rightarrow> (instant \<times> live_event) list \<Rightarrow> liveness \<Rightarrow> bool" where
  "tracks cfg t h l \<longleftrightarrow>
     lv_cfg l = cfg \<and> (lv_haveGood l \<longleftrightarrow> last_echo h \<noteq> None) \<and>
     (\<forall>t'. last_echo h = Some t' \<longrightarrow> lv_lastGood l = t' \<and> t' \<le> t) \<and>
     (lv_state l = StateUp \<longleftrightarrow> is_up cfg h) \<and>
     (lv_goodStreak l = streak (lc_DownAfter cfg) h \<or>
        lv_goodStreak l = 0 \<and> (\<exists>t'. last_echo h = Some t' \<and> t - t' > lc_DownAfter cfg))"

lemma transition_simps [simp]:
  "lv_cfg (transition l to now d) = lv_cfg l" "lv_state (transition l to now d) = to"
  "lv_haveGood (transition l to now d) = lv_haveGood l" "lv_lastGood (transition l to now d) = lv_lastGood l"
  "lv_goodStreak (transition l to now d) = lv_goodStreak l"
  by (simp_all add: transition_def)

lemma not_up_down [simp]: "s \<noteq> StateUp \<longleftrightarrow> s = StateDown" "s \<noteq> StateDown \<longleftrightarrow> s = StateUp"
  by (cases s; simp)+

lemma cfg_ok_sub:
  assumes "cfg_ok cfg"
  shows "lc_DownAfter cfg < time_sub t u \<longleftrightarrow> lc_DownAfter cfg < t - u"
    and "lc_DownAfter cfg + lc_RideThrough cfg < time_sub t u \<longleftrightarrow> lc_DownAfter cfg + lc_RideThrough cfg < t - u"
  using assms by (auto simp: cfg_ok_def intro!: time_sub_greater_iff)

lemma tracks_echo:
  assumes cfg: "cfg_ok cfg" and tr: "tracks cfg t h l" and later: "t \<le> now"
  shows "tracks cfg now ((now, Echo) # h) (RecordEcho l now)"
proof -
  define g where "g = (if lv_haveGood l \<and> time_sub now (lv_lastGood l) > lc_DownAfter (lv_cfg l)
    then 0 else lv_goodStreak l)"
  have streak: "g + 1 = streak (lc_DownAfter cfg) ((now, Echo) # h)"
  proof (cases "last_echo h")
    case None
    then have "lv_goodStreak l = streak (lc_DownAfter cfg) h" "\<not> lv_haveGood l"
      using tr by (auto simp: tracks_def)
    moreover have "last_echo h = None \<Longrightarrow> streak (lc_DownAfter cfg) h = 0"
      by (induction h rule: last_echo.induct) auto
    ultimately show ?thesis using None by (simp add: g_def)
  next
    case (Some t')
    then have "lv_haveGood l" "lv_lastGood l = t'" "lv_cfg l = cfg" "t' \<le> t"
      "lv_goodStreak l = streak (lc_DownAfter cfg) h \<or> lv_goodStreak l = 0 \<and> t - t' > lc_DownAfter cfg"
      using tr by (auto simp: tracks_def)
    then show ?thesis
      using Some later cfg_ok_sub(1) [OF cfg, of now t'] by (auto simp: g_def)
  qed
  have fields: "lv_cfg (RecordEcho l now) = lv_cfg l" "lv_haveGood (RecordEcho l now)"
    "lv_lastGood (RecordEcho l now) = now" "lv_goodStreak (RecordEcho l now) = g + 1"
    "lv_state (RecordEcho l now) = StateUp \<longleftrightarrow> lv_state l = StateUp \<or> g + 1 \<ge> lc_UpAfterSuccesses (lv_cfg l)"
    by (auto simp: RecordEcho_def Let_def g_def)
  show ?thesis using tr streak fields by (auto simp: tracks_def)
qed

lemma tracks_tick:
  assumes cfg: "cfg_ok cfg" and tr: "tracks cfg t h l" and later: "t \<le> now"
  shows "tracks cfg now ((now, TickEv) # h) (Tick l now)"
proof (cases "last_echo h")
  case None
  then show ?thesis using tr by (auto simp: tracks_def Tick_def)
next
  case (Some t')
  then have l: "lv_haveGood l" "lv_lastGood l = t'" "lv_cfg l = cfg" "t' \<le> t"
    "lv_goodStreak l = streak (lc_DownAfter cfg) h \<or> lv_goodStreak l = 0 \<and> t - t' > lc_DownAfter cfg"
    "lv_state l = StateUp \<longleftrightarrow> is_up cfg h"
    using tr by (auto simp: tracks_def)
  have rt: "0 \<le> lc_RideThrough cfg" using cfg by (simp add: cfg_ok_def)
  show ?thesis
    using Some l later rt cfg_ok_sub [OF cfg, of now t']
    by (cases "lv_state l") (auto simp: tracks_def Tick_def Let_def)
qed

lemma tracks_run:
  assumes "cfg_ok cfg"
  shows "tracks cfg t h l \<Longrightarrow> clock_ok t evs \<Longrightarrow> tracks cfg (clock_end t evs) (rev evs @ h) (live_run l evs)"
proof (induction evs arbitrary: t h l)
  case (Cons x evs)
  obtain now e where x: "x = (now, e)" by fastforce
  have step: "tracks cfg now ((now, e) # h) (live_step l (now, e))"
    using Cons.prems x tracks_echo [OF assms] tracks_tick [OF assms] by (cases e) auto
  from Cons.IH [OF step] Cons.prems(2) x show ?case by (simp add: live_run_def)
qed (simp add: live_run_def)

lemma tracks_New: "tracks cfg t [] (NewLiveness cfg)"
  by (simp add: tracks_def NewLiveness_def)

lemma Liveness_State_up:
  assumes "cfg_ok cfg" and "clock_ok t evs"
  shows "Liveness_State (live_run (NewLiveness cfg) evs) = StateUp \<longleftrightarrow> is_up cfg (rev evs)"
  using tracks_run [OF assms(1) tracks_New assms(2)] by (simp add: tracks_def Liveness_State_def)

text \<open>
  C12: The liveness machine computes its specification. After any sequence of echoes and ticks
  with a clock that does not run backwards, the path is up exactly when, in the history, the
  required number of echoes each at most \<open>DownAfter\<close> apart has been reached at some echo and no
  tick since then saw a silence longer than \<open>DownAfter + RideThrough\<close>.
\<close>

theorem liveness_equivalence:
  assumes "cfg_ok cfg" and "clock_ok t evs"
  shows "Liveness_State (live_run (NewLiveness cfg) evs) = (if is_up cfg (rev evs) then StateUp else StateDown)"
  using Liveness_State_up [OF assms] not_up_down(1) [of "Liveness_State (live_run (NewLiveness cfg) evs)"]
  by presburger

definition sample_liveness :: liveness_config where
  "sample_liveness = \<lparr>lc_DownAfter = 100, lc_UpAfterSuccesses = 2, lc_RideThrough = 50\<rparr>"

theorem liveness_equivalence_witness:
  "Liveness_State (live_run (NewLiveness sample_liveness) [(10, Echo), (60, TickEv), (90, Echo), (200, TickEv)]) =
     (if is_up sample_liveness (rev [(10, Echo), (60, TickEv), (90, Echo), (200, TickEv)]) then StateUp else StateDown) \<and>
   is_up sample_liveness (rev [(10, Echo), (60, TickEv), (90, Echo), (200, TickEv)])"
proof -
  have "cfg_ok sample_liveness" by (simp add: cfg_ok_def sample_liveness_def)
  moreover have "clock_ok 0 [(10, Echo), (60, TickEv), (90, Echo), (200, TickEv)]" by simp
  moreover have "is_up sample_liveness (rev [(10, Echo), (60, TickEv), (90, Echo), (200, TickEv)])" by code_simp
  ultimately show ?thesis using liveness_equivalence by blast
qed

subsection \<open>Detection within the failover budget\<close>

lemma last_echo_ticks: "list_all (\<lambda>(t, e). e = TickEv) xs \<Longrightarrow> last_echo (xs @ h) = last_echo h"
  by (induction xs) auto

text \<open>
  C26: A dead path is detected in time. When a path's last echo is at \<open>t0\<close> and only ticks follow,
  the path is reported down at every time \<open>T\<close> at least the failover budget after \<open>t0\<close>, provided a
  tick ran within the probe interval before \<open>T\<close>.
\<close>

theorem failover_detected:
  assumes "cfg_ok cfg" and "clock_ok t (pre @ (t0, Echo) # ticks @ [(u, TickEv)])"
    and "list_all (\<lambda>(t, e). e = TickEv) ticks"
    and "0 < interval" and "T - u \<le> interval"
    and "t0 + FailoverBudget (lc_DownAfter cfg) (lc_RideThrough cfg) interval \<le> T"
  shows "Liveness_State (live_run (NewLiveness cfg) (pre @ (t0, Echo) # ticks @ [(u, TickEv)])) = StateDown"
proof -
  let ?evs = "pre @ (t0, Echo) # ticks @ [(u, TickEv)]"
  have "last_echo (rev ticks @ (t0, Echo) # rev pre) = Some t0"
    using assms(3) by (subst last_echo_ticks) (auto simp: list_all_iff)
  then have "\<not> is_up cfg (rev ?evs)"
    using assms(4-6) by (simp add: FailoverBudget_def)
  then show ?thesis
    using Liveness_State_up [OF assms(1,2)] not_up_down(1) by blast
qed

theorem failover_detected_witness:
  "Liveness_State (live_run (NewLiveness sample_liveness) ([(10, Echo)] @ (90, Echo) # [(150, TickEv)] @ [(275, TickEv)])) = StateDown \<and>
   Liveness_State (live_run (NewLiveness sample_liveness) ([(10, Echo)] @ (90, Echo) # [(150, TickEv)])) = StateUp"
proof
  have "cfg_ok sample_liveness" by (simp add: cfg_ok_def sample_liveness_def)
  then show "Liveness_State (live_run (NewLiveness sample_liveness)
      ([(10, Echo)] @ (90, Echo) # [(150, TickEv)] @ [(275, TickEv)])) = StateDown"
    by (rule failover_detected [where t = 0 and interval = 30 and T = 300])
      (simp_all add: FailoverBudget_def sample_liveness_def)
  show "Liveness_State (live_run (NewLiveness sample_liveness) ([(10, Echo)] @ (90, Echo) # [(150, TickEv)])) = StateUp"
    by code_simp
qed

end
