(* ===== verification/Go_Numbers.thy ===== *)
theory Go_Numbers
  imports Complex_Main Wanbond_Prelude "HOL-Library.Signed_Division"
begin

text \<open>
  Go's number conversions as the estimators and the transport use them. A \<open>float64\<close> is a rational:
  rounding is not modelled. Converting a float to an integer type truncates towards zero, and so
  does integer division, which is \<open>sdiv\<close>.
\<close>

definition to_duration :: "rat \<Rightarrow> duration" where
  "to_duration q = (if q < 0 then - \<lfloor>- q\<rfloor> else \<lfloor>q\<rfloor>)"

definition Seconds :: "duration \<Rightarrow> rat" where
  "Seconds d = of_int d / of_int second"

lemma to_duration_nonneg [simp]: "0 \<le> q \<Longrightarrow> 0 \<le> to_duration q"
  by (simp add: to_duration_def)

lemma to_duration_mono: "p \<le> q \<Longrightarrow> to_duration p \<le> to_duration q"
proof -
  assume le: "p \<le> q"
  show ?thesis
  proof (cases "p < 0 \<and> \<not> q < 0")
    case True
    have "0 \<le> \<lfloor>- p\<rfloor>" "0 \<le> \<lfloor>q\<rfloor>" using True by simp_all
    then have "- \<lfloor>- p\<rfloor> \<le> \<lfloor>q\<rfloor>" by linarith
    then show ?thesis unfolding to_duration_def using True by simp
  next
    case False
    have "\<lfloor>- q\<rfloor> \<le> \<lfloor>- p\<rfloor>" "\<lfloor>p\<rfloor> \<le> \<lfloor>q\<rfloor>" using le by (simp_all add: floor_mono)
    then show ?thesis using le False by (auto simp: to_duration_def)
  qed
qed

lemma to_duration_of_int [simp]: "to_duration (of_int i) = i"
  by (simp add: to_duration_def)

lemma Seconds_nonneg [simp]: "0 \<le> d \<Longrightarrow> 0 \<le> Seconds d"
  by (simp add: Seconds_def second_def)

lemma Seconds_pos [simp]: "0 < Seconds d \<longleftrightarrow> 0 < d"
  by (simp add: Seconds_def second_def)

text \<open>Truncated division by a positive number moves towards zero.\<close>

lemma sdiv_pos_nonneg: "0 \<le> (a :: int) \<Longrightarrow> 0 < b \<Longrightarrow> a sdiv b = a div b"
  by (simp add: signed_divide_int_def sgn_if)

lemma sdiv_neg: "(a :: int) < 0 \<Longrightarrow> 0 < b \<Longrightarrow> a sdiv b = - ((- a) div b)"
  by (simp add: signed_divide_int_def sgn_if)

text \<open>Moving a share of the way towards a sample stays between the two.\<close>

lemma sdiv_step_between:
  assumes "0 < (n :: int)"
  shows "min x s \<le> x + (s - x) sdiv n" and "x + (s - x) sdiv n \<le> max x s"
proof -
  have *: "0 \<le> d div n \<and> d div n \<le> d" if "0 \<le> d" for d
    using that assms zdiv_mono2 [of d 1 n] by (simp add: pos_imp_zdiv_nonneg_iff)
  consider "0 \<le> s - x" | "s - x < 0" by linarith
  then have "min x s \<le> x + (s - x) sdiv n \<and> x + (s - x) sdiv n \<le> max x s"
  proof cases
    case 1
    then show ?thesis using * [of "s - x"] assms by (simp add: sdiv_pos_nonneg)
  next
    case 2
    then show ?thesis using * [of "- (s - x)"] assms by (simp add: sdiv_neg)
  qed
  then show "min x s \<le> x + (s - x) sdiv n" "x + (s - x) sdiv n \<le> max x s" by simp_all
qed

end
