(* ===== verification/Estimator.thy ===== *)
theory Estimator
  imports Go_Numbers "HOL-Library.Monad_Syntax"
begin

text \<open>
  The per-path quality estimator (internal/telemetry/estimator.go): smoothed round-trip time and
  jitter, and the loss window over probe sequences. Floating-point values are rationals: the
  source's double rounding is not modelled. The two loops that count up to a bound inclusively
  never end when the bound is the last 64-bit word; not ending is None.
\<close>

section \<open>Definitions\<close>

subsection \<open>The loss window\<close>

definition defaultLossWindow :: int where "defaultLossWindow = 512"

record loss_window =
  lw_win :: nat
  lw_recv :: "bool list"
  lw_first :: u64
  lw_highest :: u64
  lw_have :: bool

definition newLossWindow :: "int \<Rightarrow> loss_window" where
  "newLossWindow win =
     (let win = (if win \<le> 0 then defaultLossWindow else win)
      in \<lparr>lw_win = nat win, lw_recv = replicate (nat win) False, lw_first = 0, lw_highest = 0, lw_have = False\<rparr>)"

definition lw_slot :: "loss_window \<Rightarrow> u64 \<Rightarrow> nat" where
  "lw_slot w seq = unat (seq mod of_nat (lw_win w))"

definition set_recv :: "loss_window \<Rightarrow> u64 \<Rightarrow> bool \<Rightarrow> loss_window" where
  "set_recv w seq b = w\<lparr>lw_recv := (lw_recv w)[lw_slot w seq := b]\<rparr>"

definition clear_recv :: "loss_window \<Rightarrow> loss_window" where
  "clear_recv w = w\<lparr>lw_recv := map (\<lambda>_. False) (lw_recv w)\<rparr>"

partial_function (option) clear_upto :: "u64 \<Rightarrow> u64 \<Rightarrow> loss_window \<Rightarrow> loss_window option" where
  "clear_upto k seq w = (if k \<le> seq then clear_upto (k + 1) seq (set_recv w k False) else Some w)"

definition lw_observe :: "loss_window \<Rightarrow> u64 \<Rightarrow> loss_window option" where
  "lw_observe w seq =
     (if \<not> lw_have w then
        Some (set_recv (clear_recv (w\<lparr>lw_have := True, lw_first := seq, lw_highest := seq\<rparr>)) seq True)
      else if seq > lw_highest w then do {
        w \<leftarrow> (if seq - lw_highest w \<ge> of_nat (lw_win w) then Some (clear_recv w)
             else clear_upto (lw_highest w + 1) seq w);
        Some ((set_recv w seq True)\<lparr>lw_highest := seq\<rparr>)
      }
      else if lw_highest w - seq < of_nat (lw_win w) then Some (set_recv w seq True)
      else Some w)"

definition lw_bounds :: "loss_window \<Rightarrow> u64 option" where
  "lw_bounds w =
     (if \<not> lw_have w then None
      else
        let lower = (if lw_highest w + 1 > of_nat (lw_win w) then lw_highest w + 1 - of_nat (lw_win w) else 0)
        in Some (if lower < lw_first w then lw_first w else lower))"

partial_function (option) missing_upto :: "u64 \<Rightarrow> u64 \<Rightarrow> loss_window \<Rightarrow> nat \<Rightarrow> nat option" where
  "missing_upto k highest w missing =
     (if k \<le> highest then
        missing_upto (k + 1) highest w (if \<not> lw_recv w ! lw_slot w k then missing + 1 else missing)
      else Some missing)"

definition lw_fraction :: "loss_window \<Rightarrow> rat option" where
  "lw_fraction w =
     (case lw_bounds w of
        None \<Rightarrow> Some 0
      | Some lower \<Rightarrow> do {
          missing \<leftarrow> missing_upto lower (lw_highest w) w 0;
          Some (of_nat missing / of_nat (unat (lw_highest w - lower + 1)))
        })"

declare clear_upto.simps [code] missing_upto.simps [code]

subsection \<open>Round-trip time and jitter\<close>

definition rttAlpha :: rat where "rttAlpha = 1 / 8"
definition rttBeta :: rat where "rttBeta = 1 / 4"

record estimate =
  es_RTT :: duration
  es_Jitter :: duration
  es_Loss :: rat

record estimator =
  em_haveRTT :: bool
  em_srtt :: rat
  em_rttvar :: rat
  em_loss :: loss_window

definition NewEstimator :: "int \<Rightarrow> estimator" where
  "NewEstimator lossWindow =
     \<lparr>em_haveRTT = False, em_srtt = 0, em_rttvar = 0, em_loss = newLossWindow lossWindow\<rparr>"

definition ObserveRTT :: "estimator \<Rightarrow> duration \<Rightarrow> estimator" where
  "ObserveRTT e sample =
     (let s = rat_of_int sample
      in if \<not> em_haveRTT e then e\<lparr>em_srtt := s, em_rttvar := s / 2, em_haveRTT := True\<rparr>
         else
           let d = em_srtt e - s;
               d = (if d < 0 then - d else d)
           in e\<lparr>em_rttvar := (1 - rttBeta) * em_rttvar e + rttBeta * d,
                em_srtt := (1 - rttAlpha) * em_srtt e + rttAlpha * s\<rparr>)"

definition ObserveProbeEcho :: "estimator \<Rightarrow> u64 \<Rightarrow> estimator option" where
  "ObserveProbeEcho e seq = do {w \<leftarrow> lw_observe (em_loss e) seq; Some (e\<lparr>em_loss := w\<rparr>)}"

text \<open>Conversion of a float to a duration truncates towards zero.\<close>

definition Estimator_Estimate :: "estimator \<Rightarrow> estimate option" where
  "Estimator_Estimate e = do {
     loss \<leftarrow> lw_fraction (em_loss e);
     Some \<lparr>es_RTT = to_duration (em_srtt e), es_Jitter = to_duration (em_rttvar e), es_Loss = loss\<rparr>
   }"

subsection \<open>Runs and reference values\<close>

fun observe_all :: "loss_window \<Rightarrow> u64 list \<Rightarrow> loss_window option" where
  "observe_all w [] = Some w"
| "observe_all w (s # ss) = do {w \<leftarrow> lw_observe w s; observe_all w ss}"

text \<open>The window the loss is measured over: the last win sequences, but none before the first echo.\<close>

definition loss_range :: "nat \<Rightarrow> u64 list \<Rightarrow> u64 set" where
  "loss_range win os = {k. hd os \<le> k \<and> k \<le> Max (set os) \<and> unat (Max (set os)) < unat k + win}"

section \<open>The loss window is exact\<close>

definition lw_ok :: "loss_window \<Rightarrow> bool" where
  "lw_ok w \<longleftrightarrow> 0 < lw_win w \<and> lw_win w < 2 ^ 63 \<and> length (lw_recv w) = lw_win w"

lemma lw_slot_nat: "lw_ok w \<Longrightarrow> lw_slot w s = unat s mod lw_win w"
  by (simp add: lw_slot_def lw_ok_def unat_mod unat_of_nat take_bit_nat_eq_self)

lemma lw_slot_bound: "lw_ok w \<Longrightarrow> lw_slot w s < length (lw_recv w)"
  by (simp add: lw_slot_nat) (simp add: lw_ok_def)

lemma set_recv_simps [simp]:
  "lw_win (set_recv w s b) = lw_win w" "lw_first (set_recv w s b) = lw_first w"
  "lw_highest (set_recv w s b) = lw_highest w" "lw_have (set_recv w s b) = lw_have w"
  "lw_ok (set_recv w s b) = lw_ok w" "lw_slot (set_recv w s b) = lw_slot w"
  by (simp_all add: set_recv_def lw_ok_def lw_slot_def fun_eq_iff)

lemma recv_set_recv:
  "lw_ok w \<Longrightarrow> lw_recv (set_recv w s b) ! lw_slot w k = (if lw_slot w k = lw_slot w s then b else lw_recv w ! lw_slot w k)"
  using lw_slot_bound [of w s] by (simp add: set_recv_def nth_list_update)

lemma clear_upto_spec:
  assumes "lw_ok w" and "seq \<noteq> - 1"
  shows "\<exists>w'. clear_upto k seq w = Some w' \<and> lw_ok w' \<and> lw_win w' = lw_win w \<and> lw_first w' = lw_first w \<and>
    lw_highest w' = lw_highest w \<and> lw_have w' = lw_have w \<and>
    (\<forall>j. lw_recv w' ! lw_slot w j =
      ((\<forall>i. k \<le> i \<longrightarrow> i \<le> seq \<longrightarrow> lw_slot w i \<noteq> lw_slot w j) \<and> lw_recv w ! lw_slot w j))"
  using assms(1)
proof (induction "Suc (unat seq) - unat k" arbitrary: k w)
  case 0
  then have "\<not> k \<le> seq" by (simp add: word_le_nat_alt)
  moreover have "\<not> (k \<le> i \<and> i \<le> seq)" for i using calculation by (meson order.trans)
  ultimately show ?case using 0 by (subst clear_upto.simps) auto
next
  case (Suc n)
  then have le: "k \<le> seq" by (simp add: word_le_nat_alt)
  have "k < - 1" using le assms(2) word_order.not_eq_extremum [of seq] by (meson order.strict_trans1)
  then have succ: "unat (k + 1) = Suc (unat k)" using unat_plus_one_nowrap [of k "- 1"] by simp
  let ?w = "set_recv w k False"
  have "n = Suc (unat seq) - unat (k + 1)" using Suc.hyps(2) succ by simp
  from Suc.hyps(1) [OF this, of ?w] Suc.prems obtain w' where w': "clear_upto (k + 1) seq ?w = Some w'"
    "lw_ok w'" "lw_win w' = lw_win w" "lw_first w' = lw_first w" "lw_highest w' = lw_highest w" "lw_have w' = lw_have w"
    "\<And>j. lw_recv w' ! lw_slot w j =
      ((\<forall>i. k + 1 \<le> i \<longrightarrow> i \<le> seq \<longrightarrow> lw_slot w i \<noteq> lw_slot w j) \<and> lw_recv ?w ! lw_slot w j)"
    by auto
  have split: "k \<le> i \<longleftrightarrow> i = k \<or> k + 1 \<le> i" for i
    using succ by (auto simp: word_le_nat_alt word_unat_eq_iff)
  have "clear_upto k seq w = Some w'" using le w'(1) by (subst clear_upto.simps) simp
  moreover have "lw_recv w' ! lw_slot w j =
      ((\<forall>i. k \<le> i \<longrightarrow> i \<le> seq \<longrightarrow> lw_slot w i \<noteq> lw_slot w j) \<and> lw_recv w ! lw_slot w j)" for j
    unfolding w'(7) recv_set_recv [OF Suc.prems] split using le by auto
  ultimately show ?case using w'(2-6) by blast
qed

definition in_window :: "loss_window \<Rightarrow> u64 \<Rightarrow> bool" where
  "in_window w k \<longleftrightarrow> k \<le> lw_highest w \<and> unat (lw_highest w) < unat k + lw_win w"

definition lw_tracks :: "u64 list \<Rightarrow> loss_window \<Rightarrow> bool" where
  "lw_tracks os w \<longleftrightarrow> lw_ok w \<and> lw_have w = (os \<noteq> []) \<and>
     (os \<noteq> [] \<longrightarrow> lw_first w = hd os \<and> lw_highest w = Max (set os) \<and>
       (\<forall>k. in_window w k \<longrightarrow> lw_recv w ! lw_slot w k = (k \<in> set os)))"

lemma slot_inj:
  assumes "lw_ok w" and "lw_slot w i = lw_slot w j" and "unat i < unat j + lw_win w" and "unat j < unat i + lw_win w"
  shows "i = j"
proof -
  have eq: "unat i mod lw_win w = unat j mod lw_win w" using assms(1,2) by (simp add: lw_slot_nat)
  have "x = y" if "x mod m = y mod m" "x \<le> y" "y < x + m" for x y m :: nat
  proof -
    have "m dvd y - x" using that(1,2) mod_eq_dvd_iff_nat [of x y m] by simp
    then show ?thesis using that(2,3) by (auto dest: dvd_imp_le)
  qed
  from this [of "unat i" "lw_win w" "unat j"] this [of "unat j" "lw_win w" "unat i"]
  have "unat i = unat j" using eq assms(3,4) by (cases "unat i \<le> unat j") auto
  then show ?thesis by (simp add: word_unat_eq_iff)
qed

lemma win_word: "lw_ok w \<Longrightarrow> unat (of_nat (lw_win w) :: u64) = lw_win w"
  by (simp add: lw_ok_def unat_of_nat take_bit_nat_eq_self)

lemma clear_recv_simps [simp]:
  "lw_win (clear_recv w) = lw_win w" "lw_first (clear_recv w) = lw_first w"
  "lw_highest (clear_recv w) = lw_highest w" "lw_have (clear_recv w) = lw_have w"
  "lw_ok (clear_recv w) = lw_ok w" "lw_slot (clear_recv w) = lw_slot w"
  by (simp_all add: clear_recv_def lw_ok_def lw_slot_def fun_eq_iff)

lemma recv_clear_recv: "lw_ok w \<Longrightarrow> \<not> lw_recv (clear_recv w) ! lw_slot w k"
  using lw_slot_bound [of w k] by (simp add: clear_recv_def)

lemma slot_cong: "lw_win w' = lw_win w \<Longrightarrow> lw_slot w' = lw_slot w"
  by (simp add: lw_slot_def fun_eq_iff)

lemma Max_snoc: "os \<noteq> [] \<Longrightarrow> Max (set (os @ [s])) = max s (Max (set os))" for s :: u64
  by simp

lemma observe_first:
  assumes "lw_tracks [] w"
  shows "\<exists>w'. lw_observe w s = Some w' \<and> lw_tracks [s] w' \<and> lw_win w' = lw_win w"
proof -
  let ?v = "w\<lparr>lw_have := True, lw_first := s, lw_highest := s\<rparr>"
  let ?w' = "set_recv (clear_recv ?v) s True"
  have have_w: "\<not> lw_have w" and ok: "lw_ok ?v" using assms by (auto simp: lw_tracks_def lw_ok_def)
  have "lw_recv ?w' ! lw_slot ?v k = (k = s)" if "in_window ?w' k" for k
  proof -
    have "lw_slot ?v k = lw_slot ?v s \<Longrightarrow> k = s"
      using that by (intro slot_inj [OF ok]) (auto simp: in_window_def word_le_nat_alt)
    then show ?thesis using recv_set_recv [of "clear_recv ?v" s True k] recv_clear_recv [OF ok, of k] ok by auto
  qed
  then have "lw_tracks [s] ?w'" using ok by (auto simp: lw_tracks_def)
  then show ?thesis using have_w by (simp add: lw_observe_def)
qed

lemma observe_late:
  assumes tr: "lw_tracks os w" and "os \<noteq> []" and le: "s \<le> lw_highest w"
  shows "\<exists>w'. lw_observe w s = Some w' \<and> lw_tracks (os @ [s]) w' \<and> lw_win w' = lw_win w"
proof -
  have ok: "lw_ok w" and hv: "lw_have w" and hi: "lw_highest w = Max (set os)" and fi: "lw_first w = hd os"
    and rc: "\<And>k. in_window w k \<Longrightarrow> lw_recv w ! lw_slot w k = (k \<in> set os)"
    using tr \<open>os \<noteq> []\<close> by (auto simp: lw_tracks_def)
  have mx: "lw_highest w = Max (set (os @ [s]))" using le hi Max_snoc [OF \<open>os \<noteq> []\<close>] by (simp add: max_def)
  have inw: "lw_highest w - s < of_nat (lw_win w) \<longleftrightarrow> in_window w s"
    using le by (auto simp: in_window_def word_less_nat_alt win_word [OF ok] unat_sub word_le_nat_alt)
  show ?thesis
  proof (cases "in_window w s")
    case True
    let ?w' = "set_recv w s True"
    have "lw_recv ?w' ! lw_slot w k = (k \<in> set (os @ [s]))" if k: "in_window w k" for k
    proof -
      have "lw_slot w k = lw_slot w s \<Longrightarrow> k = s"
        using k True by (intro slot_inj [OF ok]) (auto simp: in_window_def word_le_nat_alt)
      then show ?thesis using rc [OF k] recv_set_recv [OF ok, of s True k] by auto
    qed
    then have "lw_tracks (os @ [s]) ?w'"
      unfolding lw_tracks_def using ok hv fi mx \<open>os \<noteq> []\<close> by (simp add: in_window_def)
    then show ?thesis using hv leD [OF le] inw True by (simp add: lw_observe_def)
  next
    case False
    have "lw_recv w ! lw_slot w k = (k \<in> set (os @ [s]))" if "in_window w k" for k
      using rc [OF that] False that by auto
    then have "lw_tracks (os @ [s]) w" unfolding lw_tracks_def using ok hv fi mx \<open>os \<noteq> []\<close> by simp
    then show ?thesis using hv leD [OF le] inw False by (simp add: lw_observe_def)
  qed
qed

text \<open>Before the new highest sequence is marked, its newly exposed range is cleared, in either way.\<close>

lemma exposed_cleared:
  assumes ok: "lw_ok w" and lt: "lw_highest w < s" and "s \<noteq> - 1"
  shows "\<exists>v. (if s - lw_highest w \<ge> of_nat (lw_win w) then Some (clear_recv w)
              else clear_upto (lw_highest w + 1) s w) = Some v \<and>
    lw_ok v \<and> lw_win v = lw_win w \<and> lw_first v = lw_first w \<and> lw_have v = lw_have w \<and>
    (\<forall>k. k \<le> s \<longrightarrow> unat s < unat k + lw_win w \<longrightarrow>
      lw_recv v ! lw_slot w k = (k \<le> lw_highest w \<and> lw_recv w ! lw_slot w k))"
proof (cases "s - lw_highest w \<ge> of_nat (lw_win w)")
  case True
  then have "unat (lw_highest w) + lw_win w \<le> unat s"
    using lt by (simp add: word_le_nat_alt word_less_nat_alt win_word [OF ok] unat_sub)
  then have "\<not> k \<le> lw_highest w" if "unat s < unat k + lw_win w" for k
    using that by (simp add: word_le_nat_alt)
  then show ?thesis
    unfolding if_P [OF True] using ok recv_clear_recv [OF ok] by (intro exI [of _ "clear_recv w"]) simp
next
  case False
  then have near: "unat s < unat (lw_highest w) + lw_win w"
    using lt by (simp add: word_le_nat_alt word_less_nat_alt win_word [OF ok] unat_sub)
  have "lw_highest w < - 1" using lt by (meson order.strict_trans2 word_order.extremum)
  then have succ: "unat (lw_highest w + 1) = Suc (unat (lw_highest w))"
    using unat_plus_one_nowrap [of "lw_highest w" "- 1"] by simp
  obtain v where v: "clear_upto (lw_highest w + 1) s w = Some v" "lw_ok v" "lw_win v = lw_win w"
    "lw_first v = lw_first w" "lw_have v = lw_have w"
    "\<And>j. lw_recv v ! lw_slot w j = ((\<forall>i. lw_highest w + 1 \<le> i \<longrightarrow> i \<le> s \<longrightarrow> lw_slot w i \<noteq> lw_slot w j) \<and> lw_recv w ! lw_slot w j)"
    using clear_upto_spec [OF ok \<open>s \<noteq> - 1\<close>, of "lw_highest w + 1"] by blast
  have keep: "lw_slot w i \<noteq> lw_slot w k"
    if "k \<le> lw_highest w" "unat s < unat k + lw_win w" "lw_highest w + 1 \<le> i" "i \<le> s" for i k
  proof
    assume "lw_slot w i = lw_slot w k"
    then have "i = k" by (rule slot_inj [OF ok]) (use that succ in \<open>simp_all add: word_le_nat_alt\<close>)
    then show False using that(1,3) succ by (simp add: word_le_nat_alt)
  qed
  have "lw_recv v ! lw_slot w k = (k \<le> lw_highest w \<and> lw_recv w ! lw_slot w k)"
    if ks: "k \<le> s" "unat s < unat k + lw_win w" for k
  proof (cases "k \<le> lw_highest w")
    case True
    then show ?thesis unfolding v(6) using keep [OF True ks(2)] by blast
  next
    case False
    then have "lw_highest w + 1 \<le> k" using succ by (simp add: word_le_nat_alt)
    then show ?thesis unfolding v(6) using False ks(1) by blast
  qed
  then show ?thesis unfolding if_not_P [OF False] using v(1-5) by blast
qed

lemma observe_advance:
  assumes tr: "lw_tracks os w" and "os \<noteq> []" and lt: "lw_highest w < s" and "s \<noteq> - 1"
  shows "\<exists>w'. lw_observe w s = Some w' \<and> lw_tracks (os @ [s]) w' \<and> lw_win w' = lw_win w"
proof -
  have ok: "lw_ok w" and hv: "lw_have w" and hi: "lw_highest w = Max (set os)" and fi: "lw_first w = hd os"
    and rc: "\<And>k. in_window w k \<Longrightarrow> lw_recv w ! lw_slot w k = (k \<in> set os)"
    using tr \<open>os \<noteq> []\<close> by (auto simp: lw_tracks_def)
  have "max s (Max (set os)) = s" using lt hi by (intro max.absorb1) simp
  then have mx: "Max (set (os @ [s])) = s" unfolding Max_snoc [OF \<open>os \<noteq> []\<close>] .
  have above: "k \<in> set os \<Longrightarrow> k \<le> lw_highest w" for k using hi by simp
  obtain v where v: "(if s - lw_highest w \<ge> of_nat (lw_win w) then Some (clear_recv w)
              else clear_upto (lw_highest w + 1) s w) = Some v"
    "lw_ok v" "lw_win v = lw_win w" "lw_first v = lw_first w" "lw_have v = lw_have w"
    and rcv: "\<forall>k. k \<le> s \<longrightarrow> unat s < unat k + lw_win w \<longrightarrow>
      lw_recv v ! lw_slot w k = (k \<le> lw_highest w \<and> lw_recv w ! lw_slot w k)"
    using exposed_cleared [OF ok lt \<open>s \<noteq> - 1\<close>] by (elim exE conjE)
  let ?w' = "(set_recv v s True)\<lparr>lw_highest := s\<rparr>"
  have slot: "lw_slot v = lw_slot w" "lw_slot ?w' = lw_slot w" by (rule slot_cong, simp add: v(3))+
  have "lw_recv ?w' ! lw_slot w k = (k \<in> set (os @ [s]))" if k: "in_window ?w' k" for k
  proof -
    have win: "k \<le> s" "unat s < unat k + lw_win w" using k v(3) by (auto simp: in_window_def)
    have "lw_slot w k = lw_slot w s \<Longrightarrow> k = s"
      using win by (intro slot_inj [OF ok]) (auto simp: word_le_nat_alt)
    moreover have "k \<le> lw_highest w \<Longrightarrow> in_window w k"
      using win lt by (auto simp: in_window_def word_less_nat_alt)
    ultimately show ?thesis
      using rcv [rule_format, OF win] rc [of k] above [of k] recv_set_recv [OF v(2), of s True k] slot by auto
  qed
  then have "lw_tracks (os @ [s]) ?w'"
    unfolding lw_tracks_def slot using v(2-5) hv fi mx \<open>os \<noteq> []\<close> by (simp add: lw_ok_def set_recv_def)
  moreover have "lw_observe w s = Some ?w'" unfolding lw_observe_def v(1) using hv lt by simp
  moreover have "lw_win ?w' = lw_win w" using v(3) by simp
  ultimately show ?thesis by blast
qed

lemma observe_all_tracks:
  assumes "lw_tracks os w" and "\<And>s. s \<in> set ss \<Longrightarrow> s \<noteq> - 1"
  shows "\<exists>w'. observe_all w ss = Some w' \<and> lw_tracks (os @ ss) w' \<and> lw_win w' = lw_win w"
  using assms
proof (induction ss arbitrary: os w)
  case (Cons s ss)
  have "\<exists>w'. lw_observe w s = Some w' \<and> lw_tracks (os @ [s]) w' \<and> lw_win w' = lw_win w"
  proof (cases "os = []")
    case False
    then show ?thesis
      using observe_late [OF Cons.prems(1) False, of s] observe_advance [OF Cons.prems(1) False, of s] Cons.prems(2)
      by (cases "s \<le> lw_highest w") (simp_all add: not_le)
  qed (use observe_first Cons.prems(1) in simp)
  then obtain w' where w': "lw_observe w s = Some w'" "lw_tracks (os @ [s]) w'" "lw_win w' = lw_win w" by blast
  show ?case using Cons.IH [OF w'(2)] Cons.prems(2) w'(1,3) by simp
qed simp

lemma missing_upto_card:
  assumes "hi \<noteq> - 1"
  shows "missing_upto k hi w m = Some (m + card {j. k \<le> j \<and> j \<le> hi \<and> \<not> lw_recv w ! lw_slot w j})"
proof (induction "Suc (unat hi) - unat k" arbitrary: k m)
  case 0
  then have "\<not> k \<le> hi" by (simp add: word_le_nat_alt)
  moreover have "{j. k \<le> j \<and> j \<le> hi \<and> \<not> lw_recv w ! lw_slot w j} = {}" using calculation by auto
  ultimately show ?case by (subst missing_upto.simps) simp
next
  case (Suc n)
  then have le: "k \<le> hi" by (simp add: word_le_nat_alt)
  have "k < - 1" using le assms word_order.not_eq_extremum [of hi] by (meson order.strict_trans1)
  then have succ: "unat (k + 1) = Suc (unat k)" using unat_plus_one_nowrap [of k "- 1"] by simp
  let ?J = "\<lambda>k. {j. k \<le> j \<and> j \<le> hi \<and> \<not> lw_recv w ! lw_slot w j}"
  have split: "k \<le> i \<longleftrightarrow> i = k \<or> k + 1 \<le> i" for i
    using succ by (auto simp: word_le_nat_alt word_unat_eq_iff)
  have "?J k = (if \<not> lw_recv w ! lw_slot w k then insert k (?J (k + 1)) else ?J (k + 1))"
    unfolding split using le by auto
  moreover have nk: "k \<notin> ?J (k + 1)" using succ by (simp add: word_le_nat_alt)
  ultimately have "card (?J k) = (if \<not> lw_recv w ! lw_slot w k then 1 else 0) + card (?J (k + 1))"
    using card_insert_disjoint [OF finite nk] by (simp only: if_cancel split: if_split) auto
  moreover have "n = Suc (unat hi) - unat (k + 1)" using Suc.hyps(2) succ by simp
  ultimately show ?case using Suc.hyps(1) [of "k + 1"] le by (subst missing_upto.simps) simp
qed

lemma bounds_range:
  assumes tr: "lw_tracks os w" and "os \<noteq> []" and "Max (set os) \<noteq> - 1"
  obtains lower where "lw_bounds w = Some lower" "lower \<le> lw_highest w"
    "\<And>k. lower \<le> k \<and> k \<le> lw_highest w \<longleftrightarrow> k \<in> loss_range (lw_win w) os"
proof -
  have ok: "lw_ok w" and hv: "lw_have w" and hi: "lw_highest w = Max (set os)" and fi: "lw_first w = hd os"
    using tr \<open>os \<noteq> []\<close> by (auto simp: lw_tracks_def)
  let ?h = "lw_highest w" and ?n = "of_nat (lw_win w) :: u64"
  have "?h < - 1" using assms(3) hi word_order.not_eq_extremum by metis
  then have succ: "unat (?h + 1) = Suc (unat ?h)" using unat_plus_one_nowrap [of ?h "- 1"] by simp
  have pos: "0 < lw_win w" using ok by (simp add: lw_ok_def)
  define low where "low = (if ?h + 1 > ?n then ?h + 1 - ?n else 0)"
  have low: "unat low = Suc (unat ?h) - lw_win w"
    using succ by (auto simp: low_def word_less_nat_alt win_word [OF ok] unat_sub word_le_nat_alt)
  have le: "hd os \<le> ?h" unfolding hi using \<open>os \<noteq> []\<close> by simp
  define lower where "lower = (if low < hd os then hd os else low)"
  have "lw_bounds w = Some lower" using hv by (simp add: lw_bounds_def low_def lower_def fi Let_def)
  moreover have "lower \<le> ?h" using le low pos by (auto simp: lower_def word_le_nat_alt)
  moreover have "lower \<le> k \<and> k \<le> ?h \<longleftrightarrow> k \<in> loss_range (lw_win w) os" for k
    using low pos by (auto simp: lower_def loss_range_def hi [symmetric] word_le_nat_alt word_less_nat_alt)
  ultimately show thesis by (rule that)
qed

lemma range_card:
  fixes lo hi :: u64
  assumes "lo \<le> hi" and "hi \<noteq> - 1"
  shows "card {k. lo \<le> k \<and> k \<le> hi} = unat (hi - lo + 1)"
proof -
  have "hi - lo \<le> hi" using assms(1) by (simp add: word_sub_le)
  then have "hi - lo < - 1" using assms(2) word_order.not_eq_extremum [of hi] by (meson order.strict_trans1)
  then have "unat (hi - lo + 1) = Suc (unat hi - unat lo)"
    using unat_plus_one_nowrap [of "hi - lo" "- 1"] assms(1) by (simp add: unat_sub)
  moreover have "unat ` {k. lo \<le> k \<and> k \<le> hi} = {unat lo .. unat hi}"
  proof -
    have "x = unat (of_nat x :: u64)" if "x \<le> unat hi" for x
      using that unat_u64_less [of hi] by (simp add: unat_of_nat take_bit_nat_eq_self)
    then show ?thesis by (force simp: word_le_nat_alt image_iff)
  qed
  moreover have "inj_on unat {k. lo \<le> k \<and> k \<le> hi}" by (simp add: inj_on_def word_unat_eq_iff)
  from card_image [OF this] have "card {k. lo \<le> k \<and> k \<le> hi} = card (unat ` {k. lo \<le> k \<and> k \<le> hi})" by simp
  ultimately show ?thesis using assms(1) by (simp add: word_le_nat_alt Suc_diff_le)
qed

lemma fraction_exact:
  assumes tr: "lw_tracks os w" and "os \<noteq> []" and "Max (set os) \<noteq> - 1"
  shows "lw_fraction w = Some (of_nat (card {k \<in> loss_range (lw_win w) os. k \<notin> set os}) /
    of_nat (card (loss_range (lw_win w) os)))"
proof -
  have hi: "lw_highest w = Max (set os)"
    and rc: "\<And>k. in_window w k \<Longrightarrow> lw_recv w ! lw_slot w k = (k \<in> set os)"
    using tr \<open>os \<noteq> []\<close> by (auto simp: lw_tracks_def)
  obtain lower where lo: "lw_bounds w = Some lower" "lower \<le> lw_highest w"
    and rg: "\<And>k. lower \<le> k \<and> k \<le> lw_highest w \<longleftrightarrow> k \<in> loss_range (lw_win w) os"
    using bounds_range [OF assms] by blast
  have ne: "lw_highest w \<noteq> - 1" using assms(3) hi by simp
  have "card (loss_range (lw_win w) os) = unat (lw_highest w - lower + 1)"
    using range_card [OF lo(2) ne] by (simp add: rg)
  moreover have "in_window w k" if "k \<in> loss_range (lw_win w) os" for k
    using that by (simp add: loss_range_def in_window_def hi)
  then have "{j. lower \<le> j \<and> j \<le> lw_highest w \<and> \<not> lw_recv w ! lw_slot w j} = {k \<in> loss_range (lw_win w) os. k \<notin> set os}"
    using rc rg by blast
  ultimately show ?thesis by (simp add: lw_fraction_def lo(1) missing_upto_card [OF ne])
qed

text \<open>
  C11: the loss estimate is exact. Whatever order probe echoes arrive in, with duplicates and late
  ones, observing them ends, and the fraction reported is the number of sequences of the trailing
  window, bounded below by the first echo, that never arrived over the size of that range.
\<close>

theorem loss_fraction_exact:
  assumes "0 < win" and "win < 2 ^ 63" and "os \<noteq> []" and "- 1 \<notin> set os"
  shows "\<exists>w. observe_all (newLossWindow win) os = Some w \<and>
    lw_fraction w = Some (of_nat (card {k \<in> loss_range (nat win) os. k \<notin> set os}) / of_nat (card (loss_range (nat win) os)))"
proof -
  have "nat win < 2 ^ 63" using assms(1,2) by (simp add: nat_less_iff)
  then have "lw_tracks [] (newLossWindow win)" using assms(1) by (simp add: lw_tracks_def lw_ok_def newLossWindow_def)
  then obtain w where w: "observe_all (newLossWindow win) os = Some w" "lw_tracks os w" "lw_win w = nat win"
    using observe_all_tracks [of "[]" "newLossWindow win" os] assms(1,4) by (auto simp: newLossWindow_def)
  have "Max (set os) \<noteq> - 1" using Max_in [of "set os"] assms(3,4) by (metis List.finite_set set_empty)
  then show ?thesis using fraction_exact [OF w(2) assms(3)] w(1,3) by simp
qed

theorem loss_fraction_exact_witness:
  "\<exists>w. observe_all (newLossWindow 4) [5, 3, 9, 7] = Some w \<and>
    lw_fraction w = Some (of_nat (card {k \<in> loss_range (nat 4) [5, 3, 9, 7]. k \<notin> set [5, 3, 9, 7]}) /
      of_nat (card (loss_range (nat 4) [5, 3, 9, 7])))"
  by (rule loss_fraction_exact) simp_all

section \<open>Round-trip time and jitter stay within the samples\<close>

definition rtt_within :: "rat \<Rightarrow> rat \<Rightarrow> estimator \<Rightarrow> bool" where
  "rtt_within lo hi e \<longleftrightarrow> lo \<le> em_srtt e \<and> em_srtt e \<le> hi \<and> 0 \<le> em_rttvar e \<and> em_rttvar e \<le> hi"

lemma blend_within:
  fixes a b t :: rat
  assumes "0 \<le> t" "t \<le> 1" "lo \<le> a" "a \<le> hi" "lo \<le> b" "b \<le> hi"
  shows "lo \<le> (1 - t) * a + t * b" and "(1 - t) * a + t * b \<le> hi"
proof -
  have "(1 - t) * lo + t * lo \<le> (1 - t) * a + t * b" using assms by (intro add_mono mult_left_mono) auto
  then show "lo \<le> (1 - t) * a + t * b" by (simp add: algebra_simps)
  have "(1 - t) * a + t * b \<le> (1 - t) * hi + t * hi" using assms by (intro add_mono mult_left_mono) auto
  then show "(1 - t) * a + t * b \<le> hi" by (simp add: algebra_simps)
qed

lemma ObserveRTT_within:
  assumes "0 \<le> lo" and "lo \<le> s" and "s \<le> hi" and "em_haveRTT e \<longrightarrow> rtt_within (of_int lo) (of_int hi) e"
  shows "em_haveRTT (ObserveRTT e s) \<and> rtt_within (of_int lo) (of_int hi) (ObserveRTT e s) \<and>
    em_loss (ObserveRTT e s) = em_loss e"
proof (cases "em_haveRTT e")
  case False
  have "(0 :: rat) \<le> of_int lo" "(of_int lo :: rat) \<le> of_int s" "(of_int s :: rat) \<le> of_int hi" using assms(1-3) by simp_all
  then show ?thesis using False by (simp add: ObserveRTT_def rtt_within_def Let_def)
next
  case True
  have b: "(0 :: rat) \<le> of_int lo" "(of_int lo :: rat) \<le> of_int s" "(of_int s :: rat) \<le> of_int hi" using assms(1-3) by simp_all
  have w: "rtt_within (of_int lo) (of_int hi) e" using assms(4) True by simp
  define d where "d = (if em_srtt e - of_int s < 0 then - (em_srtt e - of_int s) else em_srtt e - of_int s)"
  have d: "0 \<le> d" "d \<le> of_int hi" using w b by (auto simp: d_def rtt_within_def)
  have "ObserveRTT e s = e\<lparr>em_rttvar := (1 - rttBeta) * em_rttvar e + rttBeta * d,
      em_srtt := (1 - rttAlpha) * em_srtt e + rttAlpha * of_int s\<rparr>"
    using True by (simp add: ObserveRTT_def d_def Let_def)
  then show ?thesis
    using blend_within [of rttBeta 0 "em_rttvar e" "of_int hi" d] d w True
      blend_within [of rttAlpha "of_int lo" "em_srtt e" "of_int hi" "of_int s"] b
    by (simp add: rtt_within_def) (simp add: rttAlpha_def rttBeta_def)
qed

lemma ObserveRTT_all_within:
  assumes "0 \<le> lo" and "\<And>s. s \<in> set ss \<Longrightarrow> lo \<le> s \<and> s \<le> hi" and "em_haveRTT e \<longrightarrow> rtt_within (of_int lo) (of_int hi) e"
    and "em_haveRTT e \<or> ss \<noteq> []"
  shows "rtt_within (of_int lo) (of_int hi) (foldl ObserveRTT e ss) \<and> em_loss (foldl ObserveRTT e ss) = em_loss e"
  using assms(2-4)
proof (induction ss arbitrary: e)
  case (Cons s ss)
  have "lo \<le> s" "s \<le> hi" using Cons.prems(1) by simp_all
  from ObserveRTT_within [OF assms(1) this Cons.prems(2)] Cons.IH [of "ObserveRTT e s"] Cons.prems(1)
  show ?case by simp
qed simp

text \<open>
  C33: the smoothed round-trip time never leaves the range of its samples, and the jitter is
  between zero and the largest sample, for every sequence of samples.
\<close>

theorem estimate_within_samples:
  assumes "ss \<noteq> []" and "0 \<le> lo" and "\<forall>s \<in> set ss. lo \<le> s \<and> s \<le> hi"
  shows "\<exists>est. Estimator_Estimate (foldl ObserveRTT (NewEstimator n) ss) = Some est \<and>
    lo \<le> es_RTT est \<and> es_RTT est \<le> hi \<and> 0 \<le> es_Jitter est \<and> es_Jitter est \<le> hi \<and> es_Loss est = 0"
proof -
  let ?e = "foldl ObserveRTT (NewEstimator n) ss"
  have w: "rtt_within (of_int lo) (of_int hi) ?e" and "em_loss ?e = newLossWindow n"
    using ObserveRTT_all_within [OF assms(2), of ss hi "NewEstimator n"] assms by (auto simp: NewEstimator_def)
  then have "lw_fraction (em_loss ?e) = Some 0" by (simp add: lw_fraction_def lw_bounds_def newLossWindow_def)
  moreover have "(0 :: rat) \<le> of_int lo" using assms(2) by simp
  then have "to_duration (em_srtt ?e) = \<lfloor>em_srtt ?e\<rfloor>" "to_duration (em_rttvar ?e) = \<lfloor>em_rttvar ?e\<rfloor>"
    using w by (auto simp: to_duration_def rtt_within_def)
  moreover have "lo \<le> \<lfloor>em_srtt ?e\<rfloor>" "\<lfloor>em_srtt ?e\<rfloor> \<le> hi" "0 \<le> \<lfloor>em_rttvar ?e\<rfloor>" "\<lfloor>em_rttvar ?e\<rfloor> \<le> hi"
    using w by (auto simp: rtt_within_def le_floor_iff floor_le_iff)
  ultimately show ?thesis by (simp add: Estimator_Estimate_def)
qed

theorem estimate_within_samples_witness:
  "\<exists>est. Estimator_Estimate (foldl ObserveRTT (NewEstimator 0) [20000000, 24000000, 90000000]) = Some est \<and>
    20000000 \<le> es_RTT est \<and> es_RTT est \<le> 90000000 \<and> 0 \<le> es_Jitter est \<and> es_Jitter est \<le> 90000000 \<and> es_Loss est = 0"
  by (rule estimate_within_samples) simp_all

end
