(* ===== verification/Probe.thy ===== *)
theory Probe
  imports Replay Liveness Estimator
begin

text \<open>
  The probe exchange of internal/telemetry/probe.go: the initiator (Prober) that stamps, sends
  and consumes probes, and the responder (Reflector) that authenticates, classifies and echoes
  them. Bytes on the wire are those of the frame codec. The clock is read through arguments, one
  per reading; the random source is the list of bytes it still delivers, and fails when fewer
  than the requested number are left. A prober operation is None when the loss window never
  returns.
\<close>

section \<open>Definitions\<close>

datatype probe_error =
    FrameError frame_error
  | NotProbe u8
  | ErrReplay
  | ErrPathMismatch
  | ErrSessionMismatch
  | RandError

subsection \<open>Random draws\<close>

definition readUint64 :: "bytes \<Rightarrow> u64 option \<times> bytes" where
  "readUint64 r = (if length r < 8 then (None, []) else (Some (get_u64 (take 8 r)), drop 8 r))"

definition NewSessionID :: "bytes \<Rightarrow> (probe_error + u64) \<times> bytes" where
  "NewSessionID rand =
     (case readUint64 rand of (None, r) \<Rightarrow> (Inl RandError, r) | (Some v, r) \<Rightarrow> (Inr v, r))"

function drawChallenge :: "bytes \<Rightarrow> (probe_error + u64) \<times> bytes" where
  "drawChallenge rand =
     (case readUint64 rand of
        (None, r) \<Rightarrow> (Inl RandError, r)
      | (Some v, r) \<Rightarrow> if v \<noteq> 0 then (Inr v, r) else drawChallenge r)"
  by pat_completeness auto
termination by (relation "measure length") (auto simp: readUint64_def split: if_splits)

declare drawChallenge.simps [simp del]

subsection \<open>The initiator\<close>

record prober_config =
  pc_LossWindow :: int
  pc_Liveness :: liveness_config

record prober =
  pb_pathName :: string
  pb_pathID :: u8
  pb_sessionID :: u64
  pb_psk :: key
  pb_nextSeq :: u64
  pb_guard :: anti_replay
  pb_learnedChallenge :: u64
  pb_est :: estimator
  pb_live :: liveness

definition NewProber :: "string \<Rightarrow> u8 \<Rightarrow> u64 \<Rightarrow> key \<Rightarrow> prober_config \<Rightarrow> prober" where
  "NewProber pathName pathID sessionID psk cfg =
     \<lparr>pb_pathName = pathName, pb_pathID = pathID, pb_sessionID = sessionID, pb_psk = psk,
      pb_nextSeq = 0, pb_guard = AntiReplay, pb_learnedChallenge = 0,
      pb_est = NewEstimator (pc_LossWindow cfg), pb_live = NewLiveness (pc_Liveness cfg)\<rparr>"

definition buildProbeLocked :: "prober \<Rightarrow> instant \<Rightarrow> probe \<times> prober" where
  "buildProbeLocked p now =
     (\<lparr>pr_PathID = pb_pathID p, pr_ProbeSeq = pb_nextSeq p, pr_TimestampNanos = of_int now,
       pr_IsEcho = False, pr_SessionID = pb_sessionID p, pr_Challenge = pb_learnedChallenge p,
       pr_Padded = False, pr_PadLen = 0, pr_Payload = []\<rparr>,
      p\<lparr>pb_nextSeq := pb_nextSeq p + 1\<rparr>)"

definition SendProbePayload ::
  "crypto \<Rightarrow> prober \<Rightarrow> bytes \<Rightarrow> instant \<Rightarrow> bytes option \<Rightarrow> (frame_error + bytes) \<times> probe \<times> prober" where
  "SendProbePayload X p payload now rnd =
     (let (probe, p) = buildProbeLocked p now;
          probe = probe\<lparr>pr_Payload := payload\<rparr>
      in (Encode X (pb_psk p) (ProbeFrame probe) rnd, probe, p))"

definition SendProbe :: "crypto \<Rightarrow> prober \<Rightarrow> instant \<Rightarrow> bytes option \<Rightarrow> (frame_error + bytes) \<times> prober" where
  "SendProbe X p now rnd = (let (raw, _, p) = SendProbePayload X p [] now rnd in (raw, p))"

definition SendPaddedProbe ::
  "crypto \<Rightarrow> prober \<Rightarrow> int \<Rightarrow> instant \<Rightarrow> bytes option \<Rightarrow> (frame_error + bytes \<times> u64) \<times> prober" where
  "SendPaddedProbe X p onWire now rnd =
     (case PadLenForOnWire onWire of
        Inl e \<Rightarrow> (Inl e, p)
      | Inr padLen \<Rightarrow>
          (let (probe, p) = buildProbeLocked p now;
               probe = probe\<lparr>pr_Padded := True, pr_PadLen := padLen\<rparr>
           in case Encode X (pb_psk p) (ProbeFrame probe) rnd of
                Inl e \<Rightarrow> (Inl e, p)
              | Inr raw \<Rightarrow> (Inr (raw, pr_ProbeSeq probe), p)))"

definition ExcludePaddedProbeLoss :: "prober \<Rightarrow> u64 \<Rightarrow> prober option" where
  "ExcludePaddedProbeLoss p seq = do {e \<leftarrow> ObserveProbeEcho (pb_est p) seq; Some (p\<lparr>pb_est := e\<rparr>)}"

text \<open>The two clock readings are the one of the sample and the one of the liveness machine.\<close>

definition HandleEchoProbe ::
  "crypto \<Rightarrow> prober \<Rightarrow> bytes \<Rightarrow> instant \<Rightarrow> instant \<Rightarrow> ((probe_error + probe) \<times> prober) option" where
  "HandleEchoProbe X p raw now live_now =
     (case Decode X (pb_psk p) raw of
        Inl e \<Rightarrow> Some (Inl (FrameError e), p)
      | Inr (ControlFrame c) \<Rightarrow> Some (Inl (NotProbe (frame_kind (ControlFrame c))), p)
      | Inr (ProbeFrame probe) \<Rightarrow>
          if pr_PathID probe \<noteq> pb_pathID p then Some (Inl ErrPathMismatch, p)
          else if pr_SessionID probe \<noteq> pb_sessionID p then Some (Inl ErrSessionMismatch, p)
          else do {
            est \<leftarrow> ObserveProbeEcho (pb_est p) (pr_ProbeSeq probe);
            let p = p\<lparr>pb_est := est\<rparr>;
            let (ok, guard) = AntiReplay_Accept (pb_guard p) (pr_ProbeSeq probe);
            let p = p\<lparr>pb_guard := guard\<rparr>;
            if \<not> ok then Some (Inl ErrReplay, p)
            else do {
              let p = p\<lparr>pb_learnedChallenge := pr_Challenge probe\<rparr>;
              let rtt = time_sub now (sint (pr_TimestampNanos probe));
              let rtt = (if rtt < 0 then 0 else rtt);
              let p = p\<lparr>pb_est := ObserveRTT (pb_est p) rtt\<rparr>;
              let p = p\<lparr>pb_live := RecordEcho (pb_live p) live_now\<rparr>;
              Some (Inr probe, p)
            }
          })"

definition HandleEcho ::
  "crypto \<Rightarrow> prober \<Rightarrow> bytes \<Rightarrow> instant \<Rightarrow> instant \<Rightarrow> (probe_error option \<times> prober) option" where
  "HandleEcho X p raw now live_now = do {
     (res, p) \<leftarrow> HandleEchoProbe X p raw now live_now;
     Some (case res of Inl e \<Rightarrow> Some e | Inr _ \<Rightarrow> None, p)
   }"

definition Prober_Tick :: "prober \<Rightarrow> instant \<Rightarrow> prober" where
  "Prober_Tick p now = p\<lparr>pb_live := Tick (pb_live p) now\<rparr>"

definition Prober_Estimate :: "prober \<Rightarrow> estimate option" where
  "Prober_Estimate p = Estimator_Estimate (pb_est p)"

definition Prober_State :: "prober \<Rightarrow> path_state" where
  "Prober_State p = Liveness_State (pb_live p)"

subsection \<open>The responder\<close>

record reflector_path =
  rp_session :: u64
  rp_guard :: anti_replay
  rp_challenge :: u64
  rp_adopted :: bool

record reflector =
  rf_psk :: key
  rf_rand :: bytes
  rf_paths :: "u8 \<Rightarrow> reflector_path option"
  rf_lastRestartSession :: u64
  rf_haveRestartSession :: bool

datatype probe_acceptance = ProbeBootstrap | ProbeCurrent | ProbeAdopted

record accepted_probe =
  ap_Probe :: probe
  ap_Acceptance :: probe_acceptance
  ap_EpochChanged :: bool

definition NewReflector :: "key \<Rightarrow> bytes \<Rightarrow> reflector" where
  "NewReflector psk rand =
     \<lparr>rf_psk = psk, rf_rand = rand, rf_paths = (\<lambda>_. None), rf_lastRestartSession = 0, rf_haveRestartSession = False\<rparr>"

text \<open>The entry is a shared pointer in the source: every write to it is a write to the map.\<close>

definition put_path :: "reflector \<Rightarrow> u8 \<Rightarrow> reflector_path \<Rightarrow> reflector" where
  "put_path r pathID st = r\<lparr>rf_paths := (rf_paths r)(pathID \<mapsto> st)\<rparr>"

text \<open>The challenge to stamp, whether to reflect, the class and whether the peer restarted.\<close>

type_synonym verdict = "u64 \<times> bool \<times> probe_acceptance \<times> bool"

definition acceptKnown ::
  "reflector \<Rightarrow> u8 \<Rightarrow> reflector_path \<Rightarrow> u64 \<Rightarrow> u64 \<Rightarrow> u64 \<Rightarrow> (probe_error + verdict) \<times> reflector" where
  "acceptKnown r pathID st sessionID probeSeq echoedChallenge =
     (if rp_adopted st \<and> sessionID = rp_session st then
        let (ok, guard) = AntiReplay_Accept (rp_guard st) probeSeq;
            st = st\<lparr>rp_guard := guard\<rparr>;
            r = put_path r pathID st
        in if \<not> ok then (Inr (0, False, ProbeCurrent, False), r)
           else (Inr (rp_challenge st, True, ProbeCurrent, False), r)
      else if echoedChallenge = rp_challenge st then
        let restart = (rp_adopted st \<and> sessionID \<noteq> rp_session st);
            st = st\<lparr>rp_session := sessionID, rp_adopted := True,
                    rp_guard := snd (AntiReplay_Accept AntiReplay probeSeq)\<rparr>;
            r = put_path r pathID st;
            (res, rand) = drawChallenge (rf_rand r);
            r = r\<lparr>rf_rand := rand\<rparr>
        in case res of
             Inl e \<Rightarrow> (Inl e, r)
           | Inr ch \<Rightarrow>
               let st = st\<lparr>rp_challenge := ch\<rparr>;
                   r = put_path r pathID st
               in if restart \<and> (\<not> rf_haveRestartSession r \<or> sessionID \<noteq> rf_lastRestartSession r)
                  then (Inr (rp_challenge st, True, ProbeAdopted, True),
                        r\<lparr>rf_lastRestartSession := sessionID, rf_haveRestartSession := True\<rparr>)
                  else (Inr (rp_challenge st, True, ProbeAdopted, False), r)
      else (Inr (rp_challenge st, True, ProbeBootstrap, False), r))"

definition acceptLocked ::
  "reflector \<Rightarrow> u8 \<Rightarrow> u64 \<Rightarrow> u64 \<Rightarrow> u64 \<Rightarrow> (probe_error + verdict) \<times> reflector" where
  "acceptLocked r pathID sessionID probeSeq echoedChallenge =
     (case rf_paths r pathID of
        Some st \<Rightarrow> acceptKnown r pathID st sessionID probeSeq echoedChallenge
      | None \<Rightarrow>
          let (res, rand) = drawChallenge (rf_rand r);
              r = r\<lparr>rf_rand := rand\<rparr>
          in case res of
               Inl e \<Rightarrow> (Inl e, r)
             | Inr ch \<Rightarrow>
                 let st = \<lparr>rp_session = 0, rp_guard = AntiReplay, rp_challenge = ch, rp_adopted = False\<rparr>
                 in acceptKnown (put_path r pathID st) pathID st sessionID probeSeq echoedChallenge)"

definition AcceptProbe :: "crypto \<Rightarrow> reflector \<Rightarrow> bytes \<Rightarrow> (probe_error + accepted_probe) \<times> reflector" where
  "AcceptProbe X r raw =
     (case Decode X (rf_psk r) raw of
        Inl e \<Rightarrow> (Inl (FrameError e), r)
      | Inr (ControlFrame c) \<Rightarrow> (Inl (NotProbe (frame_kind (ControlFrame c))), r)
      | Inr (ProbeFrame probe) \<Rightarrow>
          (case acceptLocked r (pr_PathID probe) (pr_SessionID probe) (pr_ProbeSeq probe) (pr_Challenge probe) of
             (Inl e, r) \<Rightarrow> (Inl e, r)
           | (Inr (issued, reflect, acceptance, restarted), r) \<Rightarrow>
               if \<not> reflect then (Inl ErrReplay, r)
               else (Inr \<lparr>ap_Probe = probe\<lparr>pr_IsEcho := True, pr_Challenge := issued\<rparr>,
                          ap_Acceptance = acceptance, ap_EpochChanged = restarted\<rparr>, r)))"

definition EncodeAcceptedProbe ::
  "crypto \<Rightarrow> reflector \<Rightarrow> accepted_probe \<Rightarrow> bytes \<Rightarrow> bytes option \<Rightarrow> frame_error + bytes" where
  "EncodeAcceptedProbe X r accepted payload rnd =
     Encode X (rf_psk r) (ProbeFrame ((ap_Probe accepted)\<lparr>pr_Payload := payload\<rparr>)) rnd"

text \<open>The echo or an error, and whether the peer restarted.\<close>

definition Reflect ::
  "crypto \<Rightarrow> reflector \<Rightarrow> bytes \<Rightarrow> bytes option \<Rightarrow> ((probe_error + bytes) \<times> bool) \<times> reflector" where
  "Reflect X r raw rnd =
     (case AcceptProbe X r raw of
        (Inl e, r) \<Rightarrow> ((Inl e, False), r)
      | (Inr accepted, r) \<Rightarrow>
          (case EncodeAcceptedProbe X r accepted (pr_Payload (ap_Probe accepted)) rnd of
             Inl e \<Rightarrow> ((Inl (FrameError e), ap_EpochChanged accepted), r)
           | Inr out \<Rightarrow> ((Inr out, ap_EpochChanged accepted), r)))"

subsection \<open>One exchange, and runs of the responder\<close>

text \<open>
  A probe sent at \<open>t\<close>, reflected, and its echo handled at \<open>t'\<close>; \<open>n\<close> and \<open>n'\<close> are the two nonces.
  The value is the restart flag and the two parties afterwards, or None when a step fails.
\<close>

definition exchange ::
  "crypto \<Rightarrow> prober \<Rightarrow> reflector \<Rightarrow> instant \<Rightarrow> bytes \<Rightarrow> bytes \<Rightarrow> instant \<Rightarrow> (bool \<times> prober \<times> reflector) option" where
  "exchange X p r t n n' t' =
     (case SendProbe X p t (Some n) of
        (Inl e, p) \<Rightarrow> None
      | (Inr raw, p) \<Rightarrow>
          (case Reflect X r raw (Some n') of
             ((Inl e, epoch), r) \<Rightarrow> None
           | ((Inr echo, epoch), r) \<Rightarrow>
               (case HandleEcho X p echo t' t' of
                  Some (None, p) \<Rightarrow> Some (epoch, p, r)
                | _ \<Rightarrow> None)))"

text \<open>A probe as the responder sees it: path, session, sequence and echoed challenge.\<close>

type_synonym offer = "u8 \<times> u64 \<times> u64 \<times> u64"

fun accept_run :: "reflector \<Rightarrow> offer list \<Rightarrow> (offer \<times> (probe_error + verdict)) list \<times> reflector" where
  "accept_run r [] = ([], r)"
| "accept_run r ((pathID, sessionID, probeSeq, challenge) # xs) =
     (let (v, r) = acceptLocked r pathID sessionID probeSeq challenge;
          (vs, r) = accept_run r xs
      in (((pathID, sessionID, probeSeq, challenge), v) # vs, r))"

fun adopted_with :: "offer \<times> (probe_error + verdict) \<Rightarrow> u64 option" where
  "adopted_with ((_, _, _, ch), Inr (_, _, ProbeAdopted, _)) = Some ch"
| "adopted_with _ = None"

fun restarted_to :: "offer \<times> (probe_error + verdict) \<Rightarrow> u64 option" where
  "restarted_to ((_, sid, _, _), Inr (_, _, _, True)) = Some sid"
| "restarted_to _ = None"

text \<open>
  The session a path has adopted, as the responder's state has it. An offer is adopted when the state
  has its session afterwards and had not before, whatever the verdict returned.
\<close>

definition session_of :: "reflector \<Rightarrow> u8 \<Rightarrow> u64 option" where
  "session_of r pathID =
     (case rf_paths r pathID of None \<Rightarrow> None | Some st \<Rightarrow> if rp_adopted st then Some (rp_session st) else None)"

fun adopts :: "reflector \<Rightarrow> offer \<Rightarrow> bool" where
  "adopts r (pathID, sessionID, probeSeq, challenge) \<longleftrightarrow>
     session_of r pathID \<noteq> Some sessionID \<and>
     session_of (snd (acceptLocked r pathID sessionID probeSeq challenge)) pathID = Some sessionID"

text \<open>The challenges whose echo was adopted, whether no draw failed, and the restarts signalled.\<close>

fun adoptions :: "reflector \<Rightarrow> offer list \<Rightarrow> u64 list" where
  "adoptions r [] = []"
| "adoptions r ((pathID, sessionID, probeSeq, challenge) # xs) =
     (if adopts r (pathID, sessionID, probeSeq, challenge) then [challenge] else []) @
     adoptions (snd (acceptLocked r pathID sessionID probeSeq challenge)) xs"

definition all_drawn :: "reflector \<Rightarrow> offer list \<Rightarrow> bool" where
  "all_drawn r xs = list_all (\<lambda>(x, v). case v of Inl _ \<Rightarrow> False | Inr _ \<Rightarrow> True) (fst (accept_run r xs))"

definition restarts :: "reflector \<Rightarrow> offer list \<Rightarrow> u64 list" where
  "restarts r xs = List.map_filter restarted_to (fst (accept_run r xs))"

text \<open>The words a random source delivers.\<close>

function draws :: "bytes \<Rightarrow> u64 list" where
  "draws rand = (if length rand < 8 then [] else get_u64 (take 8 rand) # draws (drop 8 rand))"
  by pat_completeness auto
termination by (relation "measure length") auto

declare draws.simps [simp del]

section \<open>Challenges are spent once\<close>

lemma drawChallenge_cases:
  assumes "distinct (draws rand)"
  shows "(\<exists>v r. drawChallenge rand = (Inr v, r) \<and> v \<noteq> 0 \<and> v \<in> set (draws rand) \<and> v \<notin> set (draws r) \<and>
      set (draws r) \<subseteq> set (draws rand) \<and> distinct (draws r)) \<or>
    (\<exists>e. drawChallenge rand = (Inl e, []))"
  using assms
proof (induction rand rule: drawChallenge.induct)
  case (1 rand)
  show ?case
  proof (cases "length rand < 8")
    case True
    then show ?thesis by (subst (1 2) drawChallenge.simps) (simp add: readUint64_def)
  next
    case False
    let ?v = "get_u64 (take 8 rand)" and ?r = "drop 8 rand"
    have rd: "readUint64 rand = (Some ?v, ?r)" using False by (simp add: readUint64_def)
    have dr: "draws rand = ?v # draws ?r" using False by (subst draws.simps) simp
    show ?thesis
    proof (cases "?v = 0")
      case True
      then have "drawChallenge rand = drawChallenge ?r" by (subst drawChallenge.simps) (simp add: rd)
      then show ?thesis using "1.IH" [OF rd [symmetric] refl] True "1.prems" dr by auto
    next
      case False
      then have "drawChallenge rand = (Inr ?v, ?r)" by (subst drawChallenge.simps) (simp add: rd)
      then show ?thesis using False "1.prems" dr by auto
    qed
  qed
qed

text \<open>The live challenge of every path; together with the undelivered words, what can still be echoed.\<close>

definition live_challenges :: "reflector \<Rightarrow> u8 \<rightharpoonup> u64" where
  "live_challenges r = (\<lambda>i. map_option rp_challenge (rf_paths r i))"

definition usable :: "(u8 \<rightharpoonup> u64) \<Rightarrow> bytes \<Rightarrow> u64 set" where
  "usable m rand = ran m \<union> (set (draws rand) - {0})"

definition challenges_ok :: "(u8 \<rightharpoonup> u64) \<Rightarrow> bytes \<Rightarrow> bool" where
  "challenges_ok m rand \<longleftrightarrow> distinct (draws rand) \<and> ran m \<inter> set (draws rand) = {} \<and> 0 \<notin> ran m \<and>
     (\<forall>i j c. m i = Some c \<longrightarrow> m j = Some c \<longrightarrow> i = j)"

lemma draws_Nil [simp]: "draws [] = []"
  by (subst draws.simps) simp

lemma live_put_path [simp]: "live_challenges (put_path r i st) = (live_challenges r)(i \<mapsto> rp_challenge st)"
  by (auto simp: live_challenges_def put_path_def fun_eq_iff)

lemma put_path_rand [simp]:
  "rf_rand (put_path r i st) = rf_rand r"
  "rf_haveRestartSession (put_path r i st) = rf_haveRestartSession r"
  "rf_lastRestartSession (put_path r i st) = rf_lastRestartSession r"
  "rf_psk (put_path r i st) = rf_psk r"
  by (simp_all add: put_path_def)

lemma live_rand [simp]:
  "live_challenges (r\<lparr>rf_rand := x\<rparr>) = live_challenges r"
  "live_challenges (r\<lparr>rf_lastRestartSession := s, rf_haveRestartSession := b\<rparr>) = live_challenges r"
  by (simp_all add: live_challenges_def)

lemma challenges_ok_exhausted: "challenges_ok m rand \<Longrightarrow> challenges_ok m []"
  by (simp add: challenges_ok_def)

lemma rotate_ok:
  assumes ok: "challenges_ok m rand" and dr: "drawChallenge rand = (Inr v, rand')"
  shows "challenges_ok (m(i \<mapsto> v)) rand'" and "usable (m(i \<mapsto> v)) rand' \<subseteq> usable m rand - set_option (m i)"
proof -
  have v: "v \<noteq> 0" "v \<in> set (draws rand)" "v \<notin> set (draws rand')" "set (draws rand') \<subseteq> set (draws rand)" "distinct (draws rand')"
    using drawChallenge_cases [of rand] ok dr by (auto simp: challenges_ok_def)
  have "v \<notin> ran m" using ok v(2) by (auto simp: challenges_ok_def)
  then have fresh: "m j \<noteq> Some v" for j by (auto simp: ran_def)
  have sub: "ran (m(i \<mapsto> v)) \<subseteq> insert v (ran m - set_option (m i))"
    using ok by (auto simp: ran_def challenges_ok_def split: if_splits)
  show "challenges_ok (m(i \<mapsto> v)) rand'"
    unfolding challenges_ok_def using ok v sub fresh by (auto simp: challenges_ok_def split: if_splits)
  have "set_option (m i) \<inter> set (draws rand) = {}" using ok by (auto simp: challenges_ok_def ran_def)
  then show "usable (m(i \<mapsto> v)) rand' \<subseteq> usable m rand - set_option (m i)"
    unfolding usable_def using sub v by blast
qed

text \<open>One offer to a known path: it rotates the echoed challenge, exhausts the source, or leaves both.\<close>

lemma acceptKnown_step:
  assumes ok: "challenges_ok (live_challenges r) (rf_rand r)" and st: "rf_paths r i = Some st"
    and acc: "acceptKnown r i st s q c = (v, r')"
  shows "challenges_ok (live_challenges r') (rf_rand r') \<and>
    usable (live_challenges r') (rf_rand r') \<subseteq>
      usable (live_challenges r) (rf_rand r) - set_option (adopted_with ((i, s, q, c), v)) \<and>
    set_option (adopted_with ((i, s, q, c), v)) \<subseteq> ran (live_challenges r)"
proof -
  have li: "live_challenges r i = Some (rp_challenge st)" using st by (simp add: live_challenges_def)
  then have same: "(live_challenges r)(i \<mapsto> rp_challenge st) = live_challenges r" by (simp add: fun_upd_idem)
  have inr: "rp_challenge st \<in> ran (live_challenges r)" using li by (auto simp: ran_def)
  consider (cur) "rp_adopted st \<and> s = rp_session st" | (adopt) "\<not> (rp_adopted st \<and> s = rp_session st)" "c = rp_challenge st"
    | (boot) "\<not> (rp_adopted st \<and> s = rp_session st)" "c \<noteq> rp_challenge st" by blast
  then show ?thesis
  proof cases
    case cur
    then have "live_challenges r' = live_challenges r" "rf_rand r' = rf_rand r" "adopted_with ((i, s, q, c), v) = None"
      using acc same by (auto simp: acceptKnown_def Let_def split: prod.splits if_splits)
    then show ?thesis using ok by simp
  next
    case adopt
    obtain res rand' where dr: "drawChallenge (rf_rand r) = (res, rand')" by fastforce
    show ?thesis
    proof (cases res)
      case (Inl e)
      then have "rand' = []" using drawChallenge_cases [of "rf_rand r"] ok dr by (auto simp: challenges_ok_def)
      moreover have "live_challenges r' = live_challenges r" "rf_rand r' = rand'" "adopted_with ((i, s, q, c), v) = None"
        using acc adopt dr Inl same by (auto simp: acceptKnown_def Let_def)
      ultimately show ?thesis using challenges_ok_exhausted [OF ok] by (auto simp: usable_def)
    next
      case (Inr ch)
      have "live_challenges r' = (live_challenges r)(i \<mapsto> ch)" "rf_rand r' = rand'" "adopted_with ((i, s, q, c), v) = Some c"
        using acc adopt dr Inr by (auto simp: acceptKnown_def Let_def split: if_splits)
      then show ?thesis using rotate_ok [OF ok, of ch rand' i] dr Inr li adopt(2) inr by simp
    qed
  next
    case boot
    then have "r' = r" "adopted_with ((i, s, q, c), v) = None" using acc by (auto simp: acceptKnown_def)
    then show ?thesis using ok by simp
  qed
qed

lemma acceptLocked_step:
  assumes ok: "challenges_ok (live_challenges r) (rf_rand r)" and acc: "acceptLocked r i s q c = (v, r')"
  shows "challenges_ok (live_challenges r') (rf_rand r') \<and>
    usable (live_challenges r') (rf_rand r') \<subseteq>
      usable (live_challenges r) (rf_rand r) - set_option (adopted_with ((i, s, q, c), v)) \<and>
    set_option (adopted_with ((i, s, q, c), v)) \<subseteq> usable (live_challenges r) (rf_rand r)"
proof (cases "rf_paths r i")
  case (Some st)
  then show ?thesis using acceptKnown_step [OF ok Some, of s q c v r'] acc by (auto simp: acceptLocked_def usable_def)
next
  case None
  obtain res rand' where dr: "drawChallenge (rf_rand r) = (res, rand')" by fastforce
  show ?thesis
  proof (cases res)
    case (Inl e)
    then have "rand' = []" using drawChallenge_cases [of "rf_rand r"] ok dr by (auto simp: challenges_ok_def)
    moreover have "r' = r\<lparr>rf_rand := rand'\<rparr>" "adopted_with ((i, s, q, c), v) = None"
      using acc None dr Inl by (auto simp: acceptLocked_def)
    ultimately show ?thesis using challenges_ok_exhausted [OF ok] by (auto simp: usable_def)
  next
    case (Inr ch)
    let ?st = "\<lparr>rp_session = 0, rp_guard = AntiReplay, rp_challenge = ch, rp_adopted = False\<rparr>"
    let ?r = "put_path (r\<lparr>rf_rand := rand'\<rparr>) i ?st"
    have live: "live_challenges ?r = (live_challenges r)(i \<mapsto> ch)" "rf_rand ?r = rand'" "rf_paths ?r i = Some ?st"
      by (simp_all add: put_path_def) (simp add: live_challenges_def fun_eq_iff)
    have acc': "acceptKnown ?r i ?st s q c = (v, r')" using acc None dr Inr by (simp add: acceptLocked_def Let_def)
    have ok': "challenges_ok (live_challenges ?r) (rf_rand ?r)"
      and sub: "usable (live_challenges ?r) (rf_rand ?r) \<subseteq> usable (live_challenges r) (rf_rand r)"
      using rotate_ok [OF ok, of ch rand' i] dr Inr live by auto
    have "ran (live_challenges ?r) \<subseteq> usable (live_challenges ?r) (rf_rand ?r)" by (simp add: usable_def)
    then show ?thesis using acceptKnown_step [OF ok' live(3) acc'] sub by blast
  qed
qed

text \<open>The offers the state adopts: those with an adopting verdict, and those whose draw fails.\<close>

lemma acceptKnown_adopts:
  assumes "rf_paths r i = Some st" and "acceptKnown r i st s q c = (v, r')" and "session_of r i \<noteq> Some s"
  shows "session_of r' i = Some s \<longleftrightarrow> c = rp_challenge st"
    and "c = rp_challenge st \<Longrightarrow> v = Inr w \<Longrightarrow> adopted_with ((i, s, q, c), v) = Some c"
  using assms by (auto simp: acceptKnown_def session_of_def put_path_def Let_def split: prod.splits if_splits sum.splits)

lemma acceptKnown_current:
  "rf_paths r i = Some st \<Longrightarrow> acceptKnown r i st s q c = (v, r') \<Longrightarrow> session_of r i = Some s \<Longrightarrow> adopted_with ((i, s, q, c), v) = None"
  by (auto simp: acceptKnown_def session_of_def Let_def split: prod.splits if_splits)

lemma acceptLocked_adopts:
  assumes ok: "challenges_ok (live_challenges r) (rf_rand r)" and acc: "acceptLocked r i s q c = (v, r')" and ad: "adopts r (i, s, q, c)"
  shows "c \<in> usable (live_challenges r) (rf_rand r)" and "v = Inr w \<Longrightarrow> adopted_with ((i, s, q, c), v) = Some c"
proof -
  have s: "session_of r i \<noteq> Some s" "session_of r' i = Some s" using ad acc by simp_all
  show "c \<in> usable (live_challenges r) (rf_rand r)" "v = Inr w \<Longrightarrow> adopted_with ((i, s, q, c), v) = Some c"
  proof (atomize (full), cases "rf_paths r i")
    case (Some st)
    have k: "acceptKnown r i st s q c = (v, r')" using acc Some by (simp add: acceptLocked_def)
    note a = acceptKnown_adopts [OF Some k s(1)]
    have "live_challenges r i = Some c" using a(1) s(2) Some by (simp add: live_challenges_def)
    then have "c \<in> ran (live_challenges r)" by (rule ranI)
    then show "c \<in> usable (live_challenges r) (rf_rand r) \<and> (v = Inr w \<longrightarrow> adopted_with ((i, s, q, c), v) = Some c)"
      using a s(2) by (simp add: usable_def)
  next
    case None
    obtain res rand' where dr: "drawChallenge (rf_rand r) = (res, rand')" by fastforce
    have "\<not> (\<exists>e. res = Inl e)" using acc None dr s(2) by (auto simp: acceptLocked_def session_of_def)
    then obtain ch where ch: "res = Inr ch" by (cases res) auto
    let ?st = "\<lparr>rp_session = 0, rp_guard = AntiReplay, rp_challenge = ch, rp_adopted = False\<rparr>"
    let ?r = "put_path (r\<lparr>rf_rand := rand'\<rparr>) i ?st"
    have k: "acceptKnown ?r i ?st s q c = (v, r')" and p: "rf_paths ?r i = Some ?st"
      using acc None dr ch by (simp_all add: acceptLocked_def Let_def put_path_def)
    have n: "session_of ?r i \<noteq> Some s" using p by (simp add: session_of_def)
    note a = acceptKnown_adopts [OF p k n]
    have "ch \<in> set (draws (rf_rand r)) - {0}" using drawChallenge_cases [of "rf_rand r"] ok dr ch by (auto simp: challenges_ok_def)
    then show "c \<in> usable (live_challenges r) (rf_rand r) \<and> (v = Inr w \<longrightarrow> adopted_with ((i, s, q, c), v) = Some c)"
      using a s(2) by (simp add: usable_def)
  qed
qed

lemma all_drawn_Cons:
  "all_drawn r ((i, s, q, c) # xs) \<longleftrightarrow>
     (\<exists>w. fst (acceptLocked r i s q c) = Inr w) \<and> all_drawn (snd (acceptLocked r i s q c)) xs"
  by (auto simp: all_drawn_def Let_def case_prod_beta split: sum.splits)

lemma adoptions_usable:
  assumes "challenges_ok (live_challenges r) (rf_rand r)"
  shows "set (adoptions r xs) \<subseteq> usable (live_challenges r) (rf_rand r)"
  using assms
proof (induction xs arbitrary: r)
  case (Cons x xs)
  obtain i s q c where x: "x = (i, s, q, c)" by (cases x)
  obtain v r' where acc: "acceptLocked r i s q c = (v, r')" by fastforce
  from acceptLocked_step [OF Cons.prems acc] have "set (adoptions r' xs) \<subseteq> usable (live_challenges r) (rf_rand r)"
    using Cons.IH [of r'] by auto
  then show ?case using acceptLocked_adopts(1) [OF Cons.prems acc] unfolding x by (auto simp: acc simp del: adopts.simps)
qed simp

lemma adoptions_spent:
  assumes "challenges_ok (live_challenges r) (rf_rand r)" and "all_drawn r (butlast xs)"
  shows "distinct (adoptions r xs)"
  using assms
proof (induction xs arbitrary: r)
  case (Cons x xs)
  obtain i s q c where x: "x = (i, s, q, c)" by (cases x)
  obtain v r' where acc: "acceptLocked r i s q c = (v, r')" by fastforce
  show ?case
  proof (cases "xs = []")
    case True
    then show ?thesis by (simp add: x)
  next
    case False
    then have d: "\<exists>w. v = Inr w" "all_drawn r' (butlast xs)" using Cons.prems(2) by (simp_all add: x all_drawn_Cons acc)
    note st = acceptLocked_step [OF Cons.prems(1) acc]
    have "c \<notin> usable (live_challenges r') (rf_rand r')" if "adopts r (i, s, q, c)"
      using acceptLocked_adopts(2) [OF Cons.prems(1) acc that] d(1) st by auto
    then show ?thesis
      using Cons.IH [of r'] d(2) st adoptions_usable [of r' xs] unfolding x by (auto simp: acc simp del: adopts.simps)
  qed
qed simp

text \<open>
  C10: an adoption cannot be replayed. Over any run of the responder from its start, on all paths
  together, no challenge authorizes two session adoptions, as the state records them, provided the
  random source never delivers a word twice and no draw has failed before the last offer; and a
  bootstrap probe, whose challenge is zero, is never adopted at all, failed draws included.
\<close>

theorem adoption_not_replayable:
  assumes "distinct (draws rand)"
  shows "0 \<notin> set (adoptions (NewReflector psk rand) xs) \<and>
    (all_drawn (NewReflector psk rand) (butlast xs) \<longrightarrow> distinct (adoptions (NewReflector psk rand) xs))"
proof -
  have ok: "challenges_ok (live_challenges (NewReflector psk rand)) rand" and l: "live_challenges (NewReflector psk rand) = (\<lambda>_. None)"
    using assms by (simp_all add: challenges_ok_def NewReflector_def live_challenges_def)
  have r: "rf_rand (NewReflector psk rand) = rand" by (simp add: NewReflector_def)
  have "set (adoptions (NewReflector psk rand) xs) \<subseteq> usable (\<lambda>_. None) rand"
    using adoptions_usable [of "NewReflector psk rand" xs] ok l r by simp
  then show ?thesis using adoptions_spent [of "NewReflector psk rand" xs] ok r by (auto simp: usable_def)
qed

text \<open>A source of three words: two challenges and a rotation. The replayed adoption probe bootstraps only.\<close>

definition sample_rand :: bytes where
  "sample_rand = put_u64 11 @ put_u64 22 @ put_u64 33"

definition sample_psk :: key where
  "sample_psk = \<lparr>key_bytes = replicate 32 1, key_set = True\<rparr>"

lemma sample_draws: "draws sample_rand = [11, 22, 33]"
  by code_simp

theorem adoption_not_replayable_witness:
  "distinct (draws sample_rand) \<and>
   all_drawn (NewReflector sample_psk sample_rand) (butlast [(1, 5, 0, 0), (1, 5, 1, 11), (1, 6, 0, 22), (1, 5, 1, 11)]) \<and>
   adoptions (NewReflector sample_psk sample_rand) [(1, 5, 0, 0), (1, 5, 1, 11), (1, 6, 0, 22), (1, 5, 1, 11)] = [11, 22] \<and>
   distinct (adoptions (NewReflector sample_psk sample_rand) [(1, 5, 0, 0), (1, 5, 1, 11), (1, 6, 0, 22), (1, 5, 1, 11)])"
proof -
  have "distinct (draws sample_rand)" by (simp add: sample_draws)
  moreover have "all_drawn (NewReflector sample_psk sample_rand) (butlast [(1, 5, 0, 0), (1, 5, 1, 11), (1, 6, 0, 22), (1, 5, 1, 11)])"
    by code_simp
  moreover have "adoptions (NewReflector sample_psk sample_rand) [(1, 5, 0, 0), (1, 5, 1, 11), (1, 6, 0, 22), (1, 5, 1, 11)] = [11, 22]"
    by code_simp
  ultimately show ?thesis
    using adoption_not_replayable [of sample_rand sample_psk "[(1, 5, 0, 0), (1, 5, 1, 11), (1, 6, 0, 22), (1, 5, 1, 11)]"] by blast
qed

text \<open>
  The hypothesis on the draws is needed: an adoption is recorded before the next challenge is drawn,
  so when the draw fails the spent challenge stays live and adopts another session, and that restart
  is not signalled.
\<close>

lemma failed_draw_replayed:
  "adoptions (NewReflector sample_psk (put_u64 11)) [(1, 5, 0, 0), (1, 5, 1, 11), (1, 6, 0, 11)] = [11, 11]"
  "restarts (NewReflector sample_psk (put_u64 11)) [(1, 5, 0, 0), (1, 5, 1, 11), (1, 6, 0, 11)] = []"
  by code_simp+

section \<open>Restarts are signalled once\<close>

lemma acceptKnown_restart:
  assumes "acceptKnown r i st s q c = (v, r')"
  shows "(case restarted_to ((i, s, q, c), v) of
      None \<Rightarrow> rf_haveRestartSession r' = rf_haveRestartSession r \<and> rf_lastRestartSession r' = rf_lastRestartSession r
    | Some a \<Rightarrow> a = s \<and> (rf_haveRestartSession r \<longrightarrow> rf_lastRestartSession r \<noteq> s) \<and> rf_haveRestartSession r' \<and> rf_lastRestartSession r' = s)"
    and "adopted_with ((i, s, q, c), v) \<noteq> None \<Longrightarrow> rp_adopted st \<Longrightarrow> rp_session st \<noteq> s \<Longrightarrow> rf_haveRestartSession r' \<and> rf_lastRestartSession r' = s"
  using assms by (auto simp: acceptKnown_def Let_def split: prod.splits if_splits sum.splits)

lemma acceptLocked_restart:
  assumes "acceptLocked r i s q c = (v, r')"
  shows "(case restarted_to ((i, s, q, c), v) of
      None \<Rightarrow> rf_haveRestartSession r' = rf_haveRestartSession r \<and> rf_lastRestartSession r' = rf_lastRestartSession r
    | Some a \<Rightarrow> a = s \<and> (rf_haveRestartSession r \<longrightarrow> rf_lastRestartSession r \<noteq> s) \<and> rf_haveRestartSession r' \<and> rf_lastRestartSession r' = s)"
proof (cases "rf_paths r i")
  case (Some st)
  then show ?thesis using acceptKnown_restart(1) [of r i st s q c v r'] assms by (simp add: acceptLocked_def)
next
  case None
  obtain res rand' where dr: "drawChallenge (rf_rand r) = (res, rand')" by fastforce
  show ?thesis
  proof (cases res)
    case (Inl e)
    then show ?thesis using assms None dr by (auto simp: acceptLocked_def)
  next
    case (Inr ch)
    let ?st = "\<lparr>rp_session = 0, rp_guard = AntiReplay, rp_challenge = ch, rp_adopted = False\<rparr>"
    have "acceptKnown (put_path (r\<lparr>rf_rand := rand'\<rparr>) i ?st) i ?st s q c = (v, r')"
      using assms None dr Inr by (simp add: acceptLocked_def Let_def)
    from acceptKnown_restart(1) [OF this] show ?thesis by (cases "restarted_to ((i, s, q, c), v)") simp_all
  qed
qed

lemma restarts_Cons:
  "acceptLocked r i s q c = (v, r') \<Longrightarrow>
   restarts r ((i, s, q, c) # xs) = (case restarted_to ((i, s, q, c), v) of None \<Rightarrow> restarts r' xs | Some a \<Rightarrow> a # restarts r' xs)"
  by (simp add: restarts_def Let_def case_prod_beta split: option.splits)

lemma accept_run_Cons_snd:
  "acceptLocked r i s q c = (v, r') \<Longrightarrow> snd (accept_run r ((i, s, q, c) # xs)) = snd (accept_run r' xs)"
  by (simp add: Let_def case_prod_beta)

lemma accept_run_append: "snd (accept_run r (xs @ ys)) = snd (accept_run (snd (accept_run r xs)) ys)"
proof (induction xs arbitrary: r)
  case (Cons x xs)
  then show ?case by (cases x) (simp add: Let_def case_prod_beta)
qed simp

lemma restarts_append:
  "restarts r (xs @ [(i, s, q, c)]) = restarts r xs @
     List.map_filter restarted_to [((i, s, q, c), fst (acceptLocked (snd (accept_run r xs)) i s q c))]"
proof (induction xs arbitrary: r)
  case Nil
  show ?case by (simp add: restarts_def Let_def case_prod_beta)
next
  case (Cons x xs)
  obtain i' s' q' c' where x: "x = (i', s', q', c')" by (cases x)
  obtain v r' where acc: "acceptLocked r i' s' q' c' = (v, r')" by fastforce
  show ?case using Cons.IH [of r'] by (simp add: x restarts_Cons [OF acc] accept_run_Cons_snd [OF acc] del: accept_run.simps split: option.splits)
qed

text \<open>The signalled restarts and the stored session agree; the next one signalled differs from it.\<close>

lemma restarts_run:
  "distinct_adj (restarts r xs) \<and>
   (restarts r xs \<noteq> [] \<longrightarrow> (rf_haveRestartSession r \<longrightarrow> hd (restarts r xs) \<noteq> rf_lastRestartSession r) \<and>
      rf_haveRestartSession (snd (accept_run r xs)) \<and> rf_lastRestartSession (snd (accept_run r xs)) = last (restarts r xs)) \<and>
   (restarts r xs = [] \<longrightarrow> rf_haveRestartSession (snd (accept_run r xs)) = rf_haveRestartSession r \<and>
      rf_lastRestartSession (snd (accept_run r xs)) = rf_lastRestartSession r)"
proof (induction xs arbitrary: r)
  case Nil
  then show ?case by (simp add: restarts_def)
next
  case (Cons x xs)
  obtain i s q c where x: "x = (i, s, q, c)" by (cases x)
  obtain v r' where acc: "acceptLocked r i s q c = (v, r')" by fastforce
  show ?case
  proof (cases "restarted_to ((i, s, q, c), v)")
    case None
    then have "rf_haveRestartSession r' = rf_haveRestartSession r" "rf_lastRestartSession r' = rf_lastRestartSession r"
      using acceptLocked_restart [OF acc] by simp_all
    then show ?thesis
      using Cons.IH [of r'] None unfolding x restarts_Cons [OF acc] accept_run_Cons_snd [OF acc] by simp
  next
    case (Some a)
    then have "a = s" "rf_haveRestartSession r \<longrightarrow> rf_lastRestartSession r \<noteq> s" "rf_haveRestartSession r'" "rf_lastRestartSession r' = s"
      using acceptLocked_restart [OF acc] by simp_all
    then show ?thesis
      using Cons.IH [of r'] Some unfolding x restarts_Cons [OF acc] accept_run_Cons_snd [OF acc]
      by (cases "restarts r' xs") auto
  qed
qed

text \<open>
  C25: a peer restart is signalled once per epoch. Over any run of the responder, no two consecutive
  signals name the same session although every path of the restarted peer re-adopts it. Whenever the
  adopted session of a path is replaced by another, as the state records it, that session is the last
  one signalled, unless the draw of the next challenge failed: then the error is returned, the spent
  challenge stays live and nothing is signalled.
\<close>

theorem restart_signalled_once:
  assumes "r = snd (accept_run (NewReflector psk rand) xs)" and "session_of r i = Some s0" and "s0 \<noteq> s"
    and "acceptLocked r i s q c = (v, r')" and "session_of r' i = Some s"
  shows "distinct_adj (restarts (NewReflector psk rand) (xs @ [(i, s, q, c)])) \<and>
    (case v of
       Inr _ \<Rightarrow> restarts (NewReflector psk rand) (xs @ [(i, s, q, c)]) \<noteq> [] \<and>
         last (restarts (NewReflector psk rand) (xs @ [(i, s, q, c)])) = s
     | Inl e \<Rightarrow> fst (drawChallenge (rf_rand r)) = Inl e \<and> live_challenges r' i = Some c \<and>
         restarts (NewReflector psk rand) (xs @ [(i, s, q, c)]) = restarts (NewReflector psk rand) xs)"
proof -
  let ?r = "NewReflector psk rand" and ?xs = "xs @ [(i, s, q, c)]"
  have run: "snd (accept_run ?r ?xs) = r'" unfolding accept_run_append using assms(1,4) by (simp add: Let_def)
  obtain st where st: "rf_paths r i = Some st" "rp_adopted st" "rp_session st \<noteq> s"
    using assms(2,3) by (auto simp: session_of_def split: option.splits if_splits)
  have k: "acceptKnown r i st s q c = (v, r')" using assms(4) st(1) by (simp add: acceptLocked_def)
  have n: "session_of r i \<noteq> Some s" using assms(2,3) by simp
  note a = acceptKnown_adopts [OF st(1) k n]
  have c: "c = rp_challenge st" using a(1) assms(5) by simp
  show ?thesis
  proof (cases v)
    case (Inr w)
    have "rf_haveRestartSession r' \<and> rf_lastRestartSession r' = s"
      using acceptKnown_restart(2) [OF k] a(2) [OF c Inr] st by simp
    moreover have "\<not> rf_haveRestartSession ?r" by (simp add: NewReflector_def)
    ultimately show ?thesis using restarts_run [of ?r ?xs] run Inr by auto
  next
    case (Inl e)
    have "fst (drawChallenge (rf_rand r)) = Inl e" "live_challenges r' i = Some c"
      using k Inl c st by (auto simp: acceptKnown_def Let_def live_challenges_def put_path_def split: prod.splits sum.splits if_splits)
    moreover have "restarts ?r ?xs = restarts ?r xs"
      using assms(1,4) Inl by (simp add: restarts_append)
    ultimately show ?thesis using Inl restarts_run [of ?r ?xs] by simp
  qed
qed

definition restart_offers :: "offer list" where
  "restart_offers = [(1, 5, 0, 0), (1, 5, 1, 11)]"

theorem restart_signalled_once_witness:
  "distinct_adj (restarts (NewReflector sample_psk sample_rand) (restart_offers @ [(1, 6, 0, 22)])) \<and>
   restarts (NewReflector sample_psk sample_rand) (restart_offers @ [(1, 6, 0, 22)]) \<noteq> [] \<and>
   last (restarts (NewReflector sample_psk sample_rand) (restart_offers @ [(1, 6, 0, 22)])) = 6"
proof -
  let ?r = "snd (accept_run (NewReflector sample_psk sample_rand) restart_offers)"
  have st: "session_of ?r 1 = Some 5" "session_of (snd (acceptLocked ?r 1 6 0 22)) 1 = Some 6" by code_simp+
  have "fst (acceptLocked ?r 1 6 0 22) = Inr (33, True, ProbeAdopted, True)" by code_simp
  then have acc: "acceptLocked ?r 1 6 0 22 = (Inr (33, True, ProbeAdopted, True), snd (acceptLocked ?r 1 6 0 22))"
    by (metis prod.collapse)
  show ?thesis using restart_signalled_once [OF refl st(1) _ acc st(2)] by simp
qed

section \<open>Echoes\<close>

text \<open>
  C32: a refused echo is inert. An echo that is forged, of another kind, for another path, of
  another session, or replayed leaves the liveness machine, the replay filter, the learned
  challenge and the round-trip estimate as they were; and unless it is a replay it changes nothing
  at all, not even the loss window.
\<close>

theorem refused_echo_inert:
  assumes "HandleEchoProbe X p raw now live_now = Some (Inl e, p')"
  shows "pb_live p' = pb_live p \<and> pb_guard p' = pb_guard p \<and> pb_learnedChallenge p' = pb_learnedChallenge p \<and>
    pb_nextSeq p' = pb_nextSeq p \<and> em_srtt (pb_est p') = em_srtt (pb_est p) \<and> em_rttvar (pb_est p') = em_rttvar (pb_est p) \<and>
    em_haveRTT (pb_est p') = em_haveRTT (pb_est p) \<and> (e \<noteq> ErrReplay \<longrightarrow> p' = p)"
proof (cases "Decode X (pb_psk p) raw")
  case (Inl e')
  then show ?thesis using assms by (simp add: HandleEchoProbe_def)
next
  case (Inr f)
  show ?thesis
  proof (cases f)
    case (ControlFrame c)
    then show ?thesis using assms Inr by (simp add: HandleEchoProbe_def)
  next
    case (ProbeFrame probe)
    then show ?thesis using assms Inr
      by (auto simp: HandleEchoProbe_def ObserveProbeEcho_def AntiReplay_Accept_def Let_def bind_eq_Some_conv
          split: if_splits)
  qed
qed

subsection \<open>A whole exchange\<close>

lemma acceptLocked_psk: "acceptLocked r i s q c = (v, r') \<Longrightarrow> rf_psk r' = rf_psk r"
  by (auto simp: acceptLocked_def acceptKnown_def Let_def split: option.splits prod.splits sum.splits if_splits)

lemma sint_of_instant: "- (2 ^ 63) \<le> t \<Longrightarrow> t < 2 ^ 63 \<Longrightarrow> sint (of_int t :: u64) = t"
  by (simp add: signed_of_int signed_take_bit_int_eq_self_iff)

definition sent_probe :: "prober \<Rightarrow> instant \<Rightarrow> probe" where
  "sent_probe p t = fst (buildProbeLocked p t)"

lemma SendProbe_delivers:
  assumes "crypto_laws X" and "NewCodec X (pb_psk p) = Inr cd" and "length n = nonceLen"
  obtains raw where "SendProbe X p t (Some n) = (Inr raw, p\<lparr>pb_nextSeq := pb_nextSeq p + 1\<rparr>)"
    and "Decode X (pb_psk p) raw = Inr (ProbeFrame (sent_probe p t))"
proof -
  have "canonical (ProbeFrame (sent_probe p t))"
    by (simp add: sent_probe_def buildProbeLocked_def probe_validate_def)
  from Encode_round_trip [OF assms(1,2) this assms(3)] obtain raw where
    "Encode X (pb_psk p) (ProbeFrame (sent_probe p t)) (Some n) = Inr raw"
    "Decode X (pb_psk p) raw = Inr (ProbeFrame (sent_probe p t))" by metis
  then show thesis
    by (intro that [of raw]) (simp_all add: SendProbe_def SendProbePayload_def sent_probe_def buildProbeLocked_def Let_def)
qed

lemma Reflect_delivers:
  assumes "crypto_laws X" and "NewCodec X (rf_psk r) = Inr cd" and "length n = nonceLen"
    and "Decode X (rf_psk r) raw = Inr (ProbeFrame pr)" and "canonical (ProbeFrame pr)"
    and "acceptLocked r (pr_PathID pr) (pr_SessionID pr) (pr_ProbeSeq pr) (pr_Challenge pr) = (Inr (issued, True, cls, epoch), r')"
  obtains out where "Reflect X r raw (Some n) = ((Inr out, epoch), r')"
    and "Decode X (rf_psk r) out = Inr (ProbeFrame (pr\<lparr>pr_IsEcho := True, pr_Challenge := issued\<rparr>))"
proof -
  let ?e = "pr\<lparr>pr_IsEcho := True, pr_Challenge := issued\<rparr>"
  have "canonical (ProbeFrame ?e)" using assms(5) by (auto simp: probe_validate_def split: if_splits)
  from Encode_round_trip [OF assms(1,2) this assms(3)] obtain out where out:
    "Encode X (rf_psk r) (ProbeFrame ?e) (Some n) = Inr out" "Decode X (rf_psk r) out = Inr (ProbeFrame ?e)" by metis
  have "?e\<lparr>pr_Payload := pr_Payload ?e\<rparr> = ?e" by simp
  then show thesis
    using out assms(4,6) acceptLocked_psk [OF assms(6)]
    by (intro that [of out]) (simp_all add: Reflect_def AcceptProbe_def EncodeAcceptedProbe_def)
qed

lemma HandleEcho_fresh:
  assumes "Decode X (pb_psk p) raw = Inr (ProbeFrame e)" and "pr_PathID e = pb_pathID p" and "pr_SessionID e = pb_sessionID p"
    and "lw_tracks os (em_loss (pb_est p))" and "pr_ProbeSeq e \<noteq> - 1" and "\<not> spent_seq (pb_guard p) (pr_ProbeSeq e)"
  obtains w where "HandleEcho X p raw t t = Some (None, p\<lparr>pb_guard := \<lparr>ar_high = pr_ProbeSeq e, ar_have = True\<rparr>,
      pb_learnedChallenge := pr_Challenge e,
      pb_est := ObserveRTT ((pb_est p)\<lparr>em_loss := w\<rparr>) (max 0 (time_sub t (sint (pr_TimestampNanos e)))),
      pb_live := RecordEcho (pb_live p) t\<rparr>)"
    and "lw_tracks (os @ [pr_ProbeSeq e]) w"
proof -
  obtain w where w: "lw_observe (em_loss (pb_est p)) (pr_ProbeSeq e) = Some w" "lw_tracks (os @ [pr_ProbeSeq e]) w"
    using observe_all_tracks [OF assms(4), of "[pr_ProbeSeq e]"] assms(5) by (auto simp: bind_eq_Some_conv)
  have "AntiReplay_Accept (pb_guard p) (pr_ProbeSeq e) = (True, \<lparr>ar_high = pr_ProbeSeq e, ar_have = True\<rparr>)"
    using assms(6) by (auto simp: AntiReplay_Accept_def spent_seq_def)
  then show thesis
    using w assms(1-3) by (intro that [OF _ w(2)])
      (simp add: HandleEcho_def HandleEchoProbe_def ObserveProbeEcho_def Let_def max_def)
qed

text \<open>The loss window of a prober knows every sequence it has counted, and its filter is below the next one.\<close>

definition exchange_ready :: "prober \<Rightarrow> bool" where
  "exchange_ready p \<longleftrightarrow> (\<exists>os. lw_tracks os (em_loss (pb_est p))) \<and> pb_nextSeq p \<noteq> - 1 \<and> \<not> spent_seq (pb_guard p) (pb_nextSeq p)"

lemma exchange_step:
  assumes laws: "crypto_laws X" "NewCodec X (pb_psk p) = Inr cd" "rf_psk r = pb_psk p" "length n = nonceLen" "length n' = nonceLen"
    and ready: "exchange_ready p"
    and acc: "acceptLocked r (pb_pathID p) (pb_sessionID p) (pb_nextSeq p) (pb_learnedChallenge p) = (Inr (issued, True, cls, epoch), r')"
    and time: "- (2 ^ 63) \<le> t" "t < 2 ^ 63" "t \<le> t'" "t' - t \<le> max_duration"
  obtains w os where "exchange X p r t n n' t' = Some (epoch,
      p\<lparr>pb_nextSeq := pb_nextSeq p + 1, pb_guard := \<lparr>ar_high = pb_nextSeq p, ar_have = True\<rparr>, pb_learnedChallenge := issued,
        pb_est := ObserveRTT ((pb_est p)\<lparr>em_loss := w\<rparr>) (t' - t), pb_live := RecordEcho (pb_live p) t'\<rparr>, r')"
    and "lw_tracks os w"
proof -
  let ?p = "p\<lparr>pb_nextSeq := pb_nextSeq p + 1\<rparr>" and ?e = "(sent_probe p t)\<lparr>pr_IsEcho := True, pr_Challenge := issued\<rparr>"
  obtain raw where raw: "SendProbe X p t (Some n) = (Inr raw, ?p)" "Decode X (pb_psk p) raw = Inr (ProbeFrame (sent_probe p t))"
    using SendProbe_delivers [OF laws(1,2,4)] by metis
  have "canonical (ProbeFrame (sent_probe p t))" by (simp add: sent_probe_def buildProbeLocked_def probe_validate_def)
  then obtain out where out: "Reflect X r raw (Some n') = ((Inr out, epoch), r')" "Decode X (pb_psk p) out = Inr (ProbeFrame ?e)"
    using Reflect_delivers [OF laws(1) _ laws(5), of r cd raw "sent_probe p t" issued cls epoch r'] laws(2,3) raw(2) acc
    by (auto simp: sent_probe_def buildProbeLocked_def)
  have fields: "pr_PathID ?e = pb_pathID p" "pr_SessionID ?e = pb_sessionID p" "pr_ProbeSeq ?e = pb_nextSeq p"
    "pr_Challenge ?e = issued" "pr_TimestampNanos ?e = of_int t"
    by (simp_all add: sent_probe_def buildProbeLocked_def)
  obtain os where os: "lw_tracks os (em_loss (pb_est p))" using ready by (auto simp: exchange_ready_def)
  have rtt: "max 0 (time_sub t' (sint (of_int t :: u64))) = t' - t"
    using time by (simp add: sint_of_instant time_sub_exact)
  obtain w where w: "HandleEcho X ?p out t' t' = Some (None, ?p\<lparr>pb_guard := \<lparr>ar_high = pb_nextSeq p, ar_have = True\<rparr>,
      pb_learnedChallenge := issued, pb_est := ObserveRTT ((pb_est p)\<lparr>em_loss := w\<rparr>) (t' - t), pb_live := RecordEcho (pb_live p) t'\<rparr>)"
    "lw_tracks (os @ [pb_nextSeq p]) w"
    using HandleEcho_fresh [of X ?p out ?e os t'] out(2) fields os ready rtt by (auto simp: exchange_ready_def)
  show thesis by (rule that [of w, OF _ w(2)]) (simp add: exchange_def raw(1) out(1) w(1))
qed

lemma exchange_fields:
  assumes "crypto_laws X" "NewCodec X (pb_psk p) = Inr cd" "rf_psk r = pb_psk p" "length n = nonceLen" "length n' = nonceLen"
    and "exchange_ready p"
    and "acceptLocked r (pb_pathID p) (pb_sessionID p) (pb_nextSeq p) (pb_learnedChallenge p) = (Inr (issued, True, cls, epoch), r')"
    and "0 \<le> t" "t \<le> t'" "t' < 2 ^ 63"
  obtains p' w where "exchange X p r t n n' t' = Some (epoch, p', r')" "pb_psk p' = pb_psk p" "pb_pathID p' = pb_pathID p"
    "pb_sessionID p' = pb_sessionID p" "pb_nextSeq p' = pb_nextSeq p + 1" "pb_learnedChallenge p' = issued"
    "pb_est p' = ObserveRTT ((pb_est p)\<lparr>em_loss := w\<rparr>) (t' - t)" "pb_live p' = RecordEcho (pb_live p) t'"
    "pb_nextSeq p < pb_nextSeq p + 1 \<Longrightarrow> pb_nextSeq p + 1 \<noteq> - 1 \<Longrightarrow> exchange_ready p'"
proof -
  have time: "- (2 ^ 63) \<le> t" "t < 2 ^ 63" "t' - t \<le> max_duration" using assms(8-10) by simp_all
  obtain w os where w: "exchange X p r t n n' t' = Some (epoch,
      p\<lparr>pb_nextSeq := pb_nextSeq p + 1, pb_guard := \<lparr>ar_high = pb_nextSeq p, ar_have = True\<rparr>, pb_learnedChallenge := issued,
        pb_est := ObserveRTT ((pb_est p)\<lparr>em_loss := w\<rparr>) (t' - t), pb_live := RecordEcho (pb_live p) t'\<rparr>, r')" "lw_tracks os w"
    using exchange_step [OF assms(1-7) time(1,2) assms(9) time(3)] by blast
  have "em_loss (ObserveRTT e d) = em_loss e" for e d by (simp add: ObserveRTT_def Let_def)
  then show thesis using w by (intro that [OF w(1)]) (auto simp: exchange_ready_def spent_seq_def)
qed

lemma adoption_step:
  assumes "rf_paths r i = Some st" and "rp_adopted st" and "rp_session st \<noteq> s" and "drawChallenge (rf_rand r) = (Inr ch, rest)"
  obtains r' where "acceptLocked r i s q (rp_challenge st) =
      (Inr (ch, True, ProbeAdopted, \<not> rf_haveRestartSession r \<or> s \<noteq> rf_lastRestartSession r), r')"
    and "rf_paths r' i = Some \<lparr>rp_session = s, rp_guard = \<lparr>ar_high = q, ar_have = True\<rparr>, rp_challenge = ch, rp_adopted = True\<rparr>"
proof -
  let ?v = "acceptLocked r i s q (rp_challenge st)"
  have "fst ?v = Inr (ch, True, ProbeAdopted, \<not> rf_haveRestartSession r \<or> s \<noteq> rf_lastRestartSession r) \<and>
    rf_paths (snd ?v) i = Some \<lparr>rp_session = s, rp_guard = \<lparr>ar_high = q, ar_have = True\<rparr>, rp_challenge = ch, rp_adopted = True\<rparr>"
    using assms
    by (cases st) (simp add: acceptLocked_def acceptKnown_def AntiReplay_Accept_def AntiReplay_def put_path_def Let_def)
  then show thesis by (intro that [of "snd ?v"]) (auto intro: prod_eqI)
qed

text \<open>
  C9: a restarted peer recovers in two exchanges. Whatever session a path was adopted under, a
  freshly started prober with a new session sends one probe, which is reflected without changing
  the responder and teaches it the live challenge, and a second one, which is adopted: the path now
  carries the new session, its replay filter is at the second probe and its challenge is rotated,
  the restart is signalled unless this session was already, and the prober has measured exactly the
  two round trips and recorded two echoes.
\<close>

theorem restart_recovery:
  assumes laws: "crypto_laws X" "NewCodec X psk = Inr cd" "rf_psk r = psk"
    and nonces: "list_all (\<lambda>n. length n = nonceLen) [n1, n2, n3, n4]"
    and path: "rf_paths r pid = Some st" "rp_adopted st" "rp_session st \<noteq> sid" "rp_challenge st \<noteq> 0"
    and rand: "drawChallenge (rf_rand r) = (Inr ch, rest)"
    and win: "0 < pc_LossWindow cfg" "pc_LossWindow cfg < 2 ^ 63"
    and time: "0 \<le> t1" "t1 \<le> t2" "t2 \<le> t3" "t3 \<le> t4" "t4 < 2 ^ 63"
  shows "\<exists>p r' p'. exchange X (NewProber name pid sid psk cfg) r t1 n1 n2 t2 = Some (False, p, r) \<and>
    exchange X p r t3 n3 n4 t4 = Some (\<not> rf_haveRestartSession r \<or> sid \<noteq> rf_lastRestartSession r, p', r') \<and>
    rf_paths r' pid = Some \<lparr>rp_session = sid, rp_guard = \<lparr>ar_high = 1, ar_have = True\<rparr>, rp_challenge = ch, rp_adopted = True\<rparr> \<and>
    pb_learnedChallenge p' = ch \<and>
    em_srtt (pb_est p') = em_srtt (foldl ObserveRTT (NewEstimator (pc_LossWindow cfg)) [t2 - t1, t4 - t3]) \<and>
    pb_live p' = live_run (NewLiveness (pc_Liveness cfg)) [(t2, Echo), (t4, Echo)]"
proof -
  let ?p = "NewProber name pid sid psk cfg"
  have p0: "pb_psk ?p = psk" "pb_pathID ?p = pid" "pb_sessionID ?p = sid" "pb_nextSeq ?p = 0" "pb_learnedChallenge ?p = 0"
    "pb_guard ?p = AntiReplay" "pb_est ?p = NewEstimator (pc_LossWindow cfg)" "pb_live ?p = NewLiveness (pc_Liveness cfg)"
    by (simp_all add: NewProber_def)
  have "nat (pc_LossWindow cfg) < 2 ^ 63" using win by (simp add: nat_less_iff)
  then have "lw_tracks [] (em_loss (pb_est ?p))"
    using win by (simp add: p0 NewEstimator_def lw_tracks_def lw_ok_def newLossWindow_def Let_def)
  then have ready: "exchange_ready ?p" by (auto simp: exchange_ready_def p0 AntiReplay_def spent_seq_def)
  have acc1: "acceptLocked r pid sid 0 0 = (Inr (rp_challenge st, True, ProbeBootstrap, False), r)"
    using path by (simp add: acceptLocked_def acceptKnown_def)
  obtain p w where ex1: "exchange X ?p r t1 n1 n2 t2 = Some (False, p, r)"
    and p: "pb_psk p = psk" "pb_pathID p = pid" "pb_sessionID p = sid" "pb_nextSeq p = 1" "pb_learnedChallenge p = rp_challenge st"
      "pb_est p = ObserveRTT ((NewEstimator (pc_LossWindow cfg))\<lparr>em_loss := w\<rparr>) (t2 - t1)"
      "pb_live p = RecordEcho (NewLiveness (pc_Liveness cfg)) t2" and ready1: "exchange_ready p"
    using exchange_fields [of X ?p cd r n1 n2 "rp_challenge st" ProbeBootstrap False r t1 t2] laws nonces ready acc1 time
    unfolding p0 by auto
  let ?epoch = "\<not> rf_haveRestartSession r \<or> sid \<noteq> rf_lastRestartSession r"
  let ?st = "\<lparr>rp_session = sid, rp_guard = \<lparr>ar_high = 1, ar_have = True\<rparr>, rp_challenge = ch, rp_adopted = True\<rparr>"
  obtain r' where acc2: "acceptLocked r pid sid 1 (rp_challenge st) = (Inr (ch, True, ProbeAdopted, ?epoch), r')"
      and r': "rf_paths r' pid = Some ?st"
    using adoption_step [OF path(1-3) rand, of 1] by metis
  obtain p' w' where ex2: "exchange X p r t3 n3 n4 t4 = Some (?epoch, p', r')"
    and p': "pb_learnedChallenge p' = ch" "pb_est p' = ObserveRTT ((pb_est p)\<lparr>em_loss := w'\<rparr>) (t4 - t3)"
      "pb_live p' = RecordEcho (pb_live p) t4"
  proof -
    have "NewCodec X (pb_psk p) = Inr cd" "rf_psk r = pb_psk p" "length n3 = nonceLen" "length n4 = nonceLen" "0 \<le> t3"
      "acceptLocked r (pb_pathID p) (pb_sessionID p) (pb_nextSeq p) (pb_learnedChallenge p) = (Inr (ch, True, ProbeAdopted, ?epoch), r')"
      using laws nonces acc2 time by (simp_all add: p)
    from exchange_fields [OF laws(1) this(1-4) ready1 this(6,5) time(4,5)] show thesis by (metis that)
  qed
  show ?thesis
    using ex1 ex2 r' p' p by (intro exI [of _ p] exI [of _ r'] exI [of _ p'] conjI)
      (simp_all add: live_run_def ObserveRTT_def NewEstimator_def Let_def)
qed

subsection \<open>The exchange at work\<close>

definition sample_reflector :: reflector where
  "sample_reflector = snd (accept_run (NewReflector sample_psk sample_rand) restart_offers)"

definition sample_prober_config :: prober_config where
  "sample_prober_config = \<lparr>pc_LossWindow = 512,
     pc_Liveness = \<lparr>lc_DownAfter = DefaultDownAfter, lc_UpAfterSuccesses = 2, lc_RideThrough = 0\<rparr>\<rparr>"

definition sample_prober :: prober where
  "sample_prober = NewProber ''starlink'' 1 6 sample_psk sample_prober_config"

definition sample_keys :: codec where
  "sample_keys = \<lparr>cd_obfKey = replicate 32 34, cd_authKey = replicate 32 37, cd_encScratch = [], cd_decScratch = []\<rparr>"

lemma sample_reflector_path:
  "rf_paths sample_reflector 1 =
     Some \<lparr>rp_session = 5, rp_guard = \<lparr>ar_high = 1, ar_have = True\<rparr>, rp_challenge = 22, rp_adopted = True\<rparr>"
  by code_simp

lemma sample_reflector_fields:
  "rf_psk sample_reflector = sample_psk" "drawChallenge (rf_rand sample_reflector) = (Inr 33, [])"
  "rf_haveRestartSession sample_reflector = False"
  by code_simp+

theorem restart_recovery_witness:
  "\<exists>p r' p'. exchange sample_crypto sample_prober sample_reflector 1000 sample_nonce sample_nonce 21001000 = Some (False, p, sample_reflector) \<and>
    exchange sample_crypto p sample_reflector 200001000 sample_nonce sample_nonce 223001000 = Some (True, p', r') \<and>
    rf_paths r' 1 = Some \<lparr>rp_session = 6, rp_guard = \<lparr>ar_high = 1, ar_have = True\<rparr>, rp_challenge = 33, rp_adopted = True\<rparr> \<and>
    pb_learnedChallenge p' = 33"
proof -
  have cd: "NewCodec sample_crypto sample_psk = Inr sample_keys" by code_simp
  have nonces: "list_all (\<lambda>n. length n = nonceLen) [sample_nonce, sample_nonce, sample_nonce, sample_nonce]" by code_simp
  show ?thesis
    using restart_recovery [OF sample_crypto_laws cd sample_reflector_fields(1) nonces sample_reflector_path _ _ _
        sample_reflector_fields(2), of 6 sample_prober_config 1000 21001000 200001000 223001000 "''starlink''"]
    by (auto simp: sample_reflector_fields(3) sample_prober_def sample_prober_config_def)
qed

theorem refused_echo_inert_witness:
  "\<exists>p'. HandleEchoProbe sample_crypto sample_prober [1, 2, 3] 0 0 = Some (Inl (FrameError ErrMalformed), p') \<and>
    pb_live p' = pb_live sample_prober \<and> p' = sample_prober"
proof -
  have "Decode sample_crypto (pb_psk sample_prober) [1, 2, 3] = Inl ErrMalformed" by code_simp
  then obtain p' where "HandleEchoProbe sample_crypto sample_prober [1, 2, 3] 0 0 = Some (Inl (FrameError ErrMalformed), p')"
    by (simp add: HandleEchoProbe_def)
  with refused_echo_inert [OF this] show ?thesis by blast
qed

subsection \<open>When the random source fails\<close>

text \<open>
  A failing source leaves a half-made adoption: the error is returned after the session, the
  adopted bit and the replay filter were written, and the challenge is not rotated. The same
  challenge then authorizes another session once the source works again.
\<close>

lemma failed_rotation_adopts:
  assumes "rf_paths r i = Some st" and "rp_session st \<noteq> s" and "drawChallenge (rf_rand r) = (Inl e, rest)"
  shows "\<exists>r'. acceptLocked r i s q (rp_challenge st) = (Inl e, r') \<and>
    rf_paths r' i = Some (st\<lparr>rp_session := s, rp_adopted := True, rp_guard := \<lparr>ar_high = q, ar_have = True\<rparr>\<rparr>)"
  using assms by (simp add: acceptLocked_def acceptKnown_def put_path_def AntiReplay_Accept_def AntiReplay_def Let_def)

end
