(* ===== verification/Queue.thy ===== *)
theory Queue
  imports Wanbond_Prelude
begin

text \<open>
  The send queues of the transport (internal/bond/queue.go): the FIFO and the fair queue of the
  small classes. The fair queue is modelled with its doubly
  linked ring: a flow is named by its identifier, which the flow table keys it by, so a pointer to
  a flow is that identifier. Dereferencing a missing flow is None.
\<close>

section \<open>Definitions\<close>

subsection \<open>Packets\<close>

type_synonym flow_id = bytes

record tcp_ack =
  ta_Eligible :: bool
  ta_Sequence :: u32
  ta_Acknowledgement :: u32
  ta_Window :: u16
  ta_TrafficClass :: byte
  ta_Timestamp :: bool
  ta_TSVal :: u32
  ta_TSEcr :: u32

record packet_metadata =
  pm_Flow :: flow_id
  pm_ACK :: tcp_ack

definition no_flow :: flow_id where "no_flow = replicate 40 0"

datatype traffic_class = classRealtime | classSmall | classBulk

definition ipProtocolTCP :: byte where "ipProtocolTCP = 6"
definition smallPacket :: nat where "smallPacket = 384"

definition classify :: "nat \<Rightarrow> packet_metadata \<Rightarrow> traffic_class" where
  "classify len metadata =
     (if len > smallPacket then classBulk
      else if pm_Flow metadata ! 1 = ipProtocolTCP \<or> ta_Eligible (pm_ACK metadata) then classSmall
      else classRealtime)"

record packet =
  pk_flow :: flow_id
  pk_ack :: tcp_ack
  pk_seq :: u64
  pk_order :: u64
  pk_class :: traffic_class
  pk_interactive :: bool
  pk_payload :: bytes
  pk_created :: instant
  pk_queueDeadline :: instant
  pk_repairDeadline :: instant
  pk_lastSent :: instant
  pk_lastPath :: u16
  pk_lastLaneSeq :: u64
  pk_attempts :: int
  pk_acked :: bool

subsection \<open>The FIFO\<close>

definition fifo_peek :: "packet list \<Rightarrow> packet option" where
  "fifo_peek q = (if length q = 0 then None else Some (q ! 0))"

definition fifo_pop :: "packet list \<Rightarrow> packet list option" where
  "fifo_pop q = (case q of [] \<Rightarrow> None | _ # q \<Rightarrow> Some q)"

subsection \<open>The fair queue\<close>

record packet_flow =
  pf_packets :: "packet list"
  pf_next :: flow_id
  pf_previous :: flow_id

record fair_packet_queue =
  fq_flows :: "flow_id \<rightharpoonup> packet_flow"
  fq_head :: "flow_id option"
  fq_count :: int

definition fq_empty :: fair_packet_queue where
  "fq_empty = \<lparr>fq_flows = (\<lambda>_. None), fq_head = None, fq_count = 0\<rparr>"

definition supersedes :: "tcp_ack \<Rightarrow> tcp_ack \<Rightarrow> bool" where
  "supersedes ack old \<longleftrightarrow> ta_Eligible ack \<and> ta_Eligible old \<and> ta_Sequence ack = ta_Sequence old \<and>
     ta_Window ack \<noteq> 0 \<and> ta_Window old \<noteq> 0 \<and> ta_TrafficClass ack = ta_TrafficClass old \<and>
     sint (ta_Acknowledgement ack - ta_Acknowledgement old) > 0 \<and>
     ta_Timestamp ack = ta_Timestamp old \<and>
     (\<not> ta_Timestamp ack \<or> (sint (ta_TSVal ack - ta_TSVal old) \<ge> 0 \<and> sint (ta_TSEcr ack - ta_TSEcr old) \<ge> 0))"

text \<open>A write through a pointer to a flow.\<close>

definition set_flow :: "fair_packet_queue \<Rightarrow> flow_id \<Rightarrow> (packet_flow \<Rightarrow> packet_flow) \<Rightarrow> fair_packet_queue" where
  "set_flow q i f = q\<lparr>fq_flows := (fq_flows q)(i := map_option f (fq_flows q i))\<rparr>"

definition fq_link :: "fair_packet_queue \<Rightarrow> flow_id \<Rightarrow> fair_packet_queue option" where
  "fq_link q i =
     (case fq_head q of
        None \<Rightarrow>
          Some (q\<lparr>fq_flows := (fq_flows q)(i \<mapsto> \<lparr>pf_packets = [], pf_next = i, pf_previous = i\<rparr>), fq_head := Some i\<rparr>)
      | Some h \<Rightarrow> do {
          hf \<leftarrow> fq_flows q h;
          let q = q\<lparr>fq_flows := (fq_flows q)(i \<mapsto> \<lparr>pf_packets = [], pf_next = h, pf_previous = pf_previous hf\<rparr>)\<rparr>;
          let q = set_flow q (pf_previous hf) (\<lambda>f. f\<lparr>pf_next := i\<rparr>);
          Some (set_flow q h (\<lambda>f. f\<lparr>pf_previous := i\<rparr>))
        })"

definition coalesces :: "packet list \<Rightarrow> packet \<Rightarrow> bool" where
  "coalesces ps p \<longleftrightarrow>
     (let n = length ps in n \<ge> 2 \<and> pk_flow p \<noteq> no_flow \<and>
        supersedes (pk_ack (ps ! (n - 1))) (pk_ack (ps ! (n - 2))) \<and> supersedes (pk_ack p) (pk_ack (ps ! (n - 1))))"

definition fq_push :: "fair_packet_queue \<Rightarrow> packet \<Rightarrow> (bool \<times> fair_packet_queue) option" where
  "fq_push q p = do {
     q \<leftarrow> (case fq_flows q (pk_flow p) of None \<Rightarrow> fq_link q (pk_flow p) | Some _ \<Rightarrow> Some q);
     flow \<leftarrow> fq_flows q (pk_flow p);
     if coalesces (pf_packets flow) p
     then Some (True, set_flow q (pk_flow p) (\<lambda>f. f\<lparr>pf_packets := (pf_packets f)[length (pf_packets f) - 1 := p]\<rparr>))
     else Some (False, (set_flow q (pk_flow p) (\<lambda>f. f\<lparr>pf_packets := pf_packets f @ [p]\<rparr>))\<lparr>fq_count := fq_count q + 1\<rparr>)
   }"

definition fq_peek :: "fair_packet_queue \<Rightarrow> packet option option" where
  "fq_peek q =
     (case fq_head q of
        None \<Rightarrow> Some None
      | Some h \<Rightarrow> (case fq_flows q h of None \<Rightarrow> None | Some flow \<Rightarrow> Some (fifo_peek (pf_packets flow))))"

definition fq_pop :: "fair_packet_queue \<Rightarrow> fair_packet_queue option" where
  "fq_pop q = do {
     h \<leftarrow> fq_head q;
     flow \<leftarrow> fq_flows q h;
     packets \<leftarrow> fifo_pop (pf_packets flow);
     let q = set_flow q h (\<lambda>f. f\<lparr>pf_packets := packets\<rparr>);
     let q = q\<lparr>fq_count := fq_count q - 1\<rparr>;
     let q = q\<lparr>fq_head := Some (pf_next flow)\<rparr>;
     if packets = [] then do {
       let q = q\<lparr>fq_flows := (fq_flows q)(h := None)\<rparr>;
       if pf_next flow = h then Some (q\<lparr>fq_head := None\<rparr>)
       else do {
         let q = set_flow q (pf_previous flow) (\<lambda>f. f\<lparr>pf_next := pf_next flow\<rparr>);
         Some (set_flow q (pf_next flow) (\<lambda>f. f\<lparr>pf_previous := pf_previous flow\<rparr>))
       }
     }
     else Some q
   }"

subsection \<open>The ring as a list\<close>

text \<open>What the fair queue implements: the active flows in turn, each with its packets.\<close>

type_synonym ring = "(flow_id \<times> packet list) list"

definition add_packet :: "packet list \<Rightarrow> packet \<Rightarrow> packet list" where
  "add_packet ps p = (if coalesces ps p then ps[length ps - 1 := p] else ps @ [p])"

definition ring_push :: "ring \<Rightarrow> packet \<Rightarrow> bool \<times> ring" where
  "ring_push r p =
     (case map_of r (pk_flow p) of
        None \<Rightarrow> (False, r @ [(pk_flow p, [p])])
      | Some ps \<Rightarrow> (coalesces ps p, map (\<lambda>(i, ps). (i, if i = pk_flow p then add_packet ps p else ps)) r))"

fun ring_peek :: "ring \<Rightarrow> packet option" where
  "ring_peek ((i, p # ps) # r) = Some p"
| "ring_peek _ = None"

fun ring_pop :: "ring \<Rightarrow> ring option" where
  "ring_pop ((i, p # ps) # r) = Some (if ps = [] then r else r @ [(i, ps)])"
| "ring_pop _ = None"

subsection \<open>Runs\<close>

text \<open>The users of the queue pop only a packet they have peeked.\<close>

datatype queue_op = Push packet | Take

fun fq_run :: "fair_packet_queue \<Rightarrow> queue_op list \<Rightarrow> ((bool + packet option) list \<times> fair_packet_queue) option" where
  "fq_run q [] = Some ([], q)"
| "fq_run q (Push p # ops) = do {
     (c, q) \<leftarrow> fq_push q p;
     (os, q) \<leftarrow> fq_run q ops;
     Some (Inl c # os, q)
   }"
| "fq_run q (Take # ops) = do {
     p \<leftarrow> fq_peek q;
     q \<leftarrow> (if p = None then Some q else fq_pop q);
     (os, q) \<leftarrow> fq_run q ops;
     Some (Inr p # os, q)
   }"

fun ring_run :: "ring \<Rightarrow> queue_op list \<Rightarrow> (bool + packet option) list \<times> ring" where
  "ring_run r [] = ([], r)"
| "ring_run r (Push p # ops) =
     (let (c, r) = ring_push r p; (os, r) = ring_run r ops in (Inl c # os, r))"
| "ring_run r (Take # ops) =
     (let p = ring_peek r;
          r = (case ring_pop r of None \<Rightarrow> r | Some r \<Rightarrow> r);
          (os, r) = ring_run r ops
      in (Inr p # os, r))"

section \<open>The linked ring implements the list\<close>

definition nx :: "(flow_id \<rightharpoonup> packet_flow) \<Rightarrow> flow_id \<Rightarrow> flow_id" where
  "nx fl i = pf_next (the (fl i))"

definition pv :: "(flow_id \<rightharpoonup> packet_flow) \<Rightarrow> flow_id \<Rightarrow> flow_id" where
  "pv fl i = pf_previous (the (fl i))"

definition linked :: "(flow_id \<rightharpoonup> packet_flow) \<Rightarrow> flow_id list \<Rightarrow> bool" where
  "linked fl ids \<longleftrightarrow> distinct ids \<and> dom fl = set ids \<and> map (nx fl) ids = rotate1 ids \<and> map (pv fl) (rotate1 ids) = ids"

definition ring_shape :: "fair_packet_queue \<Rightarrow> ring \<Rightarrow> bool" where
  "ring_shape q r \<longleftrightarrow> linked (fq_flows q) (map fst r) \<and>
     fq_head q = (case r of [] \<Rightarrow> None | (i, _) # _ \<Rightarrow> Some i) \<and>
     (\<forall>i ps. (i, ps) \<in> set r \<longrightarrow> pf_packets (the (fq_flows q i)) = ps) \<and>
     fq_count q = int (sum_list (map (length \<circ> snd) r))"

definition ring_rel :: "fair_packet_queue \<Rightarrow> ring \<Rightarrow> bool" where
  "ring_rel q r \<longleftrightarrow> ring_shape q r \<and> (\<forall>i ps. (i, ps) \<in> set r \<longrightarrow> ps \<noteq> [])"

lemma linked_rotate1: "linked fl ids \<Longrightarrow> linked fl (rotate1 ids)"
  unfolding linked_def by (metis distinct1_rotate rotate1_map set_rotate1)

lemma map_upd_last: "distinct (xs @ [z]) \<Longrightarrow> map (\<lambda>x. if x = z then a else f x) (xs @ [z]) = map f xs @ [a]"
  by (auto simp: map_eq_conv)

lemma linked_ends:
  assumes "linked fl (h # t)"
  shows "nx fl h = hd (t @ [h])" and "pv fl h = last (h # t)"
    and "map (nx fl) (butlast (h # t)) = t" and "nx fl (last (h # t)) = h"
proof -
  have m: "nx fl h # map (nx fl) t = t @ [h]" "map (pv fl) t @ [pv fl h] = h # t" using assms by (auto simp: linked_def)
  show "nx fl h = hd (t @ [h])" using m(1) by (metis list.sel(1))
  show "pv fl h = last (h # t)" using m(2) by (metis last_snoc)
  have "map (nx fl) (butlast (h # t)) = butlast (map (nx fl) (h # t))" by (rule map_butlast)
  then show "map (nx fl) (butlast (h # t)) = t" using m(1) by simp
  have "nx fl (last (h # t)) = last (map (nx fl) (h # t))" by (rule last_map [symmetric]) simp
  then show "nx fl (last (h # t)) = h" using m(1) by simp
qed

lemma linked_insert:
  assumes l: "linked fl (h # t)" and i: "i \<notin> set (h # t)" and dom: "dom fl' = insert i (dom fl)"
    and nx: "\<And>x. nx fl' x = (if x = i then h else if x = last (h # t) then i else nx fl x)"
    and pv: "\<And>x. pv fl' x = (if x = h then i else if x = i then last (h # t) else pv fl x)"
  shows "linked fl' (h # t @ [i])"
proof -
  have d: "distinct (h # t)" using l by (simp add: linked_def)
  obtain b z where bz: "h # t = b @ [z]" by (metis append_butlast_last_id list.discI)
  have z: "last (h # t) = z" "butlast (h # t) = b" unfolding bz by simp_all
  have "map (nx fl') (b @ [z]) = map (nx fl) b @ [i]"
  proof -
    have "x \<noteq> i \<and> x \<noteq> z" if "x \<in> set b" for x using that d i unfolding bz by auto
    moreover have "z \<noteq> i" using i unfolding bz by auto
    ultimately show ?thesis by (simp add: nx [unfolded z])
  qed
  also have "map (nx fl) b = t" using linked_ends(3) [OF l] z(2) by simp
  finally have "map (nx fl') (h # t @ [i]) = t @ [i, h]" using bz nx [of i] by (metis append.assoc append_Cons append_Nil map_append list.simps(8,9))
  moreover have "map (pv fl') (t @ [i, h]) = h # t @ [i]"
  proof -
    have e1: "map (pv fl') t = map (pv fl) t" using d i by (auto simp: pv)
    have "map (pv fl) t @ [pv fl h] = h # t" using l by (auto simp: linked_def)
    then have e2: "map (pv fl) t @ [last (h # t)] = h # t" using linked_ends(2) [OF l] by simp
    have "i \<noteq> h" using i by auto
    then have e3: "map (pv fl') (t @ [i, h]) = (map (pv fl') t @ [last (h # t)]) @ [i]"
      by (simp del: last.simps add: pv [of i] pv [of h])
    show ?thesis unfolding e3 e1 e2 by simp
  qed
  ultimately show ?thesis using l i dom d by (auto simp: linked_def)
qed

lemma linked_unlink:
  assumes l: "linked fl (h # t)" and "t \<noteq> []" and dom: "dom fl' = dom fl - {h}"
    and nx: "\<And>x. x \<noteq> h \<Longrightarrow> nx fl' x = (if x = last t then hd t else nx fl x)"
    and pv: "\<And>x. x \<noteq> h \<Longrightarrow> pv fl' x = (if x = hd t then last t else pv fl x)"
  shows "linked fl' t"
proof -
  have d: "distinct (h # t)" using l by (simp add: linked_def)
  obtain b z where bz: "t = b @ [z]" using \<open>t \<noteq> []\<close> by (metis append_butlast_last_id)
  obtain a t' where at: "t = a # t'" using \<open>t \<noteq> []\<close> by (cases t) auto
  have m: "nx fl h # map (nx fl) t = t @ [h]" "map (pv fl) t @ [pv fl h] = h # t" using l by (auto simp: linked_def)
  have "map (nx fl) b @ [nx fl z] = t' @ [h]" using m(1) unfolding at by (metis append_Cons bz at list.inject list.simps(8,9) map_append)
  then have nb: "map (nx fl) b = t'" by simp
  have "x \<noteq> h \<and> x \<noteq> z" if "x \<in> set b" for x using that d unfolding bz by auto
  moreover have "z \<noteq> h" using d unfolding bz by auto
  moreover have ends: "hd t = a" "last t = z" using at apply simp using bz by simp
  ultimately have "map (nx fl') (b @ [z]) = map (nx fl) b @ [a]" by (simp add: nx [unfolded ends])
  then have "map (nx fl') t = t' @ [a]" unfolding nb bz [symmetric] .
  then have "map (nx fl') t = rotate1 t" by (simp add: at)
  moreover have "map (pv fl') (t' @ [a]) = t"
  proof -
    have "map (pv fl) t' @ [pv fl h] = t" using m(2) at by simp
    then have e1: "map (pv fl) t' = b" using bz by simp
    have "x \<noteq> h \<and> x \<noteq> a" if "x \<in> set t'" for x using that d unfolding at by auto
    then have e2: "map (pv fl') t' = map (pv fl) t'" by (simp add: pv [unfolded ends])
    have "a \<noteq> h" using d unfolding at by auto
    then have "map (pv fl') (t' @ [a]) = map (pv fl') t' @ [z]" by (simp add: pv [unfolded ends])
    then show ?thesis unfolding e2 e1 bz [symmetric] .
  qed
  ultimately show ?thesis using l dom d at by (auto simp: linked_def)
qed

subsection \<open>Each operation\<close>

lemma ring_packets: "ring_shape q r \<Longrightarrow> (i, ps) \<in> set r \<Longrightarrow> \<exists>fl. fq_flows q i = Some fl \<and> pf_packets fl = ps"
proof -
  assume sh: "ring_shape q r" and i: "(i, ps) \<in> set r"
  then have "i \<in> dom (fq_flows q)" by (force simp: ring_shape_def linked_def)
  then obtain fl where fl: "fq_flows q i = Some fl" by blast
  have "pf_packets (the (fq_flows q i)) = ps" using sh i unfolding ring_shape_def by blast
  then show ?thesis using fl by simp
qed

lemma ring_lookup: "ring_shape q r \<Longrightarrow> (fq_flows q i = None) = (map_of r i = None)"
  unfolding ring_shape_def linked_def map_of_eq_None_iff by (metis domIff list.set_map)

lemma linked_cong: "dom fl' = dom fl \<Longrightarrow> nx fl' = nx fl \<Longrightarrow> pv fl' = pv fl \<Longrightarrow> linked fl' ids = linked fl ids"
  by (simp add: linked_def)

lemma set_packets_shape:
  assumes "ring_shape q r" and "\<And>f. g f = f\<lparr>pf_packets := h (pf_packets f)\<rparr>"
  shows "ring_shape ((set_flow q i g)\<lparr>fq_count := c\<rparr>) (map (\<lambda>(j, ps). (j, if j = i then h ps else ps)) r) \<longleftrightarrow>
    c = int (sum_list (map (length \<circ> snd) (map (\<lambda>(j, ps). (j, if j = i then h ps else ps)) r)))"
proof -
  let ?fl = "(fq_flows q)(i := map_option g (fq_flows q i))" and ?r = "map (\<lambda>(j, ps). (j, if j = i then h ps else ps)) r"
  have ids: "map fst ?r = map fst r" by (simp add: case_prod_beta comp_def)
  have "linked ?fl (map fst r) = linked (fq_flows q) (map fst r)"
    by (rule linked_cong; cases "fq_flows q i") (auto simp: nx_def pv_def fun_eq_iff assms(2) dom_def split: option.splits)
  moreover have "pf_packets (the (?fl j)) = ps" if "(j, ps) \<in> set ?r" for j ps
  proof -
    from that obtain ps0 where m: "(j, ps0) \<in> set r" "ps = (if j = i then h ps0 else ps0)" by auto
    from ring_packets [OF assms(1) m(1)] show ?thesis using m(2) by (auto simp: assms(2))
  qed
  moreover have "(case ?r of [] \<Rightarrow> None | (i, _) # _ \<Rightarrow> Some i) = (case r of [] \<Rightarrow> None | (i, _) # _ \<Rightarrow> Some i)"
    by (cases r) auto
  ultimately show ?thesis using assms(1) unfolding ring_shape_def ids by (simp add: set_flow_def)
qed

lemma link_shape:
  assumes sh: "ring_shape q r" and i: "i \<notin> fst ` set r"
  shows "\<exists>q'. fq_link q i = Some q' \<and> ring_shape q' (r @ [(i, [])])"
proof (cases r)
  case Nil
  then have "fq_flows q = (\<lambda>_. None)" "fq_head q = None" using sh by (auto simp: ring_shape_def linked_def)
  then show ?thesis using sh Nil by (simp add: fq_link_def ring_shape_def linked_def nx_def pv_def dom_def)
next
  case (Cons hp r')
  obtain h hps where hp: "hp = (h, hps)" by (cases hp)
  let ?t = "map fst r'" and ?fl = "fq_flows q"
  have l: "linked ?fl (h # ?t)" and hd: "fq_head q = Some h" using sh Cons hp by (auto simp: ring_shape_def)
  have ni: "i \<notin> set (h # ?t)" using i Cons hp by auto
  obtain hf where hf: "?fl h = Some hf" using ring_packets [OF sh, of h hps] Cons hp by auto
  define z where "z = last (h # ?t)"
  have pz: "pf_previous hf = z" using linked_ends(2) [OF l] hf by (simp add: pv_def z_def)
  have zin: "z \<in> set (h # ?t)" unfolding z_def by (rule last_in_set) simp
  then have "z \<in> dom ?fl" and zi: "z \<noteq> i" using l ni unfolding linked_def by (simp, metis)
  then obtain zf where zf: "?fl z = Some zf" by blast
  have hi: "h \<noteq> i" using ni by auto
  let ?q1 = "q\<lparr>fq_flows := ?fl(i \<mapsto> \<lparr>pf_packets = [], pf_next = h, pf_previous = z\<rparr>)\<rparr>"
  let ?q' = "set_flow (set_flow ?q1 z (\<lambda>f. f\<lparr>pf_next := i\<rparr>)) h (\<lambda>f. f\<lparr>pf_previous := i\<rparr>)"
  have link: "fq_link q i = Some ?q'" using hd hf pz by (simp add: fq_link_def Let_def)
  have "linked (fq_flows ?q') (h # ?t @ [i])"
  proof (rule linked_insert [OF l ni])
    show "dom (fq_flows ?q') = insert i (dom ?fl)" using zf hf zi hi by (auto simp: set_flow_def)
    show "nx (fq_flows ?q') x = (if x = i then h else if x = last (h # ?t) then i else nx ?fl x)" for x
      unfolding z_def [symmetric] using zf hf zi hi by (auto simp: nx_def set_flow_def)
    show "pv (fq_flows ?q') x = (if x = h then i else if x = i then last (h # ?t) else pv ?fl x)" for x
      unfolding z_def [symmetric] using zf hf zi hi by (auto simp: pv_def set_flow_def)
  qed
  moreover have "pf_packets (the (fq_flows ?q' j)) = ps" if "(j, ps) \<in> set (r @ [(i, [])])" for j ps
  proof (cases "j = i")
    case True
    then show ?thesis using that i zi hi by (force simp: set_flow_def)
  next
    case False
    then have "(j, ps) \<in> set r" using that by auto
    then have "pf_packets (the (?fl j)) = ps" using sh unfolding ring_shape_def by blast
    then show ?thesis using False zf hf zi hi by (auto simp: set_flow_def)
  qed
  ultimately have "ring_shape ?q' (r @ [(i, [])])"
    using sh hd Cons hp by (simp add: ring_shape_def set_flow_def)
  then show ?thesis using link by blast
qed

lemma sum_set_packets:
  assumes "distinct (map fst r)" and "(i, ps) \<in> set r"
  shows "int (sum_list (map (length \<circ> snd) (map (\<lambda>(j, ps). (j, if j = i then h ps else ps)) r))) =
    int (sum_list (map (length \<circ> snd) r)) + int (length (h ps)) - int (length ps)"
  using assms
proof (induction r)
  case (Cons jp r)
  obtain j qs where jp: "jp = (j, qs)" by (cases jp)
  show ?case
  proof (cases "j = i")
    case True
    then have "i \<notin> fst ` set r" using Cons.prems jp by auto
    then have "map (\<lambda>(j, ps). (j, if j = i then h ps else ps)) r = r" by (induction r) auto
    moreover have "qs = ps" using Cons.prems True jp by (force simp: image_iff)
    ultimately show ?thesis using True jp by simp
  next
    case False
    then show ?thesis using Cons jp by auto
  qed
qed simp

lemma length_add_packet: "int (length (add_packet ps p)) - int (length ps) = (if coalesces ps p then 0 else 1)"
  by (simp add: add_packet_def)

lemma push_known:
  assumes rel: "ring_shape q r" and ps: "map_of r (pk_flow p) = Some ps"
  shows "\<exists>q'. fq_push q p = Some (coalesces ps p, q') \<and>
    ring_shape q' (map (\<lambda>(i, ps). (i, if i = pk_flow p then add_packet ps p else ps)) r)"
proof -
  let ?i = "pk_flow p" and ?r = "map (\<lambda>(i, ps). (i, if i = pk_flow p then add_packet ps p else ps)) r"
  let ?h = "\<lambda>qs. if coalesces ps p then qs[length qs - 1 := p] else qs @ [p]"
  have mem: "(?i, ps) \<in> set r" using map_of_SomeD [OF ps] .
  have d: "distinct (map fst r)" using rel by (simp add: ring_shape_def linked_def)
  obtain fl where fl: "fq_flows q ?i = Some fl" "pf_packets fl = ps" using ring_packets [OF rel mem] by blast
  have same: "?r = map (\<lambda>(j, qs). (j, if j = ?i then ?h qs else qs)) r"
    using map_of_is_SomeI [OF d] ps by (auto simp: add_packet_def)
  let ?c = "fq_count q + (if coalesces ps p then 0 else 1)"
  have c: "?c = int (sum_list (map (length \<circ> snd) (map (\<lambda>(j, qs). (j, if j = ?i then ?h qs else qs)) r)))"
    unfolding sum_set_packets [OF d mem] using rel by (simp add: ring_shape_def)
  let ?g = "\<lambda>f. f\<lparr>pf_packets := ?h (pf_packets f)\<rparr>"
  have "ring_shape ((set_flow q ?i ?g)\<lparr>fq_count := ?c\<rparr>) ?r"
    unfolding same by (rule set_packets_shape [OF rel, THEN iffD2, OF refl c])
  moreover have "fq_push q p = Some (coalesces ps p, (set_flow q ?i ?g)\<lparr>fq_count := ?c\<rparr>)"
    using fl by (simp add: fq_push_def set_flow_def)
  ultimately show ?thesis by blast
qed

lemma push_refines:
  assumes rel: "ring_rel q r"
  shows "\<exists>q'. fq_push q p = Some (fst (ring_push r p), q') \<and> ring_rel q' (snd (ring_push r p))"
proof (cases "map_of r (pk_flow p)")
  case (Some ps)
  let ?r = "map (\<lambda>(i, ps). (i, if i = pk_flow p then add_packet ps p else ps)) r"
  have ne: "qs \<noteq> []" if "(i, qs) \<in> set ?r" for i qs
  proof -
    from that obtain ps' where "(i, ps') \<in> set r" "qs = (if i = pk_flow p then add_packet ps' p else ps')" by auto
    moreover have "ps' \<noteq> []" using calculation(1) rel unfolding ring_rel_def by blast
    ultimately show ?thesis by (simp add: add_packet_def)
  qed
  have "ring_shape q r" using rel by (simp add: ring_rel_def)
  from push_known [OF this Some] ne show ?thesis unfolding ring_push_def ring_rel_def Some by auto
next
  case None
  let ?i = "pk_flow p" and ?r = "r @ [(pk_flow p, [])]"
  have sh: "ring_shape q r" using rel by (simp add: ring_rel_def)
  have ni: "?i \<notin> fst ` set r" using None by (simp add: map_of_eq_None_iff)
  obtain q1 where q1: "fq_link q ?i = Some q1" "ring_shape q1 ?r" using link_shape [OF sh ni] by blast
  have look: "map_of ?r ?i = Some []" using None by (simp add: map_add_Some_iff)
  have nc: "\<not> coalesces [] p" by (simp add: coalesces_def)
  have "fq_flows q1 ?i \<noteq> None" using ring_lookup [OF q1(2), of ?i] look by simp
  then have "fq_push q p = fq_push q1 p" using ring_lookup [OF sh, of ?i] None q1(1) by (auto simp: fq_push_def)
  moreover have "map (\<lambda>(i, ps). (i, if i = ?i then add_packet ps p else ps)) ?r = r @ [(?i, [p])]"
  proof -
    have "i \<noteq> ?i" if "(i, ps) \<in> set r" for i ps using that ni by force
    then have "map (\<lambda>(i, ps). (i, if i = ?i then add_packet ps p else ps)) r = r" by (intro map_idI) auto
    then show ?thesis using nc by (simp add: add_packet_def)
  qed
  ultimately obtain q' where "fq_push q p = Some (False, q')" "ring_shape q' (r @ [(?i, [p])])"
    using push_known [OF q1(2) look] nc by auto
  then show ?thesis using None rel by (auto simp: ring_rel_def ring_push_def)
qed

lemma pop_rotates:
  assumes sh: "ring_shape q ((h, p # ps) # r)" and "ps \<noteq> []"
  shows "\<exists>q'. fq_pop q = Some q' \<and> ring_shape q' (r @ [(h, ps)])"
proof -
  let ?g = "\<lambda>f. f\<lparr>pf_packets := ps\<rparr>" and ?fl = "fq_flows q"
  obtain flow where flow: "?fl h = Some flow" "pf_packets flow = p # ps" using ring_packets [OF sh] by auto
  have l: "linked ?fl (h # map fst r)" and hd: "fq_head q = Some h" and ct: "fq_count q = int (Suc (length ps) + sum_list (map (length \<circ> snd) r))"
    using sh by (auto simp: ring_shape_def)
  have nh: "h \<notin> fst ` set r" using l by (auto simp: linked_def)
  let ?q' = "(set_flow q h ?g)\<lparr>fq_count := fq_count q - 1, fq_head := Some (pf_next flow)\<rparr>"
  have pop: "fq_pop q = Some ?q'" using hd flow \<open>ps \<noteq> []\<close> by (simp add: fq_pop_def fifo_pop_def Let_def set_flow_def)
  have "linked (fq_flows ?q') (h # map fst r)"
    using l flow by (subst linked_cong [of _ ?fl]) (auto simp: set_flow_def nx_def pv_def fun_eq_iff)
  then have "linked (fq_flows ?q') (rotate1 (h # map fst r))" by (rule linked_rotate1)
  then have "linked (fq_flows ?q') (map fst (r @ [(h, ps)]))" by simp
  moreover have "pf_packets (the (fq_flows ?q' j)) = qs" if "(j, qs) \<in> set (r @ [(h, ps)])" for j qs
  proof (cases "j = h")
    case True
    then have "qs = ps" using that nh by force
    then show ?thesis using True flow by (simp add: set_flow_def)
  next
    case False
    then have "(j, qs) \<in> set r" using that by auto
    then have "pf_packets (the (?fl j)) = qs" using sh unfolding ring_shape_def by auto
    then show ?thesis using False by (simp add: set_flow_def)
  qed
  moreover have "pf_next flow = hd (map fst r @ [h])" using linked_ends(1) [OF l] flow by (simp add: nx_def)
  then have "fq_head ?q' = (case r @ [(h, ps)] of [] \<Rightarrow> None | (i, _) # _ \<Rightarrow> Some i)" by (cases r) auto
  moreover have "fq_count ?q' = int (sum_list (map (length \<circ> snd) (r @ [(h, ps)])))" using ct by simp
  ultimately show ?thesis using pop by (auto simp: ring_shape_def)
qed

lemma pop_unlinks:
  assumes sh: "ring_shape q ((h, [p]) # r)"
  shows "\<exists>q'. fq_pop q = Some q' \<and> ring_shape q' r"
proof -
  let ?g = "\<lambda>f. f\<lparr>pf_packets := []\<rparr>" and ?fl = "fq_flows q" and ?t = "map fst r"
  obtain flow where flow: "?fl h = Some flow" "pf_packets flow = [p]" using ring_packets [OF sh] by auto
  have l: "linked ?fl (h # ?t)" and hd: "fq_head q = Some h" and ct: "fq_count q = int (Suc (sum_list (map (length \<circ> snd) r)))"
    using sh by (auto simp: ring_shape_def)
  have nh: "h \<notin> fst ` set r" and dom: "dom ?fl = insert h (fst ` set r)" using l by (auto simp: linked_def)
  have nxt: "pf_next flow = List.hd (?t @ [h])" and prv: "pf_previous flow = last (h # ?t)"
    using linked_ends(1,2) [OF l] flow by (simp_all add: nx_def pv_def)
  have pks: "pf_packets (the (?fl j)) = qs" if "(j, qs) \<in> set r" for j qs using sh that unfolding ring_shape_def by auto
  let ?q1 = "q\<lparr>fq_flows := ?fl(h := None), fq_count := fq_count q - 1, fq_head := Some (pf_next flow)\<rparr>"
  show ?thesis
  proof (cases r)
    case Nil
    then have "fq_pop q = Some (?q1\<lparr>fq_head := None\<rparr>)"
      using hd flow nxt by (simp add: fq_pop_def fifo_pop_def Let_def set_flow_def)
    moreover have "?fl j = None" if "j \<noteq> h" for j
    proof -
      have "j \<notin> dom ?fl" using dom Nil that by simp
      then show ?thesis by (simp add: domIff)
    qed
    then have "?fl(h := None) = (\<lambda>_. None)" by (simp add: fun_eq_iff)
    ultimately show ?thesis using Nil ct by (simp add: ring_shape_def linked_def)
  next
    case (Cons x r')
    define a z where "a = List.hd ?t" and "z = last ?t"
    have "?t \<noteq> []" using Cons by simp
    then have "a \<in> set ?t" "z \<in> set ?t" unfolding a_def z_def by (rule hd_in_set, rule last_in_set)
    then have "a \<in> fst ` set r" "z \<in> fst ` set r" by simp_all
    moreover have "a \<noteq> h" "z \<noteq> h" using calculation nh by blast+
    ultimately have az: "pf_next flow = a" "pf_previous flow = z" "a \<in> fst ` set r" "z \<in> fst ` set r" "a \<noteq> h" "z \<noteq> h"
      using nxt prv Cons by (simp_all add: a_def z_def)
    let ?q' = "set_flow (set_flow ?q1 z (\<lambda>f. f\<lparr>pf_next := a\<rparr>)) a (\<lambda>f. f\<lparr>pf_previous := z\<rparr>)"
    obtain af zf where fs: "?fl a = Some af" "?fl z = Some zf" using az(3,4) dom by (metis domD insertI2)
    have pop: "fq_pop q = Some ?q'"
      using hd flow az by (simp add: fq_pop_def fifo_pop_def Let_def set_flow_def)
    have "linked (fq_flows ?q') ?t"
    proof (rule linked_unlink [OF l])
      show "dom (fq_flows ?q') = dom ?fl - {h}" using fs az by (auto simp: set_flow_def)
      show "nx (fq_flows ?q') x = (if x = last ?t then List.hd ?t else nx ?fl x)" if "x \<noteq> h" for x
        unfolding z_def [symmetric] a_def [symmetric] using that fs az by (auto simp: nx_def set_flow_def)
      show "pv (fq_flows ?q') x = (if x = List.hd ?t then last ?t else pv ?fl x)" if "x \<noteq> h" for x
        unfolding z_def [symmetric] a_def [symmetric] using that fs az by (auto simp: pv_def set_flow_def)
    qed (simp add: Cons)
    moreover have "pf_packets (the (fq_flows ?q' j)) = qs" if "(j, qs) \<in> set r" for j qs
    proof -
      have "j \<noteq> h" using that nh by force
      then show ?thesis using pks [OF that] fs az by (auto simp: set_flow_def)
    qed
    moreover have "fq_head ?q' = (case r of [] \<Rightarrow> None | (i, _) # _ \<Rightarrow> Some i)"
      using az(1) Cons by (cases x) (simp add: set_flow_def a_def)
    moreover have "fq_count ?q' = int (sum_list (map (length \<circ> snd) r))" using ct by (simp add: set_flow_def)
    ultimately show ?thesis using pop unfolding ring_shape_def by blast
  qed
qed

lemma take_refines:
  assumes rel: "ring_rel q r"
  shows "fq_peek q = Some (ring_peek r) \<and> (ring_peek r = None \<longleftrightarrow> r = []) \<and>
    (r \<noteq> [] \<longrightarrow> (\<exists>q' r'. ring_pop r = Some r' \<and> fq_pop q = Some q' \<and> ring_rel q' r'))"
proof (cases r)
  case Nil
  then show ?thesis using rel by (simp add: ring_rel_def ring_shape_def fq_peek_def)
next
  case (Cons hp r')
  obtain h ps where hp: "hp = (h, ps)" by (cases hp)
  have "ps \<noteq> []" using rel Cons hp unfolding ring_rel_def by auto
  then obtain p ps' where ps: "ps = p # ps'" by (cases ps) auto
  have sh: "ring_shape q ((h, p # ps') # r')" using rel Cons hp ps by (simp add: ring_rel_def)
  have pk: "fq_peek q = Some (Some p)"
    using ring_packets [OF sh, of h "p # ps'"] sh by (auto simp: fq_peek_def ring_shape_def fifo_peek_def)
  have ne: "qs \<noteq> []" if "(i, qs) \<in> set r'" for i qs using that rel Cons unfolding ring_rel_def by auto
  show ?thesis
  proof (cases "ps' = []")
    case True
    then show ?thesis using pop_unlinks [of q h p r'] sh pk ne Cons hp ps by (auto simp: ring_rel_def)
  next
    case False
    then show ?thesis using pop_rotates [OF sh False] pk ne Cons hp ps by (auto simp: ring_rel_def)
  qed
qed

lemma run_refines:
  assumes "ring_rel q r"
  shows "\<exists>q'. fq_run q ops = Some (fst (ring_run r ops), q') \<and> ring_rel q' (snd (ring_run r ops))"
  using assms
proof (induction ops arbitrary: q r)
  case (Cons op ops)
  show ?case
  proof (cases op)
    case (Push p)
    obtain q1 where q1: "fq_push q p = Some (fst (ring_push r p), q1)" "ring_rel q1 (snd (ring_push r p))"
      using push_refines [OF Cons.prems] by blast
    from Cons.IH [OF q1(2)] show ?thesis using Push q1(1) by (auto simp: Let_def case_prod_beta)
  next
    case Take
    note t = take_refines [OF Cons.prems]
    show ?thesis
    proof (cases "r = []")
      case True
      then show ?thesis using Cons.IH [OF Cons.prems] Take t by (auto simp: Let_def case_prod_beta)
    next
      case False
      then obtain q' r' where "ring_pop r = Some r'" "fq_pop q = Some q'" "ring_rel q' r'" using t by blast
      then show ?thesis using Cons.IH [of q' r'] Take t False by (auto simp: Let_def case_prod_beta)
    qed
  qed
qed simp

lemma empty_rel: "ring_rel fq_empty []"
  by (simp add: ring_rel_def ring_shape_def linked_def fq_empty_def)

text \<open>
  C16: the doubly linked ring of flows implements a list of flows served in turn. For every
  sequence of pushes and takes from the empty queue no pointer is missing, and the queue returns
  exactly what the list does: the same coalescing verdicts and the same packets in the same order.
\<close>

theorem fair_queue_refines:
  "map_option fst (fq_run fq_empty ops) = Some (fst (ring_run [] ops))"
  using run_refines [OF empty_rel, of ops] by auto

subsection \<open>Turns\<close>

definition own_packets :: "ring \<Rightarrow> bool" where
  "own_packets r \<longleftrightarrow> (\<forall>i ps p. (i, ps) \<in> set r \<longrightarrow> p \<in> set ps \<longrightarrow> pk_flow p = i)"

lemma own_packets_push: "own_packets r \<Longrightarrow> own_packets (snd (ring_push r p))"
proof (cases "map_of r (pk_flow p)")
  case (Some ps0)
  assume own: "own_packets r"
  have "pk_flow p' = i" if "(i, ps) \<in> set r" "p' \<in> set (if i = pk_flow p then add_packet ps p else ps)" for i ps p'
  proof -
    have "pk_flow x = i" if "x \<in> set ps" for x using own \<open>(i, ps) \<in> set r\<close> that unfolding own_packets_def by blast
    moreover have "p' = p \<and> i = pk_flow p \<or> p' \<in> set ps"
      using that(2) by (auto simp: add_packet_def split: if_splits dest: set_update_subset_insert [THEN subsetD])
    ultimately show ?thesis by auto
  qed
  then show ?thesis using Some by (auto simp: ring_push_def own_packets_def)
qed (auto simp: ring_push_def own_packets_def)

lemma own_packets_pop: "own_packets r \<Longrightarrow> ring_pop r = Some r' \<Longrightarrow> own_packets r'"
  by (induction r rule: ring_pop.induct) (auto simp: own_packets_def split: if_splits)

lemma own_packets_run: "own_packets r \<Longrightarrow> own_packets (snd (ring_run r ops))"
proof (induction ops arbitrary: r)
  case (Cons op ops)
  show ?case
  proof (cases op)
    case (Push p)
    then show ?thesis using Cons own_packets_push [of r p] by (simp add: Let_def case_prod_beta)
  next
    case Take
    then show ?thesis using Cons own_packets_pop [of r] by (auto simp: Let_def case_prod_beta split: option.splits)
  qed
qed simp

lemma ring_round:
  assumes "\<And>i ps. (i, ps) \<in> set xs \<Longrightarrow> ps \<noteq> []"
  shows "fst (ring_run (xs @ ys) (replicate (length xs) Take)) = map (\<lambda>(i, ps). Inr (Some (List.hd ps))) xs"
  using assms
proof (induction xs arbitrary: ys)
  case (Cons x xs)
  obtain i ps where x: "x = (i, ps)" by (cases x)
  obtain p ps' where ps: "ps = p # ps'" using Cons.prems [of i ps] x by (cases ps) auto
  let ?ys = "if ps' = [] then ys else ys @ [(i, ps')]"
  have "fst (ring_run (xs @ ?ys) (replicate (length xs) Take)) = map (\<lambda>(i, ps). Inr (Some (List.hd ps))) xs"
    by (rule Cons.IH) (use Cons.prems in auto)
  then show ?case using x ps by (auto simp: Let_def case_prod_beta split: if_splits)
qed simp

text \<open>
  C18: no flow waits for another one's burst. After any sequence of pushes and takes, as many takes
  as there are active flows return one packet of each of them, the oldest one it has queued.
\<close>

theorem round_robin:
  assumes "fq_run fq_empty ops = Some (os, q)"
  shows "\<exists>ps q'. fq_run q (replicate (card (dom (fq_flows q))) Take) = Some (map (Inr \<circ> Some) ps, q') \<and>
    distinct (map pk_flow ps) \<and> set (map pk_flow ps) = dom (fq_flows q) \<and>
    list_all (\<lambda>p. fifo_peek (pf_packets (the (fq_flows q (pk_flow p)))) = Some p) ps"
proof -
  define r where "r = snd (ring_run [] ops)"
  have rel: "ring_rel q r" using run_refines [OF empty_rel, of ops] assms by (auto simp: r_def)
  have own: "own_packets r" unfolding r_def by (rule own_packets_run) (simp add: own_packets_def)
  have ne: "ps \<noteq> []" if "(i, ps) \<in> set r" for i ps using that rel unfolding ring_rel_def by blast
  have sh: "ring_shape q r" using rel by (simp add: ring_rel_def)
  then have l: "distinct (map fst r)" "dom (fq_flows q) = fst ` set r" by (auto simp: ring_shape_def linked_def)
  then have n: "card (dom (fq_flows q)) = length r" by (metis distinct_card length_map list.set_map)
  define ps where "ps = map (\<lambda>(i, ps). List.hd ps) r"
  have flows: "map pk_flow ps = map fst r"
    using own ne unfolding own_packets_def ps_def by (auto simp: case_prod_beta)
  have "fst (ring_run r (replicate (length r) Take)) = map (Inr \<circ> Some) ps"
    using ring_round [of r "[]"] ne by (auto simp: case_prod_beta ps_def)
  then obtain q' where "fq_run q (replicate (card (dom (fq_flows q))) Take) = Some (map (Inr \<circ> Some) ps, q')"
    using run_refines [OF rel, of "replicate (length r) Take"] n by auto
  moreover have "fifo_peek (pf_packets (the (fq_flows q (pk_flow p)))) = Some p" if p: "p \<in> set ps" for p
  proof -
    from p obtain i ps where i: "(i, ps) \<in> set r" "p = List.hd ps" by (auto simp: ps_def)
    then have "pk_flow p = i" using own ne [OF i(1)] unfolding own_packets_def by auto
    then show ?thesis using ring_packets [OF sh i(1)] i(2) ne [OF i(1)] by (auto simp: fifo_peek_def hd_conv_nth)
  qed
  moreover have "distinct (map pk_flow ps)" "set (map pk_flow ps) = dom (fq_flows q)" unfolding flows using l by simp_all
  ultimately show ?thesis by (auto simp: list_all_iff)
qed

definition sample_ack :: tcp_ack where
  "sample_ack = \<lparr>ta_Eligible = False, ta_Sequence = 0, ta_Acknowledgement = 0, ta_Window = 0, ta_TrafficClass = 0,
     ta_Timestamp = False, ta_TSVal = 0, ta_TSEcr = 0\<rparr>"

definition sample_packet :: "flow_id \<Rightarrow> u64 \<Rightarrow> packet" where
  "sample_packet i n = \<lparr>pk_flow = i, pk_ack = sample_ack, pk_seq = n, pk_order = n, pk_class = classRealtime,
     pk_interactive = True, pk_payload = [], pk_created = 0, pk_queueDeadline = 0, pk_repairDeadline = 0, pk_lastSent = 0,
     pk_lastPath = 0, pk_lastLaneSeq = 0, pk_attempts = 0, pk_acked = False\<rparr>"

definition sample_queue_ops :: "queue_op list" where
  "sample_queue_ops = [Push (sample_packet [1] 1), Push (sample_packet [1] 2), Push (sample_packet [2] 3), Take,
     Push (sample_packet [3] 4)]"

theorem round_robin_witness:
  "\<exists>os q ps q'. fq_run fq_empty sample_queue_ops = Some (os, q) \<and>
    fq_run q (replicate (card (dom (fq_flows q))) Take) = Some (map (Inr \<circ> Some) ps, q') \<and>
    distinct (map pk_flow ps) \<and> set (map pk_flow ps) = dom (fq_flows q)"
proof -
  have "map_option fst (fq_run fq_empty sample_queue_ops) =
      Some [Inl False, Inl False, Inl False, Inr (Some (sample_packet [1] 1)), Inl False]" by code_simp
  then obtain os q where run: "fq_run fq_empty sample_queue_ops = Some (os, q)" by auto
  from round_robin [OF run] run show ?thesis by blast
qed

end
