(* ===== verification/Codel.thy ===== *)
theory Codel
  imports Wanbond_Prelude
begin

text \<open>
  The controlled-delay drop schedule of the bulk queue (internal/bond/queue.go). The square root of
  the control law is computed on integers: the spacing is the exact truncated quotient, which the
  source's floating-point division approximates.
\<close>

section \<open>Definitions\<close>

subsection \<open>The schedule\<close>

definition codelMinTarget :: duration where "codelMinTarget = 10 * millisecond"
definition codelMaxTarget :: duration where "codelMaxTarget = 100 * millisecond"
definition codelMinInterval :: duration where "codelMinInterval = 100 * millisecond"

record codel =
  co_target :: duration
  co_interval :: duration
  co_firstAbove :: instant
  co_dropNext :: instant
  co_count :: int
  co_lastCount :: int
  co_dropping :: bool

definition codel_zero :: codel where
  "codel_zero = \<lparr>co_target = 0, co_interval = 0, co_firstAbove = zero_time, co_dropNext = zero_time,
     co_count = 0, co_lastCount = 0, co_dropping = False\<rparr>"

definition okToDrop :: "codel \<Rightarrow> instant \<Rightarrow> duration \<Rightarrow> int \<Rightarrow> bool \<times> codel" where
  "okToDrop c now sojourn remaining =
     (if sojourn < co_target c \<or> remaining = 0 then (False, c\<lparr>co_firstAbove := zero_time\<rparr>)
      else if co_firstAbove c = zero_time then (False, c\<lparr>co_firstAbove := now + co_interval c\<rparr>)
      else (\<not> now < co_firstAbove c, c))"

text \<open>
  The quotient of the interval by the square root of the count, truncated: the largest integer
  whose square times the count does not exceed the squared interval.
\<close>

function isqrt_from :: "nat \<Rightarrow> nat \<Rightarrow> nat \<Rightarrow> nat" where
  "isqrt_from n lo hi =
     (if hi \<le> lo + 1 then lo
      else let mid = (lo + hi) div 2 in if mid * mid \<le> n then isqrt_from n mid hi else isqrt_from n lo mid)"
  by pat_completeness auto
termination by (relation "measure (\<lambda>(n, lo, hi). hi - lo)") auto

declare isqrt_from.simps [simp del]

definition isqrt :: "nat \<Rightarrow> nat" where
  "isqrt n = isqrt_from n 0 (n + 1)"

definition controlLaw :: "codel \<Rightarrow> instant \<Rightarrow> instant" where
  "controlLaw c t = t + int (isqrt (nat (co_interval c ^ 2 div co_count c)))"

definition codel_drop :: "codel \<Rightarrow> instant \<Rightarrow> duration \<Rightarrow> int \<Rightarrow> duration \<Rightarrow> bool \<times> codel" where
  "codel_drop c now sojourn remaining roundTrip =
     (let c = c\<lparr>co_target := min codelMaxTarget (max codelMinTarget roundTrip)\<rparr>;
          c = c\<lparr>co_interval := max codelMinInterval (2 * (roundTrip + co_target c))\<rparr>;
          (ok, c) = okToDrop c now sojourn remaining
      in if co_dropping c then
           (if \<not> ok then (False, c\<lparr>co_dropping := False\<rparr>)
            else if now < co_dropNext c then (False, c)
            else
              let c = c\<lparr>co_count := co_count c + 1\<rparr>
              in (True, c\<lparr>co_dropNext := controlLaw c (co_dropNext c)\<rparr>))
         else if \<not> ok then (False, c)
         else
           let c = c\<lparr>co_dropping := True\<rparr>;
               delta = co_count c - co_lastCount c;
               c = (if delta > 1 \<and> time_sub now (co_dropNext c) < 16 * co_interval c
                    then c\<lparr>co_count := delta\<rparr> else c\<lparr>co_count := 1\<rparr>);
               c = c\<lparr>co_lastCount := co_count c\<rparr>
           in (True, c\<lparr>co_dropNext := controlLaw c now\<rparr>))"

subsection \<open>Runs\<close>

text \<open>Calls of the drop schedule: time, sojourn, packets left behind and round trip.\<close>

type_synonym codel_call = "instant \<times> duration \<times> int \<times> duration"

fun codel_run :: "codel \<Rightarrow> codel_call list \<Rightarrow> codel" where
  "codel_run c [] = c"
| "codel_run c ((now, sojourn, remaining, rtt) # calls) = codel_run (snd (codel_drop c now sojourn remaining rtt)) calls"

fun above_target :: "codel_call \<Rightarrow> bool" where
  "above_target (now, sojourn, remaining, rtt) \<longleftrightarrow>
     sojourn \<ge> min codelMaxTarget (max codelMinTarget rtt) \<and> remaining \<noteq> 0"

section \<open>Properties\<close>

lemma isqrt_from_bounds:
  "lo * lo \<le> n \<Longrightarrow> n < hi * hi \<Longrightarrow> isqrt_from n lo hi * isqrt_from n lo hi \<le> n \<and> n < Suc (isqrt_from n lo hi) * Suc (isqrt_from n lo hi)"
proof (induction n lo hi rule: isqrt_from.induct)
  case (1 n lo hi)
  show ?case
  proof (cases "hi \<le> lo + 1")
    case True
    have "hi * hi \<le> Suc lo * Suc lo" using True by (intro mult_le_mono) auto
    then show ?thesis using True "1.prems" by (subst (1 2 3 4) isqrt_from.simps) simp
  next
    case False
    let ?m = "(lo + hi) div 2"
    show ?thesis
    proof (cases "?m * ?m \<le> n")
      case True
      then have "isqrt_from n lo hi = isqrt_from n ?m hi" using False by (subst isqrt_from.simps) (simp add: Let_def)
      then show ?thesis using "1.IH"(1) [OF False refl True True "1.prems"(2)] by simp
    next
      case neg: False
      then have "isqrt_from n lo hi = isqrt_from n lo ?m" using False by (subst isqrt_from.simps) (simp add: Let_def)
      then show ?thesis using "1.IH"(2) [OF False refl neg "1.prems"(1)] neg by simp
    qed
  qed
qed

lemma isqrt_bounds: "isqrt n * isqrt n \<le> n \<and> n < Suc (isqrt n) * Suc (isqrt n)"
  unfolding isqrt_def by (rule isqrt_from_bounds) simp_all

text \<open>The spacing of drops is the truncated quotient of the interval by the square root of the count.\<close>

lemma controlLaw_exact:
  fixes c :: codel and t :: instant
  assumes "0 < co_count c"
  defines "d \<equiv> controlLaw c t - t"
  shows "0 \<le> d \<and> d ^ 2 * co_count c \<le> co_interval c ^ 2 \<and> co_interval c ^ 2 < (d + 1) ^ 2 * co_count c"
proof -
  define n where "n = nat (co_interval c ^ 2 div co_count c)"
  have d: "d = int (isqrt n)" by (simp add: d_def controlLaw_def n_def)
  have n: "int n = co_interval c ^ 2 div co_count c" using assms(1) by (simp add: n_def pos_imp_zdiv_nonneg_iff)
  have "int (isqrt n * isqrt n) \<le> int n" "int n < int (Suc (isqrt n) * Suc (isqrt n))"
    using isqrt_bounds [of n] by (simp_all only: of_nat_le_iff of_nat_less_iff)
  then have "d ^ 2 \<le> int n" "int n < (d + 1) ^ 2" by (simp_all add: d power2_eq_square algebra_simps)
  define q where "q = co_interval c ^ 2 div co_count c"
  have "d ^ 2 \<le> q" "q + 1 \<le> (d + 1) ^ 2" using \<open>d ^ 2 \<le> int n\<close> \<open>int n < (d + 1) ^ 2\<close> n by (simp_all add: q_def)
  then have e: "d ^ 2 * co_count c \<le> q * co_count c" "(q + 1) * co_count c \<le> (d + 1) ^ 2 * co_count c"
    using assms(1) by (intro mult_right_mono; simp)+
  have "co_interval c ^ 2 = q * co_count c + co_interval c ^ 2 mod co_count c" by (simp add: q_def)
  moreover have "0 \<le> co_interval c ^ 2 mod co_count c" "co_interval c ^ 2 mod co_count c < co_count c" using assms(1) by simp_all
  moreover have "(q + 1) * co_count c = q * co_count c + co_count c" by (simp add: algebra_simps)
  moreover have "0 \<le> d" by (simp add: d)
  ultimately show ?thesis using e by linarith
qed

lemma okToDrop_firstAbove:
  assumes "okToDrop c now sojourn remaining = (ok, c')"
  shows "co_firstAbove c' = (if sojourn < co_target c \<or> remaining = 0 then zero_time
      else if co_firstAbove c = zero_time then now + co_interval c else co_firstAbove c)"
    and "ok \<Longrightarrow> \<not> sojourn < co_target c \<and> remaining \<noteq> 0 \<and> co_firstAbove c \<noteq> zero_time \<and> co_firstAbove c \<le> now"
  using assms by (auto simp: okToDrop_def split: if_splits)

definition retarget :: "codel \<Rightarrow> duration \<Rightarrow> codel" where
  "retarget c rtt = c\<lparr>co_target := min codelMaxTarget (max codelMinTarget rtt),
     co_interval := max codelMinInterval (2 * (rtt + min codelMaxTarget (max codelMinTarget rtt)))\<rparr>"

lemma codel_drop_ok:
  assumes "okToDrop (retarget c rtt) now sojourn remaining = (ok, c1)" and "codel_drop c now sojourn remaining rtt = (dropped, c')"
  shows "co_firstAbove c' = co_firstAbove c1" and "dropped \<Longrightarrow> ok"
proof -
  have "codel_drop c now sojourn remaining rtt =
      (if co_dropping c1 then
           (if \<not> ok then (False, c1\<lparr>co_dropping := False\<rparr>)
            else if now < co_dropNext c1 then (False, c1)
            else
              let c = c1\<lparr>co_count := co_count c1 + 1\<rparr>
              in (True, c\<lparr>co_dropNext := controlLaw c (co_dropNext c)\<rparr>))
         else if \<not> ok then (False, c1)
         else
           let c = c1\<lparr>co_dropping := True\<rparr>;
               delta = co_count c - co_lastCount c;
               c = (if delta > 1 \<and> time_sub now (co_dropNext c) < 16 * co_interval c
                    then c\<lparr>co_count := delta\<rparr> else c\<lparr>co_count := 1\<rparr>);
               c = c\<lparr>co_lastCount := co_count c\<rparr>
           in (True, c\<lparr>co_dropNext := controlLaw c now\<rparr>))"
    using assms(1) by (simp add: codel_drop_def retarget_def)
  then show "co_firstAbove c' = co_firstAbove c1" and "dropped \<Longrightarrow> ok"
    using assms(2) by (auto simp: Let_def split: if_splits)
qed

lemma codel_drop_firstAbove:
  assumes "codel_drop c now sojourn remaining rtt = (dropped, c')"
  shows "co_firstAbove c' = (if \<not> above_target (now, sojourn, remaining, rtt) then zero_time
      else if co_firstAbove c = zero_time then now + max codelMinInterval (2 * (rtt + min codelMaxTarget (max codelMinTarget rtt)))
      else co_firstAbove c)"
    and "dropped \<Longrightarrow> above_target (now, sojourn, remaining, rtt) \<and> co_firstAbove c \<noteq> zero_time \<and> co_firstAbove c \<le> now"
proof -
  obtain ok c1 where ok: "okToDrop (retarget c rtt) now sojourn remaining = (ok, c1)" by fastforce
  have r: "co_target (retarget c rtt) = min codelMaxTarget (max codelMinTarget rtt)" "co_firstAbove (retarget c rtt) = co_firstAbove c"
    "co_interval (retarget c rtt) = max codelMinInterval (2 * (rtt + min codelMaxTarget (max codelMinTarget rtt)))"
    by (simp_all add: retarget_def)
  have above: "above_target (now, sojourn, remaining, rtt) \<longleftrightarrow> \<not> (sojourn < co_target (retarget c rtt) \<or> remaining = 0)"
    unfolding r(1) above_target.simps de_Morgan_disj not_less ..
  show "co_firstAbove c' = (if \<not> above_target (now, sojourn, remaining, rtt) then zero_time
      else if co_firstAbove c = zero_time then now + max codelMinInterval (2 * (rtt + min codelMaxTarget (max codelMinTarget rtt)))
      else co_firstAbove c)"
    unfolding above codel_drop_ok(1) [OF ok assms] okToDrop_firstAbove(1) [OF ok] r(2,3) not_not ..
  show "above_target (now, sojourn, remaining, rtt) \<and> co_firstAbove c \<noteq> zero_time \<and> co_firstAbove c \<le> now" if dropped
    using okToDrop_firstAbove(2) [OF ok codel_drop_ok(2) [OF ok assms that]] unfolding above r(2) by blast
qed

definition standing_since :: "codel_call list \<Rightarrow> instant \<Rightarrow> bool" where
  "standing_since calls t \<longleftrightarrow>
     (\<exists>ys zs. calls = ys @ zs \<and> zs \<noteq> [] \<and> list_all above_target zs \<and> fst (hd zs) + codelMinInterval \<le> t)"

lemma codel_run_standing:
  assumes "list_all (\<lambda>(now, _). 0 \<le> now) calls"
  shows "co_firstAbove (codel_run codel_zero calls) = zero_time \<or> standing_since calls (co_firstAbove (codel_run codel_zero calls))"
  using assms
proof (induction calls rule: rev_induct)
  case Nil
  then show ?case by (simp add: codel_zero_def)
next
  case (snoc x calls)
  obtain now soj rem rtt where x: "x = (now, soj, rem, rtt)" by (cases x)
  have run: "codel_run c (xs @ [x]) = snd (codel_drop (codel_run c xs) now soj rem rtt)" for c xs
    by (induction c xs rule: codel_run.induct) (auto simp: x)
  let ?c = "codel_run codel_zero calls"
  obtain dr c' where dr: "codel_drop ?c now soj rem rtt = (dr, c')" by fastforce
  have fa: "co_firstAbove (codel_run codel_zero (calls @ [x])) = co_firstAbove c'" using run dr by simp
  have "codelMinInterval > 0" by (simp add: codelMinInterval_def millisecond_def)
  consider (below) "\<not> above_target x" | (start) "above_target x" "co_firstAbove ?c = zero_time" | (on) "above_target x" "co_firstAbove ?c \<noteq> zero_time"
    by blast
  then show ?case
  proof cases
    case below
    then show ?thesis using codel_drop_firstAbove(1) [OF dr] x fa by simp
  next
    case start
    then have "co_firstAbove c' = now + max codelMinInterval (2 * (rtt + min codelMaxTarget (max codelMinTarget rtt)))"
      using codel_drop_firstAbove(1) [OF dr] x by simp
    then have "standing_since (calls @ [x]) (co_firstAbove c')"
      unfolding standing_since_def using start x by (intro exI [of _ calls] exI [of _ "[x]"]) auto
    then show ?thesis using fa by simp
  next
    case on
    have "standing_since calls (co_firstAbove ?c)" using snoc on by auto
    then obtain ys zs where zs: "calls = ys @ zs" "zs \<noteq> []" "list_all above_target zs" "fst (List.hd zs) + codelMinInterval \<le> co_firstAbove ?c"
      unfolding standing_since_def by blast
    have "co_firstAbove c' = co_firstAbove ?c" using codel_drop_firstAbove(1) [OF dr] on x by simp
    then have "standing_since (calls @ [x]) (co_firstAbove c')"
      unfolding standing_since_def using zs on by (intro exI [of _ ys] exI [of _ "zs @ [x]"]) auto
    then show ?thesis using fa by simp
  qed
qed

text \<open>
  C27: controlled delay drops a packet only for a standing queue. Whenever a packet is dropped, the
  sojourn time was above the target at every call of an unbroken stretch that began at least the
  minimum interval, 100 milliseconds, earlier, and packets were left behind at each; so a burst
  shorter than that costs nothing.
\<close>

theorem codel_drops_standing_queue:
  assumes "list_all (\<lambda>(now, _). 0 \<le> now) calls"
    and "fst (codel_drop (codel_run codel_zero calls) now sojourn remaining rtt)"
  shows "\<exists>ys zs. calls = ys @ zs \<and> zs \<noteq> [] \<and> list_all above_target (zs @ [(now, sojourn, remaining, rtt)]) \<and>
    fst (List.hd zs) + codelMinInterval \<le> now"
proof -
  let ?c = "codel_run codel_zero calls"
  obtain c' where dr: "codel_drop ?c now sojourn remaining rtt = (True, c')" using assms(2) by (metis prod.collapse)
  note drop = codel_drop_firstAbove(2) [OF dr TrueI]
  then obtain ys zs where "calls = ys @ zs" "zs \<noteq> []" "list_all above_target zs" "fst (List.hd zs) + codelMinInterval \<le> co_firstAbove ?c"
    using codel_run_standing [OF assms(1)] unfolding standing_since_def by blast
  then show ?thesis using drop by (intro exI [of _ ys] exI [of _ zs]) auto
qed

theorem codel_drops_standing_queue_witness:
  "fst (codel_drop (codel_run codel_zero [(1000, 5, 3, 0), (2000, 20000000, 3, 0)]) 200000000 30000000 3 0) \<and>
   (\<exists>ys zs. [(1000, 5, 3, 0), (2000, 20000000, 3, 0)] = ys @ zs \<and> zs \<noteq> [] \<and>
      list_all above_target (zs @ [(200000000, 30000000, 3, 0)]) \<and> fst (List.hd zs) + codelMinInterval \<le> 200000000)"
proof -
  have d: "fst (codel_drop (codel_run codel_zero [(1000, 5, 3, 0), (2000, 20000000, 3, 0)]) 200000000 30000000 3 0)"
    by (simp add: codel_drop_def okToDrop_def codel_zero_def codelMinTarget_def codelMaxTarget_def codelMinInterval_def millisecond_def Let_def)
  from codel_drops_standing_queue [OF _ d] d show ?thesis by simp
qed

end
