(* ===== verification/Pmtu.thy ===== *)
theory Pmtu
  imports Liveness
begin

text \<open>
  Path MTU discovery (internal/telemetry/pmtu.go): the binary search over padded probe sizes and
  the state machine that decides when to search. The probe seam, an interface of the source, is an
  argument: a function of a state of its own and a size that returns whether the probe was
  echoed, or an error. Clock readings are arguments.
\<close>

section \<open>Definitions\<close>

definition PMTUFloor :: int where "PMTUFloor = 1280"
definition defaultPMTUConfirmations :: nat where "defaultPMTUConfirmations = 3"
definition pmtuRejections :: nat where "pmtuRejections = 3"
definition pmtuAttemptsPerConfirmation :: nat where "pmtuAttemptsPerConfirmation = 5"

type_synonym ('s, 'e) pmtu_probe = "'s \<Rightarrow> int \<Rightarrow> ('e + bool) \<times> 's"

record pmtu_config =
  mc_ConfiguredMTU :: int
  mc_DefaultMTU :: int
  mc_RefreshInterval :: duration
  mc_JunkHeadroom :: int
  mc_Confirmations :: int
  mc_SafetyMargin :: int

datatype pmtu_state = pmtuUnstarted | pmtuSearching | pmtuConverged

record pmtu_discovery =
  md_floor :: int
  md_ceiling :: int
  md_pinned :: bool
  md_refresh :: duration
  md_junkHeadroom :: int
  md_confirmations :: nat
  md_safetyMargin :: int
  md_state :: pmtu_state
  md_discovered :: int
  md_prevUp :: bool
  md_haveState :: bool
  md_reprobePending :: bool
  md_lastConverged :: instant

definition NewPMTUDiscovery :: "pmtu_config \<Rightarrow> pmtu_discovery" where
  "NewPMTUDiscovery cfg =
     (let pinned = (mc_ConfiguredMTU cfg \<noteq> 0);
          ceiling = (if pinned then mc_ConfiguredMTU cfg else mc_DefaultMTU cfg);
          ceiling = (if ceiling < PMTUFloor then PMTUFloor else ceiling);
          discovered = (if pinned then ceiling else PMTUFloor);
          confirmations = (if mc_Confirmations cfg \<le> 0 then defaultPMTUConfirmations else nat (mc_Confirmations cfg))
      in \<lparr>md_floor = PMTUFloor, md_ceiling = ceiling, md_pinned = pinned, md_refresh = mc_RefreshInterval cfg,
          md_junkHeadroom = mc_JunkHeadroom cfg, md_confirmations = confirmations,
          md_safetyMargin = mc_SafetyMargin cfg, md_state = pmtuUnstarted, md_discovered = discovered,
          md_prevUp = False, md_haveState = False, md_reprobePending = False, md_lastConverged = zero_time\<rparr>)"

definition Pinned :: "pmtu_discovery \<Rightarrow> bool" where
  "Pinned d = md_pinned d"

definition reportedLocked :: "pmtu_discovery \<Rightarrow> int" where
  "reportedLocked d =
     (if md_pinned d \<or> md_safetyMargin d \<le> 0 then md_discovered d
      else
        let reported = md_discovered d - md_safetyMargin d
        in if reported < PMTUFloor then PMTUFloor else reported)"

definition PathMTU :: "pmtu_discovery \<Rightarrow> int" where
  "PathMTU d = reportedLocked d"

definition PathMTUOrZero :: "pmtu_discovery \<Rightarrow> int" where
  "PathMTUOrZero d = (if md_pinned d \<or> md_state d = pmtuConverged then reportedLocked d else 0)"

definition UsablePathMTU :: "pmtu_discovery \<Rightarrow> int" where
  "UsablePathMTU d =
     (let usable = reportedLocked d - md_junkHeadroom d in if usable < 0 then 0 else usable)"

definition NotifyRoam :: "pmtu_discovery \<Rightarrow> pmtu_discovery" where
  "NotifyRoam d = d\<lparr>md_reprobePending := True\<rparr>"

text \<open>The loop of one candidate, with the attempts that are left.\<close>

fun confirm_loop ::
  "('s, 'e) pmtu_probe \<Rightarrow> nat \<Rightarrow> int \<Rightarrow> int \<Rightarrow> nat \<Rightarrow> nat \<Rightarrow> nat \<Rightarrow> 's \<Rightarrow> ('e + bool) \<times> 's" where
  "confirm_loop probe confirmations mid control 0 consecutive rejections s = (Inr False, s)"
| "confirm_loop probe confirmations mid control (Suc n) consecutive rejections s =
     (case probe s mid of
        (Inl e, s) \<Rightarrow> (Inl e, s)
      | (Inr echoed, s) \<Rightarrow>
          if echoed then
            (if consecutive + 1 \<ge> confirmations then (Inr True, s)
             else confirm_loop probe confirmations mid control n (consecutive + 1) rejections s)
          else
            (case probe s control of
               (Inl e, s) \<Rightarrow> (Inl e, s)
             | (Inr controlEchoed, s) \<Rightarrow>
                 if \<not> controlEchoed then confirm_loop probe confirmations mid control n 0 rejections s
                 else if rejections + 1 \<ge> pmtuRejections then (Inr False, s)
                 else confirm_loop probe confirmations mid control n 0 (rejections + 1) s))"

definition confirmCandidate ::
  "('s, 'e) pmtu_probe \<Rightarrow> nat \<Rightarrow> int \<Rightarrow> int \<Rightarrow> 's \<Rightarrow> ('e + bool) \<times> 's" where
  "confirmCandidate probe confirmations mid control s =
     confirm_loop probe confirmations mid control (pmtuAttemptsPerConfirmation * confirmations) 0 0 s"

function search_from ::
  "('s, 'e) pmtu_probe \<Rightarrow> nat \<Rightarrow> int \<Rightarrow> int \<Rightarrow> 's \<Rightarrow> ('e + int) \<times> 's" where
  "search_from probe confirmations lo hi s =
     (if lo < hi then
        let mid = (lo + hi + 1) div 2
        in case confirmCandidate probe confirmations mid lo s of
             (Inl e, s) \<Rightarrow> (Inl e, s)
           | (Inr echoed, s) \<Rightarrow>
               if echoed then search_from probe confirmations mid hi s
               else search_from probe confirmations lo (mid - 1) s
      else (Inr lo, s))"
  by pat_completeness auto
termination by (relation "measure (\<lambda>(_, _, lo, hi, _). nat (hi - lo))") auto

declare search_from.simps [simp del]

definition search :: "('s, 'e) pmtu_probe \<Rightarrow> pmtu_discovery \<Rightarrow> 's \<Rightarrow> ('e + int) \<times> 's" where
  "search probe d s = search_from probe (md_confirmations d) (md_floor d) (md_ceiling d) s"

definition decideLocked :: "pmtu_discovery \<Rightarrow> path_state \<Rightarrow> instant \<Rightarrow> bool \<times> pmtu_discovery" where
  "decideLocked d state now =
     (let up = (state = StateUp);
          d = (if md_haveState d \<and> \<not> md_prevUp d \<and> up then d\<lparr>md_reprobePending := True\<rparr> else d);
          d = d\<lparr>md_prevUp := up, md_haveState := True\<rparr>
      in if md_pinned d then (False, d)
         else
           let d = (if md_state d = pmtuConverged \<and> md_refresh d > 0 \<and> time_sub now (md_lastConverged d) \<ge> md_refresh d
                    then d\<lparr>md_reprobePending := True\<rparr> else d)
           in if \<not> up then (False, d)
              else if md_state d \<noteq> pmtuConverged \<or> md_reprobePending d
              then (True, d\<lparr>md_reprobePending := False, md_state := pmtuSearching\<rparr>)
              else (False, d))"

definition PMTU_Tick ::
  "('s, 'e) pmtu_probe \<Rightarrow> pmtu_discovery \<Rightarrow> path_state \<Rightarrow> instant \<Rightarrow> instant \<Rightarrow> 's \<Rightarrow> 'e option \<times> pmtu_discovery \<times> 's" where
  "PMTU_Tick probe d state now done_at s =
     (let (shouldSearch, d) = decideLocked d state now
      in if \<not> shouldSearch then (None, d, s)
         else case search probe d s of
                (Inl e, s) \<Rightarrow> (Some e, d, s)
              | (Inr pmtu, s) \<Rightarrow>
                  (None, d\<lparr>md_discovered := pmtu, md_state := pmtuConverged, md_lastConverged := done_at\<rparr>, s))"

subsection \<open>Runs\<close>

text \<open>What happens to a path over time: ticks at a liveness verdict and roams.\<close>

datatype pmtu_event = PmtuTick path_state instant instant | Roam

fun pmtu_step :: "('s, 'e) pmtu_probe \<Rightarrow> pmtu_discovery \<times> 's \<Rightarrow> pmtu_event \<Rightarrow> pmtu_discovery \<times> 's" where
  "pmtu_step probe (d, s) (PmtuTick state now done_at) = snd (PMTU_Tick probe d state now done_at s)"
| "pmtu_step probe (d, s) Roam = (NotifyRoam d, s)"

definition pmtu_run :: "('s, 'e) pmtu_probe \<Rightarrow> pmtu_discovery \<times> 's \<Rightarrow> pmtu_event list \<Rightarrow> pmtu_discovery \<times> 's" where
  "pmtu_run probe = foldl (pmtu_step probe)"

section \<open>The contract of a probe seam\<close>

text \<open>
  A seam over a path whose MTU is \<open>mtu\<close>: no larger probe is ever echoed, whatever is lost.
\<close>

locale pmtu_seam =
  fixes probe :: "('s, 'e) pmtu_probe" and mtu :: int
  assumes sound: "probe s n = (Inr True, s') \<Longrightarrow> n \<le> mtu"
begin

lemma confirm_sound:
  "confirm_loop probe c mid control n k r s = (Inr True, s') \<Longrightarrow> mid \<le> mtu"
  by (induction n arbitrary: k r s) (auto split: prod.splits sum.splits if_splits dest: sound)

lemma search_sound:
  "lo \<le> hi \<Longrightarrow> search_from probe c lo hi s = (Inr v, s') \<Longrightarrow> lo \<le> v \<and> v \<le> hi \<and> (v = lo \<or> v \<le> mtu)"
proof (induction "nat (hi - lo)" arbitrary: lo hi s rule: less_induct)
  case less
  show ?case
  proof (cases "lo < hi")
    case True
    let ?mid = "(lo + hi + 1) div 2"
    have mid: "lo < ?mid" "?mid \<le> hi" using True by auto
    obtain res s1 where res: "confirmCandidate probe c ?mid lo s = (res, s1)" by fastforce
    from less.prems(2) True res obtain echoed where echoed: "res = Inr echoed"
      by (cases res) (auto simp: search_from.simps [of probe c lo hi s] Let_def)
    show ?thesis
    proof (cases echoed)
      case True
      then have "search_from probe c ?mid hi s1 = (Inr v, s')"
        using less.prems(2) \<open>lo < hi\<close> res echoed by (simp add: search_from.simps [of probe c lo hi s] Let_def)
      from less.hyps [OF _ mid(2) this] mid have "?mid \<le> v" "v \<le> hi" "v = ?mid \<or> v \<le> mtu" by auto
      moreover have "?mid \<le> mtu" using res echoed True confirm_sound by (auto simp: confirmCandidate_def)
      ultimately show ?thesis using mid by auto
    next
      case False
      then have "search_from probe c lo (?mid - 1) s1 = (Inr v, s')"
        using less.prems(2) \<open>lo < hi\<close> res echoed by (simp add: search_from.simps [of probe c lo hi s] Let_def)
      moreover have "nat (?mid - 1 - lo) < nat (hi - lo)" "lo \<le> ?mid - 1" using mid True by auto
      ultimately show ?thesis using less.hyps [of "?mid - 1" lo s1] mid by auto
    qed
  next
    case False
    then have "search_from probe c lo hi s = (Inr lo, s)" by (subst search_from.simps) simp
    then show ?thesis using less.prems by simp
  qed
qed

text \<open>Every state of the machine stays within its limits and never above the path, unless pinned.\<close>

definition pmtu_inv :: "pmtu_discovery \<Rightarrow> bool" where
  "pmtu_inv d \<longleftrightarrow> md_floor d = PMTUFloor \<and> PMTUFloor \<le> md_ceiling d \<and> PMTUFloor \<le> md_discovered d \<and>
     md_discovered d \<le> md_ceiling d \<and> (\<not> md_pinned d \<longrightarrow> md_discovered d = PMTUFloor \<or> md_discovered d \<le> mtu)"

lemma decide_fields:
  "decideLocked d state now = (b, d') \<Longrightarrow> md_floor d' = md_floor d \<and> md_ceiling d' = md_ceiling d \<and> md_pinned d' = md_pinned d \<and>
   md_discovered d' = md_discovered d \<and> md_confirmations d' = md_confirmations d \<and> md_safetyMargin d' = md_safetyMargin d \<and> (b \<longrightarrow> \<not> md_pinned d)"
  by (auto simp: decideLocked_def Let_def split: if_splits)

lemma tick_inv:
  assumes inv: "pmtu_inv d" and tick: "PMTU_Tick probe d state now t s = (e, d', s')"
  shows "pmtu_inv d' \<and> md_ceiling d' = md_ceiling d \<and> md_pinned d' = md_pinned d"
proof -
  obtain b d1 where d1: "decideLocked d state now = (b, d1)" by fastforce
  note f = decide_fields [OF d1]
  then have inv1: "pmtu_inv d1" using inv by (simp add: pmtu_inv_def)
  show ?thesis
  proof (cases b)
    case False
    then show ?thesis using tick d1 inv1 f by (simp add: PMTU_Tick_def)
  next
    case True
    obtain res s1 where res: "search probe d1 s = (res, s1)" by fastforce
    show ?thesis
    proof (cases res)
      case (Inl x)
      then show ?thesis using tick d1 inv1 f True res by (simp add: PMTU_Tick_def)
    next
      case (Inr v)
      have "md_floor d1 \<le> md_ceiling d1" using inv1 by (simp add: pmtu_inv_def)
      from search_sound [OF this] res Inr have "md_floor d1 \<le> v \<and> v \<le> md_ceiling d1 \<and> (v = md_floor d1 \<or> v \<le> mtu)"
        by (simp add: search_def)
      then show ?thesis using tick d1 inv1 f True res Inr by (auto simp: PMTU_Tick_def pmtu_inv_def)
    qed
  qed
qed

lemma run_inv:
  "pmtu_inv d \<Longrightarrow> pmtu_run probe (d, s) evs = (d', s') \<Longrightarrow> pmtu_inv d' \<and> md_ceiling d' = md_ceiling d \<and> md_pinned d' = md_pinned d"
proof (induction evs arbitrary: d s)
  case (Cons ev evs)
  show ?case
  proof (cases ev)
    case (PmtuTick st now t)
    obtain e d1 s1 where "PMTU_Tick probe d st now t s = (e, d1, s1)" by (metis prod_cases3)
    then show ?thesis using tick_inv [OF Cons.prems(1)] Cons.IH [of d1 s1] Cons.prems(2) PmtuTick by (fastforce simp: pmtu_run_def)
  next
    case Roam
    have "pmtu_inv (NotifyRoam d)" using Cons.prems(1) by (simp add: pmtu_inv_def NotifyRoam_def)
    then show ?thesis using Cons.IH [of "NotifyRoam d" s] Cons.prems(2) Roam by (simp add: pmtu_run_def NotifyRoam_def)
  qed
qed (simp add: pmtu_run_def)

lemma new_inv: "pmtu_inv (NewPMTUDiscovery cfg)"
  by (auto simp: pmtu_inv_def NewPMTUDiscovery_def Let_def)

end

text \<open>
  A seam over a path that loses nothing: every size up to \<open>limit\<close> is answered according to the
  MTU. \<open>fuel k s\<close> says that \<open>k\<close> more probes can be sent from \<open>s\<close>.
\<close>

locale pmtu_lossless = pmtu_seam probe mtu
  for probe :: "('s, 'e) pmtu_probe" and mtu :: int +
  fixes limit :: int and fuel :: "nat \<Rightarrow> 's \<Rightarrow> bool"
  assumes answers: "fuel (Suc k) s \<Longrightarrow> PMTUFloor \<le> n \<Longrightarrow> n \<le> limit \<Longrightarrow> \<exists>s'. probe s n = (Inr (n \<le> mtu), s') \<and> fuel k s'"
    and fuel_mono: "fuel k s \<Longrightarrow> j \<le> k \<Longrightarrow> fuel j s"
begin

lemma confirm_exact:
  assumes "PMTUFloor \<le> mid" "mid \<le> limit" "PMTUFloor \<le> control" "control \<le> limit" "fuel (2 * n + j) s"
    and "mid \<le> mtu \<longrightarrow> c \<le> k + n \<and> 0 < n"
  shows "\<exists>s'. confirm_loop probe c mid control n k r s = (Inr (mid \<le> mtu), s') \<and> fuel j s'"
  using assms(5,6)
proof (induction n arbitrary: k r s)
  case (Suc n)
  have "fuel (Suc (Suc (2 * n + j))) s" using Suc.prems(1) by simp
  then obtain s1 where s1: "probe s mid = (Inr (mid \<le> mtu), s1)" "fuel (Suc (2 * n + j)) s1" using answers assms(1,2) by blast
  show ?case
  proof (cases "mid \<le> mtu")
    case True
    show ?thesis
    proof (cases "c \<le> k + 1")
      case enough: True
      then show ?thesis using s1 True fuel_mono [OF s1(2), of j] by simp
    next
      case False
      have "fuel (2 * n + j) s1" using fuel_mono [OF s1(2)] by simp
      moreover have "c \<le> (k + 1) + n \<and> 0 < n" using Suc.prems(2) True False by auto
      ultimately show ?thesis using Suc.IH [of s1 "k + 1" r] s1(1) True False by simp
    qed
  next
    case False
    obtain s2 where s2: "probe s1 control = (Inr (control \<le> mtu), s2)" "fuel (2 * n + j) s2" using answers [OF s1(2)] assms(3,4) by blast
    show ?thesis
      using s1(1) s2 False Suc.IH [OF s2(2), of 0] fuel_mono [OF s2(2), of j] by auto
  qed
qed (use assms(6) in \<open>auto intro: fuel_mono\<close>)

lemma search_exact:
  assumes "PMTUFloor \<le> lo" "lo \<le> hi" "hi \<le> limit" "0 < c" "fuel (10 * c * nat (hi - lo)) s"
  shows "\<exists>s'. search_from probe c lo hi s = (Inr (max lo (min hi mtu)), s')"
  using assms(1-3,5)
proof (induction "nat (hi - lo)" arbitrary: lo hi s rule: less_induct)
  case less
  show ?case
  proof (cases "lo < hi")
    case True
    let ?mid = "(lo + hi + 1) div 2" and ?n = "pmtuAttemptsPerConfirmation * c"
    have mid: "lo < ?mid" "?mid \<le> hi" using True by auto
    have "nat (hi - lo) = Suc (nat (hi - lo) - 1)" using True by simp
    then have "10 * c * nat (hi - lo) = 10 * c + 10 * c * (nat (hi - lo) - 1)" by (metis mult_Suc_right)
    then have f: "fuel (2 * ?n + 10 * c * (nat (hi - lo) - 1)) s" using less.prems(4) by (simp add: pmtuAttemptsPerConfirmation_def)
    have "\<exists>s'. confirm_loop probe c ?mid lo ?n 0 0 s = (Inr (?mid \<le> mtu), s') \<and> fuel (10 * c * (nat (hi - lo) - 1)) s'"
      by (rule confirm_exact [OF _ _ _ _ f])
        (use less.prems mid \<open>0 < c\<close> in \<open>simp_all add: pmtuAttemptsPerConfirmation_def\<close>)
    then obtain s1 where s1: "confirmCandidate probe c ?mid lo s = (Inr (?mid \<le> mtu), s1)" "fuel (10 * c * (nat (hi - lo) - 1)) s1"
      by (auto simp: confirmCandidate_def)
    have step: "search_from probe c lo hi s =
        (if ?mid \<le> mtu then search_from probe c ?mid hi s1 else search_from probe c lo (?mid - 1) s1)"
      using True s1(1) by (subst search_from.simps) (simp add: Let_def)
    show ?thesis
    proof (cases "?mid \<le> mtu")
      case True
      have "fuel (10 * c * nat (hi - ?mid)) s1" by (rule fuel_mono [OF s1(2)]) (use mid in auto)
      then have "\<exists>s'. search_from probe c ?mid hi s1 = (Inr (max ?mid (min hi mtu)), s')"
        using less.hyps [of hi ?mid s1] less.prems mid by auto
      moreover have "max ?mid (min hi mtu) = max lo (min hi mtu)" using True mid by auto
      ultimately show ?thesis using step True by simp
    next
      case False
      have "fuel (10 * c * nat (?mid - 1 - lo)) s1" by (rule fuel_mono [OF s1(2)]) (use mid in auto)
      moreover have "nat (?mid - 1 - lo) < nat (hi - lo)" "lo \<le> ?mid - 1" "?mid - 1 \<le> limit" using mid less.prems by auto
      ultimately have "\<exists>s'. search_from probe c lo (?mid - 1) s1 = (Inr (max lo (min (?mid - 1) mtu)), s')"
        using less.hyps [of "?mid - 1" lo s1] less.prems by auto
      moreover have "max lo (min (?mid - 1) mtu) = max lo (min hi mtu)" using False mid by auto
      ultimately show ?thesis using step False by simp
    qed
  next
    case False
    then have "search_from probe c lo hi s = (Inr lo, s)" by (subst search_from.simps) simp
    then show ?thesis using less.prems False by (auto simp: max_def)
  qed
qed

end

section \<open>Never above the path\<close>

text \<open>
  C17: a discovered path MTU is safe. Over any seam that never echoes a probe larger than the path
  carries, however many smaller ones it loses, and after any sequence of ticks and roams, an
  unpinned path reports at least the floor and at most what the path carries, or the floor itself;
  the usable size is no larger.
\<close>

theorem pmtu_within_path:
  assumes "\<And>s n s'. probe s n = (Inr True, s') \<Longrightarrow> n \<le> mtu" and "mc_ConfiguredMTU cfg = 0" and "0 \<le> mc_JunkHeadroom cfg"
    and "pmtu_run probe (NewPMTUDiscovery cfg, s) evs = (d, s')"
  shows "PMTUFloor \<le> PathMTU d \<and> PathMTU d \<le> max PMTUFloor mtu \<and> UsablePathMTU d \<le> PathMTU d"
proof -
  have seam: "pmtu_seam probe mtu" using assms(1) by (rule pmtu_seam.intro)
  have "\<not> md_pinned (NewPMTUDiscovery cfg)" using assms(2) by (simp add: NewPMTUDiscovery_def Let_def)
  with pmtu_seam.run_inv [OF seam pmtu_seam.new_inv [OF seam] assms(4)]
  have "PMTUFloor \<le> md_discovered d" "md_discovered d = PMTUFloor \<or> md_discovered d \<le> mtu"
    by (auto simp: pmtu_seam.pmtu_inv_def [OF seam])
  moreover have "md_junkHeadroom d = mc_JunkHeadroom cfg"
  proof -
    have step: "md_junkHeadroom (fst (pmtu_step probe ds ev)) = md_junkHeadroom (fst ds)" for ds ev
      by (cases ds; cases ev)
        (auto simp: PMTU_Tick_def decideLocked_def NotifyRoam_def Let_def split: if_splits prod.splits sum.splits)
    have "md_junkHeadroom (fst (pmtu_run probe ds evs)) = md_junkHeadroom (fst ds)" for ds
      by (induction evs arbitrary: ds) (simp_all add: pmtu_run_def step)
    from this [of "(NewPMTUDiscovery cfg, s)"] show ?thesis using assms(4) by (simp add: NewPMTUDiscovery_def Let_def)
  qed
  ultimately show ?thesis
    using assms(3) by (auto simp: PathMTU_def UsablePathMTU_def reportedLocked_def Let_def PMTUFloor_def)
qed

text \<open>A path of 1400 bytes that loses every third probe.\<close>

definition lossy_probe :: "(nat, unit) pmtu_probe" where
  "lossy_probe s n = (Inr (n \<le> 1400 \<and> s mod 3 \<noteq> 0), Suc s)"

definition sample_pmtu_config :: pmtu_config where
  "sample_pmtu_config = \<lparr>mc_ConfiguredMTU = 0, mc_DefaultMTU = 1500, mc_RefreshInterval = 0, mc_JunkHeadroom = 40,
     mc_Confirmations = 2, mc_SafetyMargin = 0\<rparr>"

theorem pmtu_within_path_witness:
  "\<exists>d s'. pmtu_run lossy_probe (NewPMTUDiscovery sample_pmtu_config, 0) [PmtuTick StateUp 5 6, Roam, PmtuTick StateUp 7 8] = (d, s') \<and>
    PMTUFloor \<le> PathMTU d \<and> PathMTU d \<le> max PMTUFloor 1400 \<and> UsablePathMTU d \<le> PathMTU d"
proof -
  obtain d s' where run: "pmtu_run lossy_probe (NewPMTUDiscovery sample_pmtu_config, 0) [PmtuTick StateUp 5 6, Roam, PmtuTick StateUp 7 8] = (d, s')"
    by fastforce
  have "PMTUFloor \<le> PathMTU d \<and> PathMTU d \<le> max PMTUFloor 1400 \<and> UsablePathMTU d \<le> PathMTU d"
    by (rule pmtu_within_path [OF _ _ _ run]) (auto simp: lossy_probe_def sample_pmtu_config_def)
  with run show ?thesis by blast
qed

end
