(* ===== verification/Pmtu_Probe.thy ===== *)
theory Pmtu_Probe
  imports Probe Pmtu Wire
begin

text \<open>
  The probe seam of production (internal/telemetry/pmtuprobe.go), which sends padded probes of a
  Prober and waits for their echoes, and the MTU accounting of the bonded datapath
  (internal/bind/mtu.go). The waiter's channel has a capacity, a number of buffered tokens and a mark
  for a receiver parked on it, so a notification that finds neither room nor receiver is lost.
  Other goroutines run during the socket write, before the wait and while it lasts: what they do is
  an argument of each. The injected dispatch runs its argument synchronously, so it is application.
\<close>

section \<open>Definitions\<close>

definition DefaultPMTUProbeDeadline :: duration where "DefaultPMTUProbeDeadline = 1 * second"

datatype send_result = SendOk | ErrProbeTooLarge | SendFailed

datatype pmtu_error = PadError frame_error | SendFailure | Endless

text \<open>
  A channel of empty structs. A non-blocking send buffers a token while there is room, hands it to a
  receiver that is parked on the channel, and otherwise does nothing.
\<close>

record channel =
  ch_cap :: nat
  ch_len :: nat
  ch_parked :: bool

definition make_chan :: "nat \<Rightarrow> channel" where
  "make_chan n = \<lparr>ch_cap = n, ch_len = 0, ch_parked = False\<rparr>"

definition try_send :: "channel \<Rightarrow> channel" where
  "try_send ch = (if ch_len ch < ch_cap ch \<or> ch_parked ch \<and> ch_len ch = 0 then ch\<lparr>ch_len := ch_len ch + 1\<rparr> else ch)"

record echo_await =
  ea_prober :: prober
  ea_outerIPUDPOverhead :: int
  ea_deadline :: duration
  ea_pending :: "u64 \<rightharpoonup> channel"

definition NewCadencedEchoAwaitProbe :: "prober \<Rightarrow> int \<Rightarrow> duration \<Rightarrow> echo_await option" where
  "NewCadencedEchoAwaitProbe p outerIPUDPOverhead deadline =
     (if outerIPUDPOverhead \<le> 0 then None
      else
        let deadline = (if deadline \<le> 0 then DefaultPMTUProbeDeadline else deadline)
        in Some \<lparr>ea_prober = p, ea_outerIPUDPOverhead = outerIPUDPOverhead, ea_deadline = deadline, ea_pending = (\<lambda>_. None)\<rparr>)"

definition NewEchoAwaitProbe :: "prober \<Rightarrow> int \<Rightarrow> duration \<Rightarrow> echo_await option" where
  "NewEchoAwaitProbe p outerIPUDPOverhead deadline = NewCadencedEchoAwaitProbe p outerIPUDPOverhead deadline"

definition ea_register :: "echo_await \<Rightarrow> u64 \<Rightarrow> echo_await" where
  "ea_register e seq = e\<lparr>ea_pending := (ea_pending e)(seq \<mapsto> make_chan 1)\<rparr>"

definition ea_unregister :: "echo_await \<Rightarrow> u64 \<Rightarrow> echo_await" where
  "ea_unregister e seq = e\<lparr>ea_pending := (ea_pending e)(seq := None)\<rparr>"

definition NotifyEcho :: "echo_await \<Rightarrow> u64 \<Rightarrow> echo_await" where
  "NotifyEcho e seq =
     (case ea_pending e seq of None \<Rightarrow> e | Some ch \<Rightarrow> e\<lparr>ea_pending := (ea_pending e)(seq \<mapsto> try_send ch)\<rparr>)"

text \<open>After the write: a verdict, or the probe sent and the sequence whose echo is awaited.\<close>

datatype started = Verdict "pmtu_error + bool" | Awaiting bytes u64

definition ProbePMTU_start ::
  "crypto \<Rightarrow> (bytes \<Rightarrow> echo_await \<Rightarrow> send_result \<times> echo_await) \<Rightarrow> echo_await \<Rightarrow> int \<Rightarrow> instant \<Rightarrow> bytes option \<Rightarrow> (started \<times> echo_await) option" where
  "ProbePMTU_start X send e pathMTU now rnd =
     (let wireSize = pathMTU - ea_outerIPUDPOverhead e
      in case SendPaddedProbe X (ea_prober e) wireSize now rnd of
           (Inl err, p) \<Rightarrow> Some (Verdict (Inl (PadError err)), e\<lparr>ea_prober := p\<rparr>)
         | (Inr (raw, seq), p) \<Rightarrow>
             let e = ea_register (e\<lparr>ea_prober := p\<rparr>) seq
             in case send raw e of
                  (SendOk, e) \<Rightarrow> Some (Awaiting raw seq, e)
                | (ErrProbeTooLarge, e) \<Rightarrow> do {
                    let e = ea_unregister e seq;
                    p \<leftarrow> ExcludePaddedProbeLoss (ea_prober e) seq;
                    Some (Verdict (Inr False), e\<lparr>ea_prober := p\<rparr>)
                  }
                | (SendFailed, e) \<Rightarrow> Some (Verdict (Inl SendFailure), ea_unregister e seq))"

text \<open>The select: it parks on the channel, and its echo case is enabled when the channel holds a token.\<close>

datatype wake = WakeEcho | WakeDeadline

definition ea_park :: "echo_await \<Rightarrow> u64 \<Rightarrow> echo_await" where
  "ea_park e seq = e\<lparr>ea_pending := (ea_pending e)(seq := map_option (\<lambda>ch. ch\<lparr>ch_parked := True\<rparr>) (ea_pending e seq))\<rparr>"

definition ProbePMTU_finish :: "echo_await \<Rightarrow> u64 \<Rightarrow> wake \<Rightarrow> (bool \<times> echo_await) option" where
  "ProbePMTU_finish e seq w =
     (case w of
        WakeEcho \<Rightarrow> (case ea_pending e seq of
            Some ch \<Rightarrow> if 0 < ch_len ch then Some (True, ea_unregister e seq) else None
          | None \<Rightarrow> None)
      | WakeDeadline \<Rightarrow> do {
          p \<leftarrow> ExcludePaddedProbeLoss (ea_prober e) seq;
          Some (False, ea_unregister (e\<lparr>ea_prober := p\<rparr>) seq)
        })"

text \<open>
  The whole probe; \<open>before\<close> and \<open>env\<close> are what the other goroutines do between the write and the wait
  and during the wait.
\<close>

definition ProbePMTU ::
  "crypto \<Rightarrow> (bytes \<Rightarrow> echo_await \<Rightarrow> send_result \<times> echo_await) \<Rightarrow> (echo_await \<Rightarrow> echo_await) \<Rightarrow>
   (bytes \<Rightarrow> u64 \<Rightarrow> echo_await \<Rightarrow> wake \<times> echo_await) \<Rightarrow> echo_await \<Rightarrow> int \<Rightarrow> instant \<Rightarrow> bytes option \<Rightarrow> ((pmtu_error + bool) \<times> echo_await) option" where
  "ProbePMTU X send before env e pathMTU now rnd = do {
     (st, e) \<leftarrow> ProbePMTU_start X send e pathMTU now rnd;
     (case st of
        Verdict v \<Rightarrow> Some (v, e)
      | Awaiting raw seq \<Rightarrow> do {
          let (w, e) = env raw seq (ea_park (before e) seq);
          (echoed, e) \<leftarrow> ProbePMTU_finish e seq w;
          Some (Inr echoed, e)
        })
   }"

subsection \<open>MTU accounting\<close>

definition DefaultPathMTU :: int where "DefaultPathMTU = 1500"
definition IPv4UDPOverhead :: int where "IPv4UDPOverhead = 20 + 8"
definition IPv6UDPOverhead :: int where "IPv6UDPOverhead = 40 + 8"
definition WGTransportOverhead :: int where "WGTransportOverhead = 16 + 16"

definition InnerMTU :: "int \<Rightarrow> int" where
  "InnerMTU pathMTU = pathMTU - IPv4UDPOverhead - int Overhead - WGTransportOverhead"

definition InnerMTU6 :: "int \<Rightarrow> int" where
  "InnerMTU6 pathMTU = pathMTU - IPv6UDPOverhead - int Overhead - WGTransportOverhead"

subsection \<open>A path without loss\<close>

text \<open>
  A path of outer MTU \<open>mtu\<close> behind an interface of MTU \<open>link\<close>: the kernel refuses what exceeds the
  interface, the network drops what exceeds the path, and everything else is echoed in time.
\<close>

definition path_send :: "int \<Rightarrow> bytes \<Rightarrow> echo_await \<Rightarrow> send_result \<times> echo_await" where
  "path_send link raw e = (if int (length raw) + ea_outerIPUDPOverhead e > link then ErrProbeTooLarge else SendOk, e)"

definition path_env :: "int \<Rightarrow> bytes \<Rightarrow> u64 \<Rightarrow> echo_await \<Rightarrow> wake \<times> echo_await" where
  "path_env mtu raw seq e =
     (if int (length raw) + ea_outerIPUDPOverhead e \<le> mtu then (WakeEcho, NotifyEcho e seq) else (WakeDeadline, e))"

text \<open>The nonce and the clock reading of a probe are any functions of its sequence.\<close>

definition path_probe :: "crypto \<Rightarrow> (u64 \<Rightarrow> bytes) \<Rightarrow> int \<Rightarrow> int \<Rightarrow> (u64 \<Rightarrow> instant) \<Rightarrow> (echo_await, pmtu_error) pmtu_probe" where
  "path_probe X nonce link mtu now e n =
     (case ProbePMTU X (path_send link) id (path_env mtu) e n (now (pb_nextSeq (ea_prober e))) (Some (nonce (pb_nextSeq (ea_prober e)))) of
        None \<Rightarrow> (Inl Endless, e)
      | Some (v, e) \<Rightarrow> (v, e))"

definition path_fuel :: "key \<Rightarrow> nat \<Rightarrow> echo_await \<Rightarrow> bool" where
  "path_fuel psk k e \<longleftrightarrow> pb_psk (ea_prober e) = psk \<and> 0 < ea_outerIPUDPOverhead e \<and> ea_outerIPUDPOverhead e \<le> 1200 \<and>
     (\<exists>os. lw_tracks os (em_loss (pb_est (ea_prober e)))) \<and> unat (pb_nextSeq (ea_prober e)) + k < 2 ^ 64"

section \<open>The seam honours its contract\<close>

lemma SendPaddedProbe_length:
  assumes "crypto_laws X" and "length nonce = nonceLen" and "SendPaddedProbe X p w t (Some nonce) = (Inr (raw, seq), p')"
  shows "int (length raw) = w" and "seq = pb_nextSeq p" and "p' = p\<lparr>pb_nextSeq := pb_nextSeq p + 1\<rparr>"
proof -
  from assms(3) obtain pad where pad: "PadLenForOnWire w = Inr pad" by (auto simp: SendPaddedProbe_def split: sum.splits)
  let ?pr = "fst (buildProbeLocked p t)"
  have pl: "pr_Payload ?pr = []" by (simp add: buildProbeLocked_def)
  have enc: "Encode X (pb_psk p) (ProbeFrame (?pr\<lparr>pr_Padded := True, pr_PadLen := pad\<rparr>)) (Some nonce) = Inr raw"
    and rest: "seq = pb_nextSeq p" "p' = p\<lparr>pb_nextSeq := pb_nextSeq p + 1\<rparr>"
    using assms(3) pad by (auto simp: SendPaddedProbe_def buildProbeLocked_def Let_def split: sum.splits)
  show "seq = pb_nextSeq p" "p' = p\<lparr>pb_nextSeq := pb_nextSeq p + 1\<rparr>" by (fact rest)+
  from enc obtain c where c: "NewCodec X (pb_psk p) = Inr c" by (auto simp: Encode_def split: sum.splits)
  from padded_Encode_size [OF assms(1) NewCodec_ok [OF assms(1) c] assms(2) pad pl] enc c
  show "int (length raw) = w" by (auto simp: Encode_def)
qed

lemma SendPaddedProbe_sends:
  assumes "crypto_laws X" and "NewCodec X (pb_psk p) = Inr cd" and "length nonce = nonceLen"
    and "int ProbeBaseOnWire \<le> w" and "w \<le> int MaxPaddedProbeOnWire"
  obtains raw where "SendPaddedProbe X p w t (Some nonce) = (Inr (raw, pb_nextSeq p), p\<lparr>pb_nextSeq := pb_nextSeq p + 1\<rparr>)"
    and "int (length raw) = w"
proof -
  obtain pad where pad: "PadLenForOnWire w = Inr pad" using assms(4,5) by (simp add: PadLenForOnWire_def)
  let ?pr = "fst (buildProbeLocked p t)"
  have pl: "pr_Payload ?pr = []" by (simp add: buildProbeLocked_def)
  obtain raw where "Encode X (pb_psk p) (ProbeFrame (?pr\<lparr>pr_Padded := True, pr_PadLen := pad\<rparr>)) (Some nonce) = Inr raw"
    "int (length raw) = w"
    using padded_Encode_size [OF assms(1) NewCodec_ok [OF assms(1,2)] assms(3) pad pl] assms(2) by (auto simp: Encode_def)
  then show thesis using pad by (intro that [of raw]) (auto simp: SendPaddedProbe_def buildProbeLocked_def Let_def)
qed

lemma path_sound:
  assumes "crypto_laws X" and "\<And>s. length (nonce s) = nonceLen" and "path_probe X nonce link mtu now e n = (Inr True, e')"
  shows "n \<le> mtu"
proof -
  let ?w = "n - ea_outerIPUDPOverhead e" and ?s = "pb_nextSeq (ea_prober e)"
  obtain res p where send: "SendPaddedProbe X (ea_prober e) ?w (now ?s) (Some (nonce ?s)) = (res, p)" by fastforce
  show ?thesis
  proof (cases res)
    case (Inl err)
    then show ?thesis using assms(3) send by (simp add: path_probe_def ProbePMTU_def ProbePMTU_start_def)
  next
    case (Inr rs)
    obtain raw seq where rs: "rs = (raw, seq)" by (cases rs)
    have len: "int (length raw) = ?w" using SendPaddedProbe_length(1) [OF assms(1,2)] send Inr rs by simp
    show ?thesis
      using assms(3) send Inr rs len
      by (auto simp: path_probe_def ProbePMTU_def ProbePMTU_start_def ProbePMTU_finish_def path_send_def path_env_def
          ea_register_def ea_unregister_def ea_park_def bind_eq_None_conv bind_eq_Some_conv split: option.splits if_splits)
  qed
qed

lemma Exclude_tracks:
  assumes "lw_tracks os (em_loss (pb_est p))" and "seq \<noteq> - 1"
  obtains w where "ExcludePaddedProbeLoss p seq = Some (p\<lparr>pb_est := (pb_est p)\<lparr>em_loss := w\<rparr>\<rparr>)" and "lw_tracks (os @ [seq]) w"
proof -
  obtain w where "lw_observe (em_loss (pb_est p)) seq = Some w" "lw_tracks (os @ [seq]) w"
    using observe_all_tracks [OF assms(1), of "[seq]"] assms(2) by (auto simp: bind_eq_Some_conv)
  then show thesis by (intro that) (simp_all add: ExcludePaddedProbeLoss_def ObserveProbeEcho_def)
qed

lemma fuel_seq:
  fixes s :: u64
  assumes "unat s + Suc k < 2 ^ 64"
  shows "s \<noteq> - 1" and "unat (s + 1) = Suc (unat s)"
proof -
  show ne: "s \<noteq> - 1" using assms by (auto simp: unsigned_minus_1_eq_mask mask_eq_exp_minus_1)
  then have "s < - 1" by (simp add: word_order.not_eq_extremum)
  then show "unat (s + 1) = Suc (unat s)" using unat_plus_one_nowrap [of s "- 1"] by simp
qed

lemma path_answers:
  assumes laws: "crypto_laws X" "NewCodec X psk = Inr cd" "\<And>s. length (nonce s) = nonceLen" and "mtu \<le> link"
    and fuel: "path_fuel psk (Suc k) e" and n: "PMTUFloor \<le> n" "n \<le> 9000"
  shows "\<exists>e'. path_probe X nonce link mtu now e n = (Inr (n \<le> mtu), e') \<and> path_fuel psk k e'"
proof -
  let ?p = "ea_prober e" and ?ov = "ea_outerIPUDPOverhead e"
  let ?seq = "pb_nextSeq ?p" and ?q = "?p\<lparr>pb_nextSeq := pb_nextSeq ?p + 1\<rparr>"
  have f: "pb_psk ?p = psk" "0 < ?ov" "?ov \<le> 1200" "unat ?seq + Suc k < 2 ^ 64" using fuel by (auto simp: path_fuel_def)
  obtain os where os: "lw_tracks os (em_loss (pb_est ?p))" using fuel by (auto simp: path_fuel_def)
  have "int ProbeBaseOnWire \<le> n - ?ov" "n - ?ov \<le> int MaxPaddedProbeOnWire" using n f by (simp_all add: frame_size_defs PMTUFloor_def)
  then obtain raw where raw: "SendPaddedProbe X ?p (n - ?ov) (now ?seq) (Some (nonce ?seq)) = (Inr (raw, ?seq), ?q)" "int (length raw) = n - ?ov"
    using SendPaddedProbe_sends [of X ?p cd "nonce ?seq" "n - ?ov" "now ?seq"] laws f(1) by metis
  note seq = fuel_seq [OF f(4)]
  have "lw_tracks os (em_loss (pb_est ?q))" using os by simp
  then obtain w where w: "ExcludePaddedProbeLoss ?q ?seq = Some (?q\<lparr>pb_est := (pb_est ?p)\<lparr>em_loss := w\<rparr>\<rparr>)" "lw_tracks (os @ [?seq]) w"
    using Exclude_tracks [of os ?q ?seq] seq(1) by auto
  have fuel': "path_fuel psk k (e\<lparr>ea_prober := ?q, ea_pending := m\<rparr>)"
    "path_fuel psk k (e\<lparr>ea_prober := ?q\<lparr>pb_est := (pb_est ?p)\<lparr>em_loss := w\<rparr>\<rparr>, ea_pending := m\<rparr>)" for m
    using f seq(2) os w(2) by (auto simp: path_fuel_def)
  let ?clear = "(ea_pending e)(?seq := None)"
  consider (big) "link < n" | (over) "n \<le> link" "mtu < n" | (fits) "n \<le> mtu" by linarith
  then show ?thesis
  proof cases
    case big
    then have "path_probe X nonce link mtu now e n = (Inr (n \<le> mtu), e\<lparr>ea_prober := ?q\<lparr>pb_est := (pb_est ?p)\<lparr>em_loss := w\<rparr>\<rparr>, ea_pending := ?clear\<rparr>)"
      using raw w(1) \<open>mtu \<le> link\<close>
      by (simp add: path_probe_def ProbePMTU_def ProbePMTU_start_def path_send_def ea_register_def ea_unregister_def Let_def)
    then show ?thesis using fuel'(2) by blast
  next
    case over
    then have "path_probe X nonce link mtu now e n = (Inr (n \<le> mtu), e\<lparr>ea_prober := ?q\<lparr>pb_est := (pb_est ?p)\<lparr>em_loss := w\<rparr>\<rparr>, ea_pending := ?clear\<rparr>)"
      using raw w(1)
      by (simp add: path_probe_def ProbePMTU_def ProbePMTU_start_def ProbePMTU_finish_def path_send_def path_env_def
          ea_register_def ea_unregister_def ea_park_def Let_def)
    then show ?thesis using fuel'(2) by blast
  next
    case fits
    then have "path_probe X nonce link mtu now e n = (Inr (n \<le> mtu), e\<lparr>ea_prober := ?q, ea_pending := ?clear\<rparr>)"
      using raw \<open>mtu \<le> link\<close>
      by (simp add: path_probe_def ProbePMTU_def ProbePMTU_start_def ProbePMTU_finish_def path_send_def path_env_def
          NotifyEcho_def ea_register_def ea_unregister_def ea_park_def make_chan_def try_send_def Let_def)
    then show ?thesis using fuel'(1) by blast
  qed
qed

locale clean_path =
  fixes X :: crypto and psk :: key and cd :: codec and nonce :: "u64 \<Rightarrow> bytes" and link :: int and mtu :: int and now :: "u64 \<Rightarrow> instant"
  assumes laws: "crypto_laws X" and keys: "NewCodec X psk = Inr cd" and nonce: "length (nonce s) = nonceLen" and link: "mtu \<le> link"

sublocale clean_path \<subseteq> pmtu_lossless "path_probe X nonce link mtu now" mtu 9000 "path_fuel psk"
proof unfold_locales
  show "n \<le> mtu" if "path_probe X nonce link mtu now s n = (Inr True, s')" for s n s'
    using path_sound [OF laws nonce that] .
  show "\<exists>s'. path_probe X nonce link mtu now s n = (Inr (n \<le> mtu), s') \<and> path_fuel psk k s'"
    if "path_fuel psk (Suc k) s" "PMTUFloor \<le> n" "n \<le> 9000" for k s n
    using path_answers [OF laws keys nonce link that] .
  show "path_fuel psk j s" if "path_fuel psk k s" "j \<le> k" for k s j
    using that by (auto simp: path_fuel_def)
qed

context clean_path
begin

lemma path_search:
  assumes "0 < c" and "PMTUFloor \<le> ceil" and "ceil \<le> 9000" and "path_fuel psk (10 * c * nat (ceil - PMTUFloor)) e"
  shows "\<exists>e'. search_from (path_probe X nonce link mtu now) c PMTUFloor ceil e = (Inr (max PMTUFloor (min ceil mtu)), e')"
  using search_exact [of PMTUFloor ceil c e] assms by simp

end

section \<open>Properties\<close>

lemma fresh_fuel:
  assumes "NewEchoAwaitProbe (NewProber name pid sid psk pcfg) overhead deadline = Some e" and "overhead \<le> 1200"
    and "0 < pc_LossWindow pcfg" and "pc_LossWindow pcfg < 2 ^ 63" and "k < 2 ^ 64"
  shows "path_fuel psk k e"
proof -
  have "nat (pc_LossWindow pcfg) < 2 ^ 63" using assms(3,4) by (simp add: nat_less_iff)
  then have "lw_tracks [] (newLossWindow (pc_LossWindow pcfg))"
    using assms(3) by (simp add: lw_tracks_def lw_ok_def newLossWindow_def Let_def)
  then show ?thesis
    using assms by (auto simp: NewEchoAwaitProbe_def NewCadencedEchoAwaitProbe_def NewProber_def NewEstimator_def
        path_fuel_def Let_def split: if_splits)
qed

text \<open>
  C13: discovery converges to the path MTU. Over a path that loses nothing, with the probes the
  prober really encodes and the echoes the waiter is notified of, the first tick of an unpinned
  path that is up ends without an error, converged, at the largest size up to the configured
  ceiling that the path carries, and never below the floor.
\<close>

theorem pmtu_converges:
  assumes "crypto_laws X" and "NewCodec X psk = Inr cd" and "\<And>s. length (nonce s) = nonceLen" and "mtu \<le> link"
    and "NewEchoAwaitProbe (NewProber name pid sid psk pcfg) overhead deadline = Some e" and "overhead \<le> 1200"
    and "0 < pc_LossWindow pcfg" and "pc_LossWindow pcfg < 2 ^ 63"
    and "mc_ConfiguredMTU cfg = 0" and "mc_DefaultMTU cfg \<le> 9000" and "mc_Confirmations cfg \<le> 1000"
  shows "\<exists>d e'. PMTU_Tick (path_probe X nonce link mtu now) (NewPMTUDiscovery cfg) StateUp t t' e = (None, d, e') \<and>
    md_state d = pmtuConverged \<and> md_discovered d = max PMTUFloor (min (mc_DefaultMTU cfg) mtu)"
proof -
  have path: "clean_path X psk cd nonce link mtu" using assms(1-4) by (rule clean_path.intro)
  define d where "d = snd (decideLocked (NewPMTUDiscovery cfg) StateUp t)"
  have dec: "decideLocked (NewPMTUDiscovery cfg) StateUp t = (True, d)" and c: "0 < md_confirmations d" "md_confirmations d \<le> 1000"
    and lim: "md_floor d = PMTUFloor" "md_ceiling d = max PMTUFloor (mc_DefaultMTU cfg)"
    using assms(9,11) by (auto simp: d_def decideLocked_def NewPMTUDiscovery_def defaultPMTUConfirmations_def Let_def)
  have "10 * md_confirmations d * nat (md_ceiling d - md_floor d) \<le> 10 * 1000 * nat 9000"
    using c(2) assms(10) lim by (intro mult_le_mono) (auto simp: PMTUFloor_def)
  then have "path_fuel psk (10 * md_confirmations d * nat (md_ceiling d - md_floor d)) e"
    by (intro fresh_fuel [OF assms(5-8)]) simp
  then have "\<exists>e'. search_from (path_probe X nonce link mtu now) (md_confirmations d) (md_floor d) (md_ceiling d) e =
      (Inr (max (md_floor d) (min (md_ceiling d) mtu)), e')"
    using assms(10) c(1) lim clean_path.path_search [OF path] by (auto simp: PMTUFloor_def)
  then obtain e' where "search (path_probe X nonce link mtu now) d e = (Inr (max PMTUFloor (min (md_ceiling d) mtu)), e')"
    using lim(1) by (auto simp: search_def)
  moreover have "max PMTUFloor (min (md_ceiling d) mtu) = max PMTUFloor (min (mc_DefaultMTU cfg) mtu)" using lim(2) by auto
  ultimately show ?thesis using dec by (simp add: PMTU_Tick_def)
qed

interpretation lte: clean_path sample_crypto sample_psk sample_keys "\<lambda>_. sample_nonce" 1500 1400 "\<lambda>s. int (unat s)"
proof unfold_locales
  show "NewCodec sample_crypto sample_psk = Inr sample_keys" by code_simp
  show "length sample_nonce = nonceLen" by code_simp
qed (simp_all add: sample_crypto_laws)

theorem pmtu_converges_witness:
  "\<exists>e d e'. NewEchoAwaitProbe sample_prober IPv4UDPOverhead 0 = Some e \<and>
    PMTU_Tick (path_probe sample_crypto (\<lambda>_. sample_nonce) 1500 1400 (\<lambda>s. int (unat s))) (NewPMTUDiscovery sample_pmtu_config) StateUp 5 6 e = (None, d, e') \<and>
    md_state d = pmtuConverged \<and> md_discovered d = max PMTUFloor (min 1500 1400)"
proof -
  obtain e where e: "NewEchoAwaitProbe (NewProber ''starlink'' 1 6 sample_psk sample_prober_config) IPv4UDPOverhead 0 = Some e"
    by (simp add: NewEchoAwaitProbe_def NewCadencedEchoAwaitProbe_def IPv4UDPOverhead_def)
  have "mc_DefaultMTU sample_pmtu_config = 1500" by (simp add: sample_pmtu_config_def)
  with pmtu_converges [OF lte.laws lte.keys lte.nonce lte.link e, of sample_pmtu_config "\<lambda>s. int (unat s)" 5 6] e show ?thesis
    by (simp add: sample_prober_def IPv4UDPOverhead_def sample_prober_config_def sample_pmtu_config_def)
qed

text \<open>The channel of a registered sequence, and whether it holds a token.\<close>

definition waiter :: "echo_await \<Rightarrow> u64 \<Rightarrow> bool \<Rightarrow> bool" where
  "waiter e seq b \<longleftrightarrow> (\<exists>ch. ea_pending e seq = Some ch \<and> ch_cap ch = 1 \<and> (0 < ch_len ch) = b)"

lemma waiter_notify: "waiter e seq b \<Longrightarrow> waiter (foldl NotifyEcho e ss) seq (b \<or> seq \<in> set ss)"
proof (induction ss arbitrary: e b)
  case (Cons s ss)
  have "waiter (NotifyEcho e s) seq (b \<or> seq = s)"
    using Cons.prems by (auto simp: waiter_def NotifyEcho_def try_send_def split: option.splits)
  then show ?case using Cons.IH by fastforce
qed simp

lemma waiter_park: "waiter e seq b \<Longrightarrow> waiter (ea_park e seq) seq b"
  by (auto simp: waiter_def ea_park_def)

text \<open>
  C37: a waiter is released by its own echo and by nothing else, and no echo is lost. Whatever
  echoes are notified while the probe is still being written, after the write and before the wait,
  and during the wait, the echo case of the wait is enabled exactly when the awaited sequence is
  among them.
\<close>

theorem waiter_released_by_echo:
  assumes "ProbePMTU_start X (\<lambda>raw e. (SendOk, foldl NotifyEcho e written)) e pathMTU now rnd = Some (Awaiting raw seq, e')"
  shows "ProbePMTU_finish (foldl NotifyEcho (ea_park (foldl NotifyEcho e' early) seq) waited) seq WakeEcho \<noteq> None \<longleftrightarrow>
    seq \<in> set (written @ early @ waited)"
proof -
  obtain p where e': "e' = foldl NotifyEcho (ea_register (e\<lparr>ea_prober := p\<rparr>) seq) written"
    using assms by (auto simp: ProbePMTU_start_def Let_def split: prod.splits sum.splits)
  have "waiter (ea_register (e\<lparr>ea_prober := p\<rparr>) seq) seq False" by (simp add: waiter_def ea_register_def make_chan_def)
  from waiter_notify [OF waiter_park [OF waiter_notify [OF waiter_notify [OF this, of written], of early]], of waited]
  have "waiter (foldl NotifyEcho (ea_park (foldl NotifyEcho e' early) seq) waited) seq (seq \<in> set (written @ early @ waited))"
    by (simp add: e' disj_assoc)
  then show ?thesis by (auto simp: waiter_def ProbePMTU_finish_def)
qed

theorem waiter_released_by_echo_witness:
  "\<exists>e raw e'. NewEchoAwaitProbe sample_prober IPv4UDPOverhead 0 = Some e \<and>
    ProbePMTU_start sample_crypto (\<lambda>raw e. (SendOk, foldl NotifyEcho e [7, 0])) e 1400 5 (Some sample_nonce) = Some (Awaiting raw 0, e') \<and>
    ProbePMTU_finish (ea_park e' 0) 0 WakeEcho \<noteq> None"
proof -
  obtain e where e: "NewEchoAwaitProbe sample_prober IPv4UDPOverhead 0 = Some e" "ea_prober e = sample_prober" "ea_outerIPUDPOverhead e = 28"
    by (simp add: NewEchoAwaitProbe_def NewCadencedEchoAwaitProbe_def IPv4UDPOverhead_def)
  have s: "pb_psk sample_prober = sample_psk" "pb_nextSeq sample_prober = 0" by (simp_all add: sample_prober_def NewProber_def)
  have "NewCodec sample_crypto (pb_psk sample_prober) = Inr sample_keys" using lte.keys s(1) by simp
  then obtain raw where raw: "SendPaddedProbe sample_crypto sample_prober 1372 5 (Some sample_nonce) =
      (Inr (raw, 0), sample_prober\<lparr>pb_nextSeq := 1\<rparr>)"
    using SendPaddedProbe_sends [OF lte.laws _ lte.nonce, of sample_prober sample_keys 1372 5] s(2) by (auto simp: frame_size_defs)
  define e' where "e' = foldl NotifyEcho (ea_register (e\<lparr>ea_prober := sample_prober\<lparr>pb_nextSeq := 1\<rparr>\<rparr>) 0) [7, 0]"
  have st: "ProbePMTU_start sample_crypto (\<lambda>raw e. (SendOk, foldl NotifyEcho e [7, 0])) e 1400 5 (Some sample_nonce) = Some (Awaiting raw 0, e')"
    using e raw by (simp add: ProbePMTU_start_def e'_def Let_def)
  show ?thesis using e(1) st waiter_released_by_echo [OF st, of "[]" "[]"] by auto
qed

text \<open>
  C36: a full-size packet fills the path MTU exactly. A WireGuard message carrying an inner packet
  of the size computed for the path, put in a data frame and sealed by the codec, plus the outer
  IP and UDP headers, has exactly the size of the path MTU, over IPv4 with InnerMTU and over IPv6
  with InnerMTU6.
\<close>

theorem full_packet_fits:
  assumes "crypto_laws X" and "codec_ok c" and "length nonce = nonceLen"
  shows "\<exists>raw. snd (Codec_Encode X c [] (ControlFrame (dataFrame ep dst lane attempt seq ord wg)) (Some nonce)) = Inr raw \<and>
    (int (length wg) - WGTransportOverhead = InnerMTU pathMTU \<longrightarrow> int (length raw) + IPv4UDPOverhead = pathMTU) \<and>
    (int (length wg) - WGTransportOverhead = InnerMTU6 pathMTU \<longrightarrow> int (length raw) + IPv6UDPOverhead = pathMTU)"
proof -
  let ?f = "ControlFrame (dataFrame ep dst lane attempt seq ord wg)"
  have "frame_validate ?f = None" by simp
  then obtain ks where "snd (Codec_Encode X c [] ?f (Some nonce)) =
      Inr ([] @ wire_frame X c nonce (xor_keystream ks 0 (appendBody [] ?f)))"
    using Codec_Encode_wire [OF assms(1,2) _ assms(3)] by metis
  moreover have "length (wire_frame X c nonce (xor_keystream ks 0 (appendBody [] ?f))) = length wg + Overhead"
    using assms(1,3)
    by (simp add: wire_frame_def control_body_eq dataFrame_def appendHeader_def Overhead_def ControlOverhead_def Let_def)
  ultimately show ?thesis
    by (auto simp: InnerMTU_def InnerMTU6_def)
qed

definition sample_epoch :: epoch where
  "sample_epoch = \<lparr>ep_Boot = 1, ep_Generation = 1\<rparr>"

theorem full_packet_fits_witness:
  "\<exists>raw. snd (Codec_Encode sample_crypto sample_codec []
      (ControlFrame (dataFrame sample_epoch sample_epoch 1 1 1 1 (replicate 1371 0))) (Some sample_nonce)) = Inr raw \<and>
    int (length raw) + IPv4UDPOverhead = DefaultPathMTU"
proof -
  have "int (length (replicate 1371 (0 :: byte))) - WGTransportOverhead = InnerMTU DefaultPathMTU"
    by (simp add: InnerMTU_def DefaultPathMTU_def IPv4UDPOverhead_def WGTransportOverhead_def Overhead_def ControlOverhead_def)
  then show ?thesis
    using full_packet_fits [OF sample_crypto_laws sample_codec_ok lte.nonce] by blast
qed

text \<open>The IPv4 size does not fit an IPv6 path of the same MTU: the datagram is 20 bytes too long.\<close>

lemma ipv4_size_over_ipv6: "InnerMTU pathMTU + WGTransportOverhead + int Overhead + IPv6UDPOverhead = pathMTU + 20"
  by (simp add: InnerMTU_def IPv4UDPOverhead_def IPv6UDPOverhead_def)

end
