(* ===== verification/Receipts.thy ===== *)
theory Receipts
  imports Wire
begin

text \<open>
  The receipt windows of the transport (internal/bond/bond.go): a bitmap of the last 8192
  sequences below the highest one seen, kept in 64-bit words. One window refuses repeated
  datagrams, a second one remembers which receipts no acknowledgement has reported yet.
\<close>

section \<open>Definitions\<close>

subsection \<open>The window\<close>

definition maxPackets :: nat where "maxPackets = 8192"

abbreviation maskWords :: nat where "maskWords \<equiv> maxPackets div 64"

record receipt_window =
  rw_high :: u64
  rw_mask :: "u64 list"

definition no_receipts :: receipt_window where
  "no_receipts = \<lparr>rw_high = 0, rw_mask = replicate maskWords 0\<rparr>"

text \<open>
  Moving the window up by \<open>64 * words + shift\<close> positions, in place, from the last word down to
  the first.
\<close>

definition shift_word :: "nat \<Rightarrow> nat \<Rightarrow> u64 list \<Rightarrow> nat \<Rightarrow> u64" where
  "shift_word words shift ms i =
     (let v = (if i \<ge> words then push_bit shift (ms ! (i - words)) else 0)
      in if shift > 0 \<and> i > words then v OR drop_bit (64 - shift) (ms ! (i - words - 1)) else v)"

definition shift_mask :: "nat \<Rightarrow> nat \<Rightarrow> u64 list \<Rightarrow> u64 list" where
  "shift_mask words shift ms =
     foldl (\<lambda>ms i. ms[i := shift_word words shift ms i]) ms (rev [0..<length ms])"

definition raise_window :: "receipt_window \<Rightarrow> u64 \<Rightarrow> receipt_window" where
  "raise_window w seq =
     (if seq > rw_high w then
        let delta = seq - rw_high w;
            ms = (if delta \<ge> of_nat maxPackets then replicate maskWords 0
                    else shift_mask (unat (delta div 64)) (unat (delta mod 64)) (rw_mask w))
        in \<lparr>rw_high = seq, rw_mask = ms\<rparr>
      else w)"

definition mark :: "receipt_window \<Rightarrow> u64 \<Rightarrow> bool \<times> receipt_window" where
  "mark w seq =
     (let w = raise_window w seq;
          delta = rw_high w - seq
      in if delta \<ge> of_nat maxPackets then (False, w)
         else
           let b = push_bit (unat (delta mod 64)) 1; i = unat (delta div 64)
           in if (rw_mask w ! i) AND b \<noteq> 0 then (False, w)
              else (True, w\<lparr>rw_mask := (rw_mask w)[i := (rw_mask w ! i) OR b]\<rparr>))"

definition Len64 :: "u64 \<Rightarrow> nat" where
  "Len64 x = length (dropWhile (\<lambda>n. \<not> bit x n) (rev [0..<64]))"

fun oldest_from :: "receipt_window \<Rightarrow> nat \<Rightarrow> u64" where
  "oldest_from w 0 = 0"
| "oldest_from w (Suc i) =
     (let x = rw_mask w ! i
      in if x \<noteq> 0 then rw_high w - of_nat (i * 64 + Len64 x - 1) else oldest_from w i)"

definition oldest :: "receipt_window \<Rightarrow> u64" where
  "oldest w = oldest_from w (length (rw_mask w))"

definition bitmap :: "receipt_window \<Rightarrow> u64 \<Rightarrow> u64 list" where
  "bitmap w high =
     foldl (\<lambda>res offset.
         let delta = rw_high w - (high - of_nat offset)
         in if delta < of_nat maxPackets \<and>
               (rw_mask w ! unat (delta div 64)) AND push_bit (unat (delta mod 64)) 1 \<noteq> 0
            then res[offset div 64 := (res ! (offset div 64)) OR push_bit (offset mod 64) 1]
            else res)
       (replicate ackReceiptWords 0) [0..<min ackReceiptBits (unat high)]"

definition forgetThrough :: "receipt_window \<Rightarrow> u64 \<Rightarrow> receipt_window" where
  "forgetThrough w high =
     (if high \<ge> rw_high w then w\<lparr>rw_mask := replicate (length (rw_mask w)) 0\<rparr>
      else
        let delta = rw_high w - high; i = unat (delta div 64); ms = rw_mask w
        in if delta < of_nat maxPackets
           then w\<lparr>rw_mask := take i ms @ [(ms ! i) AND (push_bit (unat (delta mod 64)) 1 - 1)] @
                    replicate (length ms - (i + 1)) 0\<rparr>
           else w)"

subsection \<open>Reporting\<close>

text \<open>The sequence an acknowledgement is anchored at: Poll of the transport computes it.\<close>

definition ack_anchor :: "receipt_window \<Rightarrow> receipt_window \<Rightarrow> u64" where
  "ack_anchor recvd unreported =
     (let high = rw_high recvd; old = oldest unreported
      in if old \<noteq> 0 then old + min (of_nat (ackReceiptBits - 1)) (high - old) else high)"

text \<open>
  What a received datagram and an acknowledgement do to the two windows: a datagram not seen before
  is marked in both, an acknowledgement carries the anchor and the bitmap below it and forgets what
  it reported.
\<close>

type_synonym windows = "receipt_window \<times> receipt_window"

definition note_receipt :: "windows \<Rightarrow> u64 \<Rightarrow> bool \<times> windows" where
  "note_receipt = (\<lambda>(recvd, unreported) seq.
     let (ok, recvd) = mark recvd seq
     in if \<not> ok then (False, (recvd, unreported)) else (True, (recvd, snd (mark unreported seq))))"

definition report :: "windows \<Rightarrow> (u64 \<times> u64 list) \<times> windows" where
  "report = (\<lambda>(recvd, unreported).
     let high = ack_anchor recvd unreported
     in ((high, bitmap recvd high), (recvd, forgetThrough unreported high)))"

datatype receipt_op = Arrived u64 | Report

text \<open>A run yields the sequences accepted and the bitmaps reported.\<close>

fun receipt_run :: "windows \<Rightarrow> receipt_op list \<Rightarrow> u64 list \<times> (u64 \<times> u64 list) list \<times> windows" where
  "receipt_run w [] = ([], [], w)"
| "receipt_run w (Arrived seq # ops) =
     (let (ok, w) = note_receipt w seq; (acc, reps, w) = receipt_run w ops in (if ok then seq # acc else acc, reps, w))"
| "receipt_run w (Report # ops) =
     (let (r, w) = report w; (acc, reps, w) = receipt_run w ops in (acc, r # reps, w))"

definition ack_covers :: "u64 \<times> u64 list \<Rightarrow> u64 \<Rightarrow> bool" where
  "ack_covers r s \<longleftrightarrow>
     received \<lparr>ack_observed = \<lparr>ep_Boot = 1, ep_Generation = 1\<rparr>, ack_high = 0, ack_mask = 0, ack_bytes = 0, ack_elapsed = 0,
       ack_delay = 0, ack_receivedHigh = fst r, ack_receivedMask = snd r\<rparr> s"

section \<open>The window as a set of sequences\<close>

definition marked :: "receipt_window \<Rightarrow> nat \<Rightarrow> bool" where
  "marked w d \<longleftrightarrow> d < maxPackets \<and> bit (rw_mask w ! (d div 64)) (d mod 64)"

definition receipts :: "receipt_window \<Rightarrow> u64 set" where
  "receipts w = {s. s \<le> rw_high w \<and> marked w (unat (rw_high w - s))}"

text \<open>Every mark stands for a sequence, that is, lies no further below the highest than zero.\<close>

definition rw_ok :: "receipt_window \<Rightarrow> bool" where
  "rw_ok w \<longleftrightarrow> length (rw_mask w) = maskWords \<and> (\<forall>d. marked w d \<longrightarrow> d \<le> unat (rw_high w))"

lemma div64_less: "d < maxPackets \<Longrightarrow> d div 64 < maskWords"
  by (simp add: maxPackets_def)

lemma marked_no_receipts [simp]: "\<not> marked no_receipts d"
  by (simp add: marked_def no_receipts_def div64_less)

lemma rw_ok_no_receipts [simp]: "rw_ok no_receipts"
  unfolding rw_ok_def by simp (simp add: no_receipts_def)

lemma receipts_no_receipts [simp]: "receipts no_receipts = {}"
  by (simp add: receipts_def)

lemma shift_mask_fold:
  "n \<le> length ms \<Longrightarrow>
    length (foldl (\<lambda>m i. m[i := shift_word words shift m i]) ms (rev [0..<n])) = length ms \<and>
    (\<forall>i < length ms. foldl (\<lambda>m i. m[i := shift_word words shift m i]) ms (rev [0..<n]) ! i =
        (if i < n then shift_word words shift ms i else ms ! i))"
proof (induction n arbitrary: ms)
  case (Suc n)
  let ?m = "ms[n := shift_word words shift ms n]"
  have "shift_word words shift ?m i = shift_word words shift ms i" if "i < n" for i
    using that by (simp add: shift_word_def Let_def)
  then show ?case using Suc.IH [of ?m] Suc.prems by (auto simp: less_Suc_eq)
qed simp

lemma length_shift_mask [simp]: "length (shift_mask words shift ms) = length ms"
  by (simp add: shift_mask_def shift_mask_fold)

lemma nth_shift_mask: "i < length ms \<Longrightarrow> shift_mask words shift ms ! i = shift_word words shift ms i"
  by (simp add: shift_mask_def shift_mask_fold)

lemma bit_shift_word:
  assumes "shift < 64" and "n < 64"
  shows "bit (shift_word words shift ms i) n \<longleftrightarrow>
    64 * words + shift \<le> 64 * i + n \<and>
    bit (ms ! ((64 * i + n - (64 * words + shift)) div 64)) ((64 * i + n - (64 * words + shift)) mod 64)"
proof -
  consider (below) "i < words" | (low) "i \<ge> words" "n \<ge> shift" | (high) "i > words" "n < shift" | (edge) "i = words" "n < shift"
    by linarith
  then show ?thesis
  proof cases
    case below
    then show ?thesis using assms by (auto simp: shift_word_def)
  next
    case low
    then have e: "64 * i + n - (64 * words + shift) = 64 * (i - words) + (n - shift)" by (simp add: algebra_simps)
    have d: "(64 * (i - words) + (n - shift)) div 64 = i - words" "(64 * (i - words) + (n - shift)) mod 64 = n - shift"
      using assms(2) by (simp_all add: less_imp_diff_less)
    have "\<not> bit (drop_bit (64 - shift) (ms ! (i - words - 1))) n"
      using low(2) bit_imp_le_length [of "ms ! (i - words - 1)" "64 - shift + n"] assms by (auto simp: bit_drop_bit_eq)
    then show ?thesis unfolding e d using low assms by (auto simp: shift_word_def Let_def bit_push_bit_iff bit_or_iff)
  next
    case high
    then have e: "64 * i + n - (64 * words + shift) = 64 * (i - words - 1) + (64 - shift + n)" using assms by (simp add: algebra_simps)
    have "64 - shift + n < 64" using high assms by linarith
    then have d: "(64 * (i - words - 1) + (64 - shift + n)) div 64 = i - words - 1"
      "(64 * (i - words - 1) + (64 - shift + n)) mod 64 = 64 - shift + n"
      by (simp_all only: div_mult_self4 mod_mult_self4 div_less mod_less add_0_right zero_neq_numeral not_False_eq_True simp_thms)
    show ?thesis unfolding e d using high assms by (auto simp: shift_word_def Let_def bit_push_bit_iff bit_or_iff bit_drop_bit_eq)
  next
    case edge
    then show ?thesis using assms by (auto simp: shift_word_def bit_push_bit_iff)
  qed
qed

lemma marked_shift:
  assumes "length (rw_mask w) = maskWords" and "shift < 64"
  shows "marked \<lparr>rw_high = h, rw_mask = shift_mask words shift (rw_mask w)\<rparr> d \<longleftrightarrow>
    d < maxPackets \<and> 64 * words + shift \<le> d \<and> marked w (d - (64 * words + shift))"
  using assms div64_less [of d] by (auto simp: marked_def nth_shift_mask bit_shift_word)

text \<open>Raising the window moves every mark up by the distance and drops what leaves the range.\<close>

lemma u64_split: "64 * unat (x div 64) + unat (x mod 64) = unat (x :: u64)"
  by (simp add: unat_div unat_mod)

lemma marked_raise:
  assumes ok: "length (rw_mask w) = maskWords" and up: "seq > rw_high w"
  shows "marked (raise_window w seq) d \<longleftrightarrow>
    d < maxPackets \<and> unat (seq - rw_high w) \<le> d \<and> marked w (d - unat (seq - rw_high w))"
proof (cases "seq - rw_high w \<ge> of_nat maxPackets")
  case True
  then have "maxPackets \<le> unat (seq - rw_high w)" by (simp add: word_le_nat_alt maxPackets_def)
  then show ?thesis using up True by (auto simp: raise_window_def marked_def div64_less)
next
  case False
  have "unat ((seq - rw_high w) mod 64) < 64" by (simp add: unat_mod)
  from marked_shift [OF ok this, of seq "unat ((seq - rw_high w) div 64)" d]
  show ?thesis using up False by (simp add: raise_window_def u64_split Let_def)
qed

lemma high_raise: "rw_high (raise_window w seq) = max (rw_high w) seq"
  by (auto simp: raise_window_def Let_def max_def)

lemma length_raise: "length (rw_mask w) = maskWords \<Longrightarrow> length (rw_mask (raise_window w seq)) = maskWords"
  by (simp add: raise_window_def Let_def)

lemma unat_diff_chain: "(a :: u64) \<le> b \<Longrightarrow> b \<le> c \<Longrightarrow> unat (c - a) = unat (c - b) + unat (b - a)"
  by (auto simp: unat_minus_nowrap word_le_nat_alt)

lemma receipts_raise:
  assumes ok: "length (rw_mask w) = maskWords"
  shows "receipts (raise_window w seq) =
    {s \<in> receipts w. unat (max (rw_high w) seq - s) < maxPackets}"
proof (cases "seq > rw_high w")
  case False
  then have "max (rw_high w) seq = rw_high w" by (simp add: max_def)
  then show ?thesis using False by (auto simp: raise_window_def receipts_def marked_def)
next
  case up: True
  have e: "unat (seq - s) = unat (seq - rw_high w) + unat (rw_high w - s)" if "s \<le> rw_high w" for s
    using that up by (intro unat_diff_chain) auto
  have g: "unat (seq - s) < unat (seq - rw_high w)" if "\<not> s \<le> rw_high w" "s \<le> seq" for s
    using that up by (auto simp: unat_minus_nowrap word_le_nat_alt word_less_nat_alt)
  show ?thesis
  proof (rule set_eqI)
    fix s
    show "s \<in> receipts (raise_window w seq) \<longleftrightarrow> s \<in> {s \<in> receipts w. unat (max (rw_high w) seq - s) < maxPackets}"
    proof (cases "s \<le> rw_high w")
      case True
      then have "s \<le> seq" using up by simp
      then show ?thesis using True up e [OF True]
        by (auto simp: receipts_def high_raise marked_raise [OF ok up] max_def)
    next
      case False
      then show ?thesis using g [OF False] up
        by (auto simp: receipts_def high_raise marked_raise [OF ok up] max_def)
    qed
  qed
qed

lemma rw_ok_raise:
  assumes ok: "rw_ok w"
  shows "rw_ok (raise_window w seq)"
proof (cases "seq > rw_high w")
  case False
  then show ?thesis using ok by (simp add: raise_window_def)
next
  case up: True
  have len: "length (rw_mask w) = maskWords" using ok by (simp add: rw_ok_def)
  have "d \<le> unat (max (rw_high w) seq)" if "marked (raise_window w seq) d" for d
  proof -
    have "unat (seq - rw_high w) \<le> d" "marked w (d - unat (seq - rw_high w))"
      using that up marked_raise [OF len up] by auto
    moreover have "d - unat (seq - rw_high w) \<le> unat (rw_high w)" using calculation ok by (auto simp: rw_ok_def)
    ultimately show ?thesis using up by (auto simp: unat_minus_nowrap word_le_nat_alt word_less_nat_alt max_def)
  qed
  then show ?thesis using len by (simp add: rw_ok_def length_raise high_raise)
qed

text \<open>Setting one bit.\<close>

lemma marked_set:
  assumes "length (rw_mask w) = maskWords" and "d < maxPackets"
  shows "marked (w\<lparr>rw_mask := (rw_mask w)[d div 64 := (rw_mask w ! (d div 64)) OR push_bit (d mod 64) 1]\<rparr>) e \<longleftrightarrow> e = d \<or> marked w e"
proof -
  have "e div 64 = d div 64 \<Longrightarrow> e mod 64 = d mod 64 \<Longrightarrow> e = d" by (metis div_mult_mod_eq)
  then show ?thesis
    using assms div64_less [of d] div64_less [of e]
    by (auto simp: marked_def nth_list_update bit_or_iff bit_exp_iff push_bit_of_1)
qed

definition in_window :: "u64 \<Rightarrow> u64 \<Rightarrow> bool" where
  "in_window high s \<longleftrightarrow> s \<le> high \<and> unat (high - s) < maxPackets"

lemma mark_cases:
  fixes seq :: u64
  assumes ok: "rw_ok w"
  defines "v \<equiv> raise_window w seq"
  shows "fst (mark w seq) \<longleftrightarrow> in_window (rw_high v) seq \<and> seq \<notin> receipts v"
    and "rw_high (snd (mark w seq)) = rw_high v"
    and "receipts (snd (mark w seq)) = (if in_window (rw_high v) seq then insert seq (receipts v) else receipts v)"
    and "rw_ok (snd (mark w seq))"
proof -
  define d where "d = unat (rw_high v - seq)"
  have len: "length (rw_mask v) = maskWords" and okv: "rw_ok v"
    using rw_ok_raise [OF ok, of seq] by (simp_all add: rw_ok_def v_def)
  have le: "seq \<le> rw_high v" by (simp add: v_def high_raise)
  have w64: "unat ((rw_high v - seq) div 64) = d div 64" "unat ((rw_high v - seq) mod 64) = d mod 64"
    by (simp_all add: d_def unat_div unat_mod)
  have big: "rw_high v - seq \<ge> of_nat maxPackets \<longleftrightarrow> \<not> d < maxPackets"
    by (simp add: d_def word_le_nat_alt maxPackets_def not_less)
  have m: "mark w seq = (if \<not> d < maxPackets then (False, v)
     else if (rw_mask v ! (d div 64)) AND push_bit (d mod 64) 1 \<noteq> 0 then (False, v)
     else (True, v\<lparr>rw_mask := (rw_mask v)[d div 64 := (rw_mask v ! (d div 64)) OR push_bit (d mod 64) 1]\<rparr>))"
    unfolding mark_def Let_def v_def [symmetric] w64 big by simp
  have b: "(rw_mask v ! (d div 64)) AND push_bit (d mod 64) 1 \<noteq> 0 \<longleftrightarrow> bit (rw_mask v ! (d div 64)) (d mod 64)"
    by (simp add: bit_iff_and_push_bit_not_eq_0)
  have rd: "seq \<in> receipts v \<longleftrightarrow> marked v d" using le by (simp add: receipts_def d_def)
  have iw: "in_window (rw_high v) seq \<longleftrightarrow> d < maxPackets" using le by (simp add: in_window_def d_def)
  show "fst (mark w seq) \<longleftrightarrow> in_window (rw_high v) seq \<and> seq \<notin> receipts v"
    unfolding m b rd iw by (simp add: marked_def)
  show "rw_high (snd (mark w seq)) = rw_high v" unfolding m by simp
  let ?u = "v\<lparr>rw_mask := (rw_mask v)[d div 64 := (rw_mask v ! (d div 64)) OR push_bit (d mod 64) 1]\<rparr>"
  have inj: "s \<le> rw_high v \<Longrightarrow> unat (rw_high v - s) = d \<longleftrightarrow> s = seq" for s
    using le by (auto simp: d_def unat_minus_nowrap word_le_nat_alt) (metis diff_diff_cancel word_unat_eq_iff)
  have u: "receipts ?u = insert seq (receipts v)" if "d < maxPackets"
    using marked_set [OF len that] le inj by (auto simp: receipts_def)
  show "receipts (snd (mark w seq)) = (if in_window (rw_high v) seq then insert seq (receipts v) else receipts v)"
    unfolding m b iw using u rd by (auto simp: marked_def)
  have "rw_ok ?u" if "d < maxPackets"
    using okv marked_set [OF len that] by (auto simp: rw_ok_def d_def unat_minus_nowrap [OF le])
  then show "rw_ok (snd (mark w seq))" unfolding m using okv by simp
qed

lemmas mark_refused = mark_cases(1)
lemmas mark_keeps = mark_cases(4)

lemma high_mark: "rw_ok w \<Longrightarrow> rw_high (snd (mark w seq)) = max (rw_high w) seq"
  by (simp add: mark_cases(2) high_raise)

lemma receipts_mark:
  assumes "rw_ok w"
  shows "receipts (snd (mark w seq)) = {s \<in> insert seq (receipts w). in_window (max (rw_high w) seq) s}"
proof -
  have "s \<le> max (rw_high w) seq" if "s \<in> receipts w" for s
    using that by (auto simp: receipts_def le_max_iff_disj)
  then show ?thesis
    using assms by (auto simp: mark_cases(3) high_raise receipts_raise rw_ok_def in_window_def)
qed

lemma mark_accepts:
  assumes "rw_ok w"
  shows "fst (mark w seq) \<longleftrightarrow> in_window (max (rw_high w) seq) seq \<and> seq \<notin> receipts w"
  using assms by (auto simp: mark_cases(1) high_raise receipts_raise rw_ok_def in_window_def)

lemma mark_new_high: "rw_ok w \<Longrightarrow> rw_high w < seq \<Longrightarrow> fst (mark w seq)"
  by (auto simp: mark_accepts in_window_def maxPackets_def max_def receipts_def)

lemma mark_same:
  assumes ok: "rw_ok w" and no: "\<not> fst (mark w s)"
  shows "snd (mark w s) = w"
proof -
  have "\<not> rw_high w < s" using no mark_new_high [OF ok] by blast
  then have "raise_window w s = w" by (simp add: raise_window_def)
  then show ?thesis using no by (auto simp: mark_def Let_def split: if_splits)
qed

lemma in_window_mono: "in_window (max h seq) s \<Longrightarrow> s \<le> h \<Longrightarrow> in_window h s"
  by (cases "h \<le> seq") (auto simp: in_window_def max_def unat_minus_nowrap word_le_nat_alt split: if_splits)

text \<open>The window of a run of marks holds exactly the marked sequences close enough to the highest.\<close>

definition marks :: "receipt_window \<Rightarrow> u64 list \<Rightarrow> receipt_window" where
  "marks w ks = foldl (\<lambda>w k. snd (mark w k)) w ks"

lemma marks_state:
  "rw_ok (marks no_receipts ks) \<and> (\<forall>k \<in> set ks. k \<le> rw_high (marks no_receipts ks)) \<and>
   rw_high (marks no_receipts ks) \<in> insert 0 (set ks) \<and>
   receipts (marks no_receipts ks) = {k \<in> set ks. in_window (rw_high (marks no_receipts ks)) k}"
proof (induction ks rule: rev_induct)
  case Nil
  show ?case by (simp add: marks_def) (simp add: no_receipts_def)
next
  case (snoc k ks)
  define w where "w = marks no_receipts ks"
  have e: "marks no_receipts (ks @ [k]) = snd (mark w k)" by (simp add: marks_def w_def)
  have ok: "rw_ok w" and le: "\<forall>k \<in> set ks. k \<le> rw_high w" and hi: "rw_high w \<in> insert 0 (set ks)"
    and r: "receipts w = {k \<in> set ks. in_window (rw_high w) k}"
    using snoc.IH by (simp_all add: w_def)
  have "receipts (snd (mark w k)) = {s \<in> set (ks @ [k]). in_window (max (rw_high w) k) s}"
    using le by (auto simp: receipts_mark [OF ok] r intro: in_window_mono)
  then show ?case
    unfolding e using le hi by (auto simp: mark_keeps [OF ok] high_mark [OF ok] max_def)
qed

lemma marks_accept:
  "fst (mark (marks no_receipts ks) k) \<longleftrightarrow>
     k \<notin> set ks \<and> \<not> (\<exists>e \<in> set ks. k < e \<and> unat (e - k) \<ge> maxPackets)"
proof -
  define w where "w = marks no_receipts ks"
  have ok: "rw_ok w" and le: "\<forall>k \<in> set ks. k \<le> rw_high w" and hi: "rw_high w \<in> insert 0 (set ks)"
    and r: "receipts w = {k \<in> set ks. in_window (rw_high w) k}"
    using marks_state [of ks] by (simp_all add: w_def)
  have self: "in_window k k" by (simp add: in_window_def maxPackets_def)
  have win: "in_window (max (rw_high w) k) k \<longleftrightarrow> \<not> (\<exists>e \<in> set ks. k < e \<and> unat (e - k) \<ge> maxPackets)"
  proof (cases "rw_high w \<le> k")
    case True
    then show ?thesis using self le by (auto simp: max_def)
  next
    case False
    then have m: "max (rw_high w) k = rw_high w" and "rw_high w \<in> set ks" using hi by auto
    moreover have "unat (e - k) \<le> unat (rw_high w - k)" if "e \<in> set ks" "k < e" for e
      using that le False by (auto simp: unat_minus_nowrap word_le_nat_alt word_less_nat_alt)
    ultimately show ?thesis using False by (auto simp: in_window_def) (meson not_le order.trans)+
  qed
  show ?thesis
    unfolding w_def [symmetric] mark_accepts [OF ok] win r using win in_window_mono [of "rw_high w" k k] le by auto
qed

text \<open>
  C19: After any history of marks, a receipt window accepts a sequence exactly when it was not
  marked before and does not lie 8192 or more below any marked one.
\<close>

theorem receipts_exact:
  "fst (mark (marks no_receipts ks) k) \<longleftrightarrow>
     k \<notin> set ks \<and> \<not> (\<exists>e \<in> set ks. k < e \<and> unat (e - k) \<ge> maxPackets)"
  by (rule marks_accept)

section \<open>Reporting receipts\<close>

lemma Len64_top:
  assumes "x \<noteq> 0"
  shows "1 \<le> Len64 x \<and> Len64 x \<le> 64 \<and> bit x (Len64 x - 1) \<and> (\<forall>n \<ge> Len64 x. \<not> bit x n)"
proof -
  have gen: "m \<le> 64 \<Longrightarrow> (\<forall>n \<ge> m. \<not> bit x n) \<Longrightarrow>
    (let l = length (dropWhile (\<lambda>n. \<not> bit x n) (rev [0..<m])) in 1 \<le> l \<and> l \<le> 64 \<and> bit x (l - 1) \<and> (\<forall>n \<ge> l. \<not> bit x n))" for m
  proof (induction m)
    case 0
    then show ?case using assms by (auto simp: bit_eq_iff)
  next
    case (Suc m)
    show ?case
    proof (cases "bit x m")
      case True
      then show ?thesis using Suc.prems by (simp add: Let_def)
    next
      case False
      then have "\<forall>n \<ge> m. \<not> bit x n" using Suc.prems(2) by (metis Suc_leI le_eq_less_or_eq)
      then show ?thesis using Suc.IH Suc.prems(1) False by simp
    qed
  qed
  have "\<forall>n \<ge> 64. \<not> bit x n" using bit_imp_le_length [of x] by fastforce
  from gen [OF order.refl this] show ?thesis unfolding Let_def Len64_def .
qed

lemma oldest_from_spec:
  "n \<le> maskWords \<Longrightarrow>
    (oldest_from w n = 0 \<and> (\<forall>d < 64 * n. \<not> marked w d)) \<or>
    (\<exists>d < 64 * n. marked w d \<and> (\<forall>e < 64 * n. marked w e \<longrightarrow> e \<le> d) \<and> oldest_from w n = rw_high w - of_nat d)"
proof (induction n)
  case (Suc n)
  let ?x = "rw_mask w ! n"
  have up: "64 * n + j < maxPackets" if "j < 64" for j
    using Suc.prems that by (simp add: maxPackets_def)
  have mk: "marked w (64 * n + j) \<longleftrightarrow> bit ?x j" if "j < 64" for j
    using up [OF that] that by (simp add: marked_def)
  have split: "e < 64 * n \<or> (\<exists>j < 64. e = 64 * n + j)" if "e < 64 * Suc n" for e
  proof (cases "e < 64 * n")
    case False
    then have "e = 64 * n + (e - 64 * n)" "e - 64 * n < 64" using that by simp_all
    then show ?thesis by blast
  qed simp
  show ?case
  proof (cases "?x = 0")
    case True
    then have "\<not> marked w (64 * n + j)" if "j < 64" for j using mk [OF that] by simp
    then have "marked w e \<Longrightarrow> e < 64 * Suc n \<Longrightarrow> e < 64 * n" for e using split by blast
    moreover have "oldest_from w (Suc n) = oldest_from w n" using True by simp
    moreover have "d < 64 * n \<Longrightarrow> d < 64 * Suc n" for d by simp
    ultimately show ?thesis using Suc.IH [OF Suc_leD [OF Suc.prems]] by metis
  next
    case False
    define l where "l = Len64 ?x - 1"
    have l: "l < 64" "bit ?x l" "\<And>j. l < j \<Longrightarrow> \<not> bit ?x j" "Len64 ?x = Suc l"
      using Len64_top [OF False] by (auto simp: l_def)
    have "oldest_from w (Suc n) = rw_high w - of_nat (64 * n + l)" using False l(4) by (simp add: Let_def mult.commute)
    moreover have "e \<le> 64 * n + l" if lt: "e < 64 * Suc n" and me: "marked w e" for e
    proof -
      consider "e < 64 * n" | j where "j < 64" "e = 64 * n + j" using split [OF lt] by blast
      then show ?thesis
      proof cases
        case 2
        then show ?thesis using mk [OF 2(1)] l(3) [of j] me by (cases "l < j") auto
      qed simp
    qed
    moreover have "64 * n + l < 64 * Suc n" "marked w (64 * n + l)" using mk [OF l(1)] l(1,2) by simp_all
    ultimately show ?thesis by blast
  qed
qed simp

lemma oldest_spec:
  assumes ok: "rw_ok w"
  shows "receipts w = {} \<Longrightarrow> oldest w = 0"
    and "receipts w \<noteq> {} \<Longrightarrow> oldest w \<in> receipts w \<and> (\<forall>s \<in> receipts w. oldest w \<le> s)"
proof -
  have len: "oldest w = oldest_from w maskWords" using ok by (simp add: oldest_def rw_ok_def)
  have all: "marked w d \<Longrightarrow> d < 64 * maskWords" for d by (simp add: marked_def maxPackets_def)
  have m: "rw_high w - of_nat d \<in> receipts w \<and> unat (rw_high w - of_nat d) = unat (rw_high w) - d" if "marked w d" for d
  proof -
    have d: "d \<le> unat (rw_high w)" using ok that by (auto simp: rw_ok_def)
    then have u: "unat (of_nat d :: u64) = d" using unat_u64_less [of "rw_high w"] by (simp add: unat_of_nat)
    then have le: "(of_nat d :: u64) \<le> rw_high w" using d by (simp add: word_le_nat_alt)
    have "rw_high w - of_nat d \<le> rw_high w" using le by (simp add: word_le_nat_alt unat_minus_nowrap)
    then show ?thesis using that u by (simp add: receipts_def unat_minus_nowrap [OF le])
  qed
  have r: "marked w (unat (rw_high w - s))" "unat (rw_high w - s) = unat (rw_high w) - unat s" "unat s \<le> unat (rw_high w)"
    if "s \<in> receipts w" for s
    using that unat_minus_nowrap [of s "rw_high w"] by (simp_all add: receipts_def word_le_nat_alt)
  consider (none) "oldest w = 0" "\<And>d. \<not> marked w d"
    | (some) d where "marked w d" "\<And>e. marked w e \<Longrightarrow> e \<le> d" "oldest w = rw_high w - of_nat d"
    using oldest_from_spec [OF order.refl, of w] unfolding len using all by meson
  note sp = this
  show "receipts w = {} \<Longrightarrow> oldest w = 0"
  proof (cases rule: sp)
    case (some d)
    then show "receipts w = {} \<Longrightarrow> oldest w = 0" using m [of d] by simp
  qed simp
  assume ne: "receipts w \<noteq> {}"
  obtain d where d: "marked w d" "\<And>e. marked w e \<Longrightarrow> e \<le> d" "oldest w = rw_high w - of_nat d"
  proof (cases rule: sp)
    case none
    then show ?thesis using ne r(1) by blast
  next
    case (some d)
    then show ?thesis using that by blast
  qed
  have "oldest w \<le> s" if "s \<in> receipts w" for s
    using d(2) [OF r(1) [OF that]] r(2,3) [OF that] m [OF d(1)] unfolding d(3) by (simp add: word_le_nat_alt)
  then show "oldest w \<in> receipts w \<and> (\<forall>s \<in> receipts w. oldest w \<le> s)" using m [OF d(1)] d(3) by simp
qed

lemma bitmap_fold:
  fixes P :: "nat \<Rightarrow> bool"
  defines "f \<equiv> \<lambda>(res :: u64 list) k. if P k then res[k div 64 := (res ! (k div 64)) OR push_bit (k mod 64) 1] else res"
  shows "n \<le> 64 * m \<Longrightarrow> length (foldl f (replicate m 0) [0..<n]) = m \<and>
    (\<forall>k < 64 * m. bit (foldl f (replicate m 0) [0..<n] ! (k div 64)) (k mod 64) \<longleftrightarrow> k < n \<and> P k)"
proof (induction n)
  case 0
  have "k div 64 < m" if "k < 64 * m" for k using that by auto
  then show ?case by simp
next
  case (Suc n)
  define r where "r = foldl f (replicate m 0) [0..<n]"
  have r: "length r = m" "\<And>k. k < 64 * m \<Longrightarrow> bit (r ! (k div 64)) (k mod 64) \<longleftrightarrow> k < n \<and> P k"
    using Suc.IH Suc.prems by (auto simp: r_def)
  have n: "n div 64 < m" using Suc.prems by auto
  have "bit (f r n ! (k div 64)) (k mod 64) \<longleftrightarrow> k < Suc n \<and> P k" if k: "k < 64 * m" for k
  proof (cases "k = n")
    case True
    then show ?thesis using r(1) r(2) [OF k] n by (auto simp: f_def bit_or_iff push_bit_of_1 bit_exp_iff)
  next
    case False
    then have "\<not> (k div 64 = n div 64 \<and> k mod 64 = n mod 64)" by (metis div_mult_mod_eq)
    then have "bit (f r n ! (k div 64)) (k mod 64) \<longleftrightarrow> bit (r ! (k div 64)) (k mod 64)"
      using r(1) n by (auto simp: f_def nth_list_update bit_or_iff push_bit_of_1 bit_exp_iff)
    then show ?thesis using r(2) [OF k] False by auto
  qed
  moreover have "length (f r n) = m" using r(1) by (simp add: f_def)
  ultimately show ?case by (simp add: r_def)
qed

lemma bitmap_bits:
  assumes h: "h \<le> rw_high w"
  shows "length (bitmap w h) = ackReceiptWords"
    and "k < ackReceiptBits \<Longrightarrow> bit (bitmap w h ! (k div 64)) (k mod 64) \<longleftrightarrow>
      k < unat h \<and> h - of_nat k \<in> receipts w"
proof -
  define P where "P k \<longleftrightarrow> (let delta = rw_high w - (h - of_nat k)
    in delta < of_nat maxPackets \<and> (rw_mask w ! unat (delta div 64)) AND push_bit (unat (delta mod 64)) 1 \<noteq> 0)" for k
  have b: "bitmap w h = foldl (\<lambda>res k. if P k then res[k div 64 := (res ! (k div 64)) OR push_bit (k mod 64) 1] else res)
      (replicate ackReceiptWords 0) [0..<min ackReceiptBits (unat h)]"
    unfolding bitmap_def P_def Let_def ..
  have "min ackReceiptBits (unat h) \<le> 64 * ackReceiptWords" by simp
  note f = bitmap_fold [where P = P, OF this, folded b]
  show "length (bitmap w h) = ackReceiptWords" using f by blast
  assume k: "k < ackReceiptBits"
  have "P k \<longleftrightarrow> h - of_nat k \<in> receipts w" if kh: "k < unat h"
  proof -
    have u: "unat (of_nat k :: u64) = k" using k by (simp add: unat_of_nat)
    have "(of_nat k :: u64) \<le> h" using kh u by (simp add: word_le_nat_alt)
    then have le: "h - of_nat k \<le> rw_high w" using h u by (simp add: word_le_nat_alt unat_minus_nowrap)
    show ?thesis
      using le by (auto simp: P_def Let_def receipts_def marked_def word_less_nat_alt maxPackets_def unat_div unat_mod
          bit_iff_and_push_bit_not_eq_0)
  qed
  then show "bit (bitmap w h ! (k div 64)) (k mod 64) \<longleftrightarrow> k < unat h \<and> h - of_nat k \<in> receipts w"
    using f k by (auto simp: min_def)
qed

text \<open>What the sender reads in the bitmap is what the receiver marked, in the range reported.\<close>

lemma bitmap_received:
  assumes h: "h \<le> rw_high w"
  shows "ack_covers (h, bitmap w h) s \<longleftrightarrow> s \<noteq> 0 \<and> s \<le> h \<and> unat (h - s) < ackReceiptBits \<and> s \<in> receipts w"
proof -
  define k where "k = unat (h - s)"
  have len: "length (bitmap w h) * 64 = ackReceiptBits" using bitmap_bits(1) [OF h] by simp
  have big: "h - s \<ge> of_nat ackReceiptBits \<longleftrightarrow> \<not> k < ackReceiptBits" by (simp add: word_le_nat_alt k_def not_less)
  have w64: "unat ((h - s) div 64) = k div 64" "unat ((h - s) mod 64) = k mod 64" by (simp_all add: k_def unat_div unat_mod)
  have c: "ack_covers (h, bitmap w h) s \<longleftrightarrow>
    \<not> (s = 0 \<or> s > h \<or> \<not> k < ackReceiptBits) \<and> bit (bitmap w h ! (k div 64)) (k mod 64)"
    unfolding ack_covers_def received_def
    by (simp only: acknowledgement.simps fst_conv snd_conv len big w64 Let_def bit_iff_and_push_bit_not_eq_0 if_bool_eq_conj simp_thms) blast
  have "k < unat h \<and> h - of_nat k = s" if "s \<noteq> 0" "s \<le> h"
  proof -
    have "unat s > 0" using that(1) by (simp add: unat_gt_0)
    then show ?thesis using that(2) by (simp add: k_def unat_minus_nowrap word_le_nat_alt)
  qed
  then show ?thesis unfolding c using bitmap_bits(2) [OF h, of k] by (auto simp: k_def not_less)
qed

lemma forget_spec:
  assumes ok: "rw_ok w"
  shows "receipts (forgetThrough w h) = {s \<in> receipts w. h < s}"
    and "rw_high (forgetThrough w h) = rw_high w" and "rw_ok (forgetThrough w h)"
proof -
  have len: "length (rw_mask w) = maskWords" using ok by (simp add: rw_ok_def)
  define D where "D = unat (rw_high w - h)"
  have mk: "marked (forgetThrough w h) e \<longleftrightarrow> marked w e \<and> h < rw_high w \<and> e < D" for e
  proof -
    consider (all) "h \<ge> rw_high w" | (far) "h < rw_high w" "D \<ge> maxPackets" | (near) "h < rw_high w" "D < maxPackets"
      by (meson not_le)
    then show ?thesis
    proof cases
      case all
      then show ?thesis using len by (auto simp: forgetThrough_def marked_def div64_less)
    next
      case far
      then have "\<not> rw_high w - h < of_nat maxPackets" by (simp add: D_def word_less_nat_alt maxPackets_def)
      then show ?thesis using far by (auto simp: forgetThrough_def marked_def Let_def)
    next
      case near
      have c: "rw_high w - h < of_nat maxPackets" using near by (simp add: D_def word_less_nat_alt maxPackets_def)
      have w64: "unat ((rw_high w - h) div 64) = D div 64" "unat ((rw_high w - h) mod 64) = D mod 64" by (simp_all add: D_def unat_div unat_mod)
      have f: "rw_mask (forgetThrough w h) = take (D div 64) (rw_mask w) @
          [(rw_mask w ! (D div 64)) AND mask (D mod 64)] @ replicate (maskWords - (D div 64 + 1)) 0"
        using near(1) c by (simp add: forgetThrough_def Let_def w64 len mask_eq_exp_minus_1 push_bit_of_1)
      have D: "D div 64 < maskWords" by (rule div64_less [OF near(2)])
      consider "e div 64 < D div 64" | "e div 64 = D div 64" | "e div 64 > D div 64" by linarith
      then show ?thesis
      proof cases
        case 1
        then have "e < D" by (metis div_le_mono not_le)
        then show ?thesis using 1 near D by (auto simp: marked_def f len nth_append)
      next
        case 2
        then have "e < D \<longleftrightarrow> e mod 64 < D mod 64" by (metis add_less_cancel_left div_mult_mod_eq)
        then show ?thesis using 2 near D by (auto simp: marked_def f len nth_append bit_and_iff bit_mask_iff)
      next
        case 3
        then have "\<not> e < D" by (metis div_le_mono not_le less_imp_le)
        moreover have "e < maxPackets \<Longrightarrow> e div 64 - Suc (D div 64) < maskWords - Suc (D div 64)"
          using div64_less [of e] 3 by linarith
        ultimately show ?thesis using 3 near D by (auto simp: marked_def f len nth_append nth_Cons')
      qed
    qed
  qed
  show hi: "rw_high (forgetThrough w h) = rw_high w" by (simp add: forgetThrough_def Let_def)
  have "h < rw_high w \<and> unat (rw_high w - s) < D \<longleftrightarrow> h < s" if "s \<le> rw_high w" for s
    using that by (auto simp: D_def unat_minus_nowrap word_le_nat_alt word_less_nat_alt)
  then show "receipts (forgetThrough w h) = {s \<in> receipts w. h < s}" by (auto simp: receipts_def hi mk)
  have "length (rw_mask (forgetThrough w h)) = maskWords"
    using len by (auto simp: forgetThrough_def Let_def word_less_nat_alt unat_div maxPackets_def)
  then show "rw_ok (forgetThrough w h)" using ok by (auto simp: rw_ok_def hi mk)
qed

text \<open>
  The two windows share their highest sequence, the unreported receipts are receipts, and every
  receipt still in the window is unreported or was covered by a report.
\<close>

definition windows_ok :: "windows \<Rightarrow> bool" where
  "windows_ok = (\<lambda>(r, u). rw_ok r \<and> rw_ok u \<and> rw_high u = rw_high r \<and> receipts u \<subseteq> receipts r \<and> 0 \<notin> receipts r)"

definition accounted :: "windows \<Rightarrow> (u64 \<times> u64 list) list \<Rightarrow> bool" where
  "accounted = (\<lambda>(r, u) reps. \<forall>s \<in> receipts r. s \<in> receipts u \<or> (\<exists>a \<in> set reps. ack_covers a s))"

lemma note_receipt_ok:
  assumes ok: "windows_ok (r, u)" and s: "s \<noteq> 0"
  shows "windows_ok (snd (note_receipt (r, u) s))"
    and "accounted (r, u) reps \<Longrightarrow> accounted (snd (note_receipt (r, u) s)) reps"
    and "fst (note_receipt (r, u) s) \<longleftrightarrow> fst (mark r s)"
    and "fst (snd (note_receipt (r, u) s)) = snd (mark r s)"
proof -
  have o: "rw_ok r" "rw_ok u" "rw_high u = rw_high r" "receipts u \<subseteq> receipts r" "0 \<notin> receipts r"
    using ok by (auto simp: windows_ok_def)
  note same = mark_same [OF o(1), of s]
  show "fst (note_receipt (r, u) s) \<longleftrightarrow> fst (mark r s)" "fst (snd (note_receipt (r, u) s)) = snd (mark r s)"
    by (simp_all add: note_receipt_def case_prod_beta Let_def)
  show "windows_ok (snd (note_receipt (r, u) s))"
    using o s same by (auto simp: note_receipt_def windows_ok_def case_prod_beta Let_def mark_keeps high_mark receipts_mark)
  show "accounted (snd (note_receipt (r, u) s)) reps" if "accounted (r, u) reps"
    using that o same
    by (auto simp: note_receipt_def accounted_def case_prod_beta Let_def high_mark receipts_mark split: if_splits)
qed

lemma anchor_bounds:
  assumes ok: "windows_ok (r, u)" and s: "s \<in> receipts u"
  shows "ack_anchor r u \<le> rw_high r" and "oldest u \<le> s" and "oldest u \<le> ack_anchor r u"
    and "unat (ack_anchor r u - oldest u) < ackReceiptBits"
    and "ack_anchor r u < s \<Longrightarrow> unat (ack_anchor r u) + 1 = unat (oldest u) + ackReceiptBits"
proof -
  have o: "rw_ok r" "rw_ok u" "rw_high u = rw_high r" "receipts u \<subseteq> receipts r" "0 \<notin> receipts r"
    using ok by (auto simp: windows_ok_def)
  have old: "oldest u \<in> receipts u" "oldest u \<le> s" using oldest_spec(2) [OF o(2)] s by auto
  have mem: "oldest u \<in> receipts r" "s \<in> receipts r" using old(1) s o(4) by blast+
  have hi: "oldest u \<le> rw_high r" and sh: "s \<le> rw_high r" using mem by (simp_all add: receipts_def)
  have nz: "oldest u \<noteq> 0" using mem(1) o(5) by metis
  define m where "m = min (of_nat (ackReceiptBits - 1)) (rw_high r - oldest u)"
  have a: "ack_anchor r u = oldest u + m" using nz by (simp add: ack_anchor_def m_def Let_def)
  have um: "unat m = min (ackReceiptBits - 1) (unat (rw_high r) - unat (oldest u))"
    using hi by (simp add: m_def min_def word_le_nat_alt unat_minus_nowrap)
  have "unat (oldest u) + unat m \<le> unat (rw_high r)" using um hi by (simp add: word_le_nat_alt)
  then have ua: "unat (ack_anchor r u) = unat (oldest u) + unat m"
    unfolding a using unat_u64_less [of "rw_high r"] by (simp add: unat_plus_nowrap)
  show "ack_anchor r u \<le> rw_high r" "oldest u \<le> s" "oldest u \<le> ack_anchor r u"
    using ua um hi old(2) by (auto simp: word_le_nat_alt)
  show "unat (ack_anchor r u - oldest u) < ackReceiptBits" using um by (simp add: a)
  show "unat (ack_anchor r u) + 1 = unat (oldest u) + ackReceiptBits" if "ack_anchor r u < s"
    using that ua um hi sh by (auto simp: word_le_nat_alt word_less_nat_alt)
qed

lemma report_ok:
  assumes ok: "windows_ok (r, u)"
  shows "windows_ok (snd (report (r, u)))"
    and "receipts (snd (snd (report (r, u)))) = {s \<in> receipts u. ack_anchor r u < s}"
    and "accounted (r, u) reps \<Longrightarrow> accounted (snd (report (r, u))) (reps @ [fst (report (r, u))])"
    and "fst (snd (report (r, u))) = r"
    and "s \<in> receipts u \<Longrightarrow> \<not> ack_anchor r u < s \<Longrightarrow> ack_covers (fst (report (r, u))) s"
proof -
  have o: "rw_ok r" "rw_ok u" "rw_high u = rw_high r" "receipts u \<subseteq> receipts r" "0 \<notin> receipts r"
    using ok by (auto simp: windows_ok_def)
  show e: "receipts (snd (snd (report (r, u)))) = {s \<in> receipts u. ack_anchor r u < s}" and "fst (snd (report (r, u))) = r"
    by (simp_all add: report_def Let_def forget_spec [OF o(2)])
  then show "windows_ok (snd (report (r, u)))"
    using o by (auto simp: report_def windows_ok_def Let_def forget_spec [OF o(2)])
  show cov: "ack_covers (fst (report (r, u))) s" if s: "s \<in> receipts u" "\<not> ack_anchor r u < s" for s
  proof -
    note b = anchor_bounds [OF ok s(1)]
    have "unat (ack_anchor r u - s) \<le> unat (ack_anchor r u - oldest u)"
      using s(2) b(2,3) by (simp add: unat_minus_nowrap word_le_nat_alt not_less)
    then show ?thesis
      using s o(4,5) b(1,4) by (auto simp: report_def Let_def bitmap_received [OF b(1)] not_less)
  qed
  show "accounted (snd (report (r, u))) (reps @ [fst (report (r, u))])" if "accounted (r, u) reps"
    using that e cov by (fastforce simp: accounted_def report_def Let_def)
qed

fun arrivals :: "receipt_op list \<Rightarrow> u64 list" where
  "arrivals [] = []"
| "arrivals (Arrived s # ops) = s # arrivals ops"
| "arrivals (Report # ops) = arrivals ops"

lemma receipt_run_ok:
  assumes "windows_ok w" and "accounted w reps" and "0 \<notin> set (arrivals ops)"
  shows "windows_ok (snd (snd (receipt_run w ops))) \<and>
    accounted (snd (snd (receipt_run w ops))) (reps @ fst (snd (receipt_run w ops))) \<and>
    fst (snd (snd (receipt_run w ops))) = marks (fst w) (arrivals ops)"
  using assms
proof (induction w ops arbitrary: reps rule: receipt_run.induct)
  case (2 w seq ops)
  obtain r u where w: "w = (r, u)" by fastforce
  have "seq \<noteq> 0" using "2.prems" by auto
  note n = note_receipt_ok [OF "2.prems"(1) [unfolded w] this]
  show ?case
    using "2.IH" [OF refl prod.collapse n(1) [folded w] n(2) [folded w, OF "2.prems"(2)]] "2.prems"(3) n(4)
    by (simp add: case_prod_beta Let_def marks_def w)
next
  case (3 w ops)
  obtain r u where w: "w = (r, u)" by fastforce
  note n = report_ok [OF "3.prems"(1) [unfolded w]]
  show ?case
    using "3.IH" [OF refl prod.collapse n(1) [folded w] n(3) [folded w, OF "3.prems"(2)]] "3.prems"(3) n(4)
    by (simp add: case_prod_beta Let_def w)
qed (simp add: marks_def)

lemma receipt_run_append:
  "receipt_run w (xs @ ys) =
     (let (acc, reps, w) = receipt_run w xs; (acc', reps', w) = receipt_run w ys in (acc @ acc', reps @ reps', w))"
proof (induction xs arbitrary: w)
  case (Cons x xs)
  then show ?case by (cases x) (simp_all add: case_prod_beta Let_def)
qed simp

lemma windows_ok_empty: "windows_ok (no_receipts, no_receipts)" "accounted (no_receipts, no_receipts) []"
  by (simp_all add: windows_ok_def accounted_def)

text \<open>
  A set of sequences that \<open>n\<close> bitmaps cover, wherever they are anchored. A report takes away one of
  them, an arrival adds at most one.
\<close>

definition coverable :: "nat \<Rightarrow> nat set \<Rightarrow> bool" where
  "coverable n U \<longleftrightarrow> (\<exists>X. finite X \<and> card X \<le> n \<and> (\<forall>y \<in> U. \<exists>x \<in> X. x \<le> y \<and> y < x + ackReceiptBits))"

lemma coverable_none: "coverable 0 U \<Longrightarrow> U = {}"
  by (auto simp: coverable_def)

lemma coverable_add: "coverable n U \<Longrightarrow> V \<subseteq> insert y U \<Longrightarrow> coverable (Suc n) V"
proof -
  assume "coverable n U" and V: "V \<subseteq> insert y U"
  then obtain X where X: "finite X" "card X \<le> n" "\<forall>y \<in> U. \<exists>x \<in> X. x \<le> y \<and> y < x + ackReceiptBits" by (auto simp: coverable_def)
  have "card (insert y X) \<le> Suc n" using X(1,2) by (simp add: card_insert_if)
  then show ?thesis unfolding coverable_def using X(1,3) V by (intro exI [of _ "insert y X"]) auto
qed

lemma coverable_subset: "coverable n U \<Longrightarrow> V \<subseteq> U \<Longrightarrow> coverable n V"
  unfolding coverable_def by blast

lemma coverable_take:
  assumes c: "coverable n U" and o: "y \<in> U" "\<forall>z \<in> V. z \<in> U \<and> y + ackReceiptBits \<le> z"
  shows "0 < n" and "coverable (n - 1) V"
proof -
  obtain X where X: "finite X" "card X \<le> n" "\<forall>y \<in> U. \<exists>x \<in> X. x \<le> y \<and> y < x + ackReceiptBits" using c by (auto simp: coverable_def)
  obtain x where x: "x \<in> X" "x \<le> y" "y < x + ackReceiptBits" using X(3) o(1) by blast
  have "card X > 0" using X(1) x(1) by (auto simp: card_gt_0_iff)
  then show "0 < n" using X(2) by simp
  have "\<exists>w \<in> X - {x}. w \<le> z \<and> z < w + ackReceiptBits" if "z \<in> V" for z
  proof -
    have z: "z \<in> U" "y + ackReceiptBits \<le> z" using o(2) that by simp_all
    from bspec [OF X(3) z(1)] obtain w where w: "w \<in> X" "w \<le> z" "z < w + ackReceiptBits" by auto
    then have "w \<noteq> x" using z(2) x(2) by linarith
    then show ?thesis using w by auto
  qed
  moreover have "card (X - {x}) \<le> n - 1" using X(1,2) x(1) by (simp add: card_Diff_singleton)
  ultimately show "coverable (n - 1) V" unfolding coverable_def using X(1) by (intro exI [of _ "X - {x}"]) simp
qed

lemma coverable_window: "\<forall>y \<in> U. y \<le> h \<and> h < y + maxPackets \<Longrightarrow> coverable 32 U"
proof -
  assume U: "\<forall>y \<in> U. y \<le> h \<and> h < y + maxPackets"
  define b where "b = h - (maxPackets - 1)"
  let ?X = "(\<lambda>i. b + ackReceiptBits * i) ` {..<32}"
  have "\<exists>x \<in> ?X. x \<le> y \<and> y < x + ackReceiptBits" if "y \<in> U" for y
  proof -
    have y: "b \<le> y" "y < b + ackReceiptBits * 32" using U that by (auto simp: b_def maxPackets_def)
    then have "(y - b) div ackReceiptBits < 32" by (simp add: less_mult_imp_div_less)
    moreover have "b + ackReceiptBits * ((y - b) div ackReceiptBits) \<le> y \<and> y < b + ackReceiptBits * ((y - b) div ackReceiptBits) + ackReceiptBits"
      using y(1) div_mult_mod_eq [of "y - b" ackReceiptBits] mod_less_divisor [of ackReceiptBits "y - b"] by simp linarith
    ultimately show ?thesis by blast
  qed
  moreover have "card ?X \<le> 32" using card_image_le [of "{..<32 :: nat}" "\<lambda>i. b + ackReceiptBits * i"] by simp
  ultimately show ?thesis unfolding coverable_def by (intro exI [of _ ?X]) blast
qed

text \<open>The unreported receipts up to \<open>s\<close>.\<close>

definition owed :: "windows \<Rightarrow> u64 \<Rightarrow> nat set" where
  "owed w s = unat ` {x \<in> receipts (snd w). x \<le> s}"

lemma owed_arrival:
  assumes ok: "windows_ok w" and s: "s \<in> receipts (snd w)" and e: "e \<noteq> 0" "e \<le> s \<or> unat (e - s) < maxPackets"
  defines "w' \<equiv> snd (note_receipt w e)"
  shows "s \<in> receipts (snd w')" and "owed w' s \<subseteq> (if e < s then insert (unat e) (owed w s) else owed w s)"
proof -
  obtain r u where w: "w = (r, u)" by fastforce
  have o: "rw_ok u" "rw_high u = rw_high r" using ok by (simp_all add: w windows_ok_def)
  have u': "snd w' = (if fst (mark r e) then snd (mark u e) else u)" by (simp add: w'_def w note_receipt_def case_prod_beta Let_def)
  have sw: "s \<le> rw_high u" "unat (rw_high u - s) < maxPackets" using s by (simp_all add: w receipts_def marked_def)
  have "in_window (max (rw_high u) e) s"
  proof (cases "e \<le> rw_high u")
    case True
    then show ?thesis using sw by (simp add: in_window_def max_absorb1)
  next
    case False
    then have "\<not> e \<le> s" "s \<le> e" using sw(1) by simp_all
    then show ?thesis using False e(2) by (simp add: in_window_def max_absorb2)
  qed
  then show "s \<in> receipts (snd w')" using s by (simp add: u' w receipts_mark [OF o(1)])
  have "receipts (snd w') \<subseteq> insert e (receipts u)" by (auto simp: u' receipts_mark [OF o(1)])
  then show "owed w' s \<subseteq> (if e < s then insert (unat e) (owed w s) else owed w s)"
    using s by (auto simp: owed_def w)
qed

lemma owed_report:
  assumes ok: "windows_ok (r, u)" and s: "s \<in> receipts u" and a: "ack_anchor r u < s" and c: "coverable n (owed (r, u) s)"
  shows "s \<in> receipts (snd (snd (report (r, u))))" and "0 < n" and "coverable (n - 1) (owed (snd (report (r, u))) s)"
proof -
  have "rw_ok u" using ok by (simp add: windows_ok_def)
  then have old: "oldest u \<in> receipts u" using oldest_spec(2) [of u] s by blast
  note b = anchor_bounds [OF ok s]
  have o: "unat (oldest u) \<in> owed (r, u) s" using old b(2) by (simp add: owed_def)
  have late: "\<forall>z \<in> owed (snd (report (r, u))) s. z \<in> owed (r, u) s \<and> unat (oldest u) + ackReceiptBits \<le> z"
    using b(5) [OF a] report_ok(2) [OF ok] by (auto simp: owed_def word_less_nat_alt)
  show "s \<in> receipts (snd (snd (report (r, u))))" using s a report_ok(2) [OF ok] by simp
  show "0 < n" "coverable (n - 1) (owed (snd (report (r, u))) s)" using coverable_take [OF c o late] by blast+
qed

definition reports :: "receipt_op list \<Rightarrow> nat" where
  "reports ops = length (filter (\<lambda>x. x = Report) ops)"

lemma reported_later:
  assumes "windows_ok w" and "s \<in> receipts (snd w)" and "coverable n (owed w s)" and "0 \<notin> set (arrivals ops)"
    and "\<forall>e \<in> set (arrivals ops). e \<le> s \<or> unat (e - s) < maxPackets"
    and "n + length (filter (\<lambda>e. e < s) (arrivals ops)) \<le> reports ops"
  shows "\<exists>a \<in> set (fst (snd (receipt_run w ops))). ack_covers a s"
  using assms
proof (induction w ops arbitrary: n rule: receipt_run.induct)
  case (1 w)
  then have "n = 0" by (simp add: reports_def)
  then show ?case using "1.prems"(2,3) coverable_none by (fastforce simp: owed_def)
next
  case (2 w e ops)
  obtain r u where w: "w = (r, u)" by fastforce
  have e: "e \<noteq> 0" "e \<le> s \<or> unat (e - s) < maxPackets" using "2.prems"(4,5) by auto
  note a = owed_arrival [OF "2.prems"(1,2) e]
  have ok: "windows_ok (snd (note_receipt w e))" using note_receipt_ok(1) [OF "2.prems"(1) [unfolded w] e(1)] by (simp add: w)
  define m where "m = (if e < s then Suc n else n)"
  have "coverable m (owed (snd (note_receipt w e)) s)"
    using a(2) coverable_add [OF "2.prems"(3)] coverable_subset [OF "2.prems"(3)] by (auto simp: m_def split: if_splits)
  from "2.IH" [OF refl prod.collapse ok a(1) this] show ?case
    using "2.prems"(4-6) by (auto simp: m_def reports_def case_prod_beta Let_def split: if_splits)
next
  case (3 w ops)
  obtain r u where w: "w = (r, u)" by fastforce
  note ok = "3.prems"(1) [unfolded w] and s = "3.prems"(2) [unfolded w snd_conv]
  show ?case
  proof (cases "ack_anchor r u < s")
    case False
    then show ?thesis using report_ok(5) [OF ok s] by (simp add: w case_prod_beta Let_def)
  next
    case True
    note o = owed_report [OF ok s True "3.prems"(3) [unfolded w], folded w]
    from "3.IH" [OF refl prod.collapse report_ok(1) [OF ok, folded w] o(1,3)] show ?thesis
      using "3.prems"(4-6) o(2) by (auto simp: reports_def case_prod_beta Let_def)
  qed
qed

text \<open>
  C20: Every datagram received is reported after it arrived: whatever arrived and was acknowledged
  before it, one of the next 32 acknowledgements covers it as the sender reads it, or one of as many
  more as older datagrams arrive meanwhile, as long as it stays within the window.
\<close>

theorem receipts_reported:
  assumes past: "w = snd (snd (receipt_run (no_receipts, no_receipts) past))" "0 \<notin> set (arrivals past)"
    and new: "note_receipt w s = (True, w')" "s \<noteq> 0"
    and later: "0 \<notin> set (arrivals ops)" "\<forall>e \<in> set (arrivals ops). e \<le> s \<or> unat (e - s) < maxPackets"
    and enough: "32 + length (filter (\<lambda>e. e < s) (arrivals ops)) \<le> reports ops"
  shows "\<exists>a \<in> set (fst (snd (receipt_run w' ops))). ack_covers a s"
proof -
  obtain r u where w: "w = (r, u)" by fastforce
  have ok: "windows_ok (r, u)" using receipt_run_ok [OF windows_ok_empty past(2)] past(1) w by simp
  have ok': "windows_ok w'" using note_receipt_ok(1) [OF ok new(2)] new(1) by (simp add: w)
  have o: "rw_ok r" "rw_ok u" "rw_high u = rw_high r" using ok by (simp_all add: windows_ok_def)
  have "fst (mark r s)" and u': "snd w' = snd (mark u s)"
    using new(1) by (auto simp: w note_receipt_def case_prod_beta Let_def split: if_splits)
  then have "in_window (max (rw_high u) s) s" using mark_accepts [OF o(1)] o(3) by simp
  then have s: "s \<in> receipts (snd w')" by (simp add: u' receipts_mark [OF o(2)])
  have "y \<le> unat (rw_high (snd w')) \<and> unat (rw_high (snd w')) < y + maxPackets" if "y \<in> owed w' s" for y
    using that by (auto simp: owed_def receipts_def marked_def word_le_nat_alt unat_minus_nowrap)
  then have "coverable 32 (owed w' s)" by (intro coverable_window [of _ "unat (rw_high (snd w'))"]) blast
  from reported_later [OF ok' s this later enough] show ?thesis .
qed

theorem receipts_reported_witness:
  "\<exists>w'. note_receipt (snd (snd (receipt_run (no_receipts, no_receipts) [Arrived 5, Report]))) 900 = (True, w') \<and>
    (\<exists>a \<in> set (fst (snd (receipt_run w' ([Arrived 3, Report, Arrived 1000] @ replicate 32 Report)))). ack_covers a 900)"
proof -
  define w where "w = snd (snd (receipt_run (no_receipts, no_receipts) [Arrived 5, Report]))"
  have "fst w = marks no_receipts [5]" using receipt_run_ok [OF windows_ok_empty, of "[Arrived 5, Report]"] by (simp add: w_def)
  moreover have "fst (mark (marks no_receipts [5]) 900)" by (simp add: marks_accept)
  ultimately obtain w' where w': "note_receipt w 900 = (True, w')" by (cases w) (simp add: note_receipt_def case_prod_beta Let_def)
  have a: "arrivals (replicate k Report) = []" "reports (replicate k Report) = k" for k by (induction k) (simp_all add: reports_def)
  have "\<exists>a \<in> set (fst (snd (receipt_run w' ([Arrived 3, Report, Arrived 1000] @ replicate 32 Report)))). ack_covers a 900"
    using a [of 32] by (intro receipts_reported [OF w_def _ w']) (simp_all add: maxPackets_def reports_def)
  then show ?thesis using w' by (auto simp: w_def)
qed

end
