(* ===== verification/Meters.thy ===== *)
theory Meters
  imports Go_Numbers
begin

text \<open>
  The measuring devices of a lane: the rate meter of internal/bond/schedule.go, and the loss
  ledger, the delivery memory and the peak of internal/bond/control.go. Reading a meter at an
  instant first rotates its buckets to it, so a reading returns the value and the rotated meter.
\<close>

section \<open>Definitions\<close>

subsection \<open>Rate meter\<close>

definition meterBucket :: duration where "meterBucket = 200 * millisecond"
definition meterBuckets :: nat where "meterBuckets = 5"

record rate_meter =
  rm_start :: instant
  rm_buckets :: "rat list"
  rm_index :: nat

definition rate_meter_zero :: rate_meter where
  "rate_meter_zero = \<lparr>rm_start = zero_time, rm_buckets = replicate meterBuckets 0, rm_index = 0\<rparr>"

function rm_advance :: "rate_meter \<Rightarrow> instant \<Rightarrow> rate_meter" where
  "rm_advance m now =
     (if time_sub now (rm_start m) \<ge> meterBucket then
        let i = (rm_index m + 1) mod meterBuckets
        in rm_advance \<lparr>rm_start = rm_start m + meterBucket, rm_buckets = (rm_buckets m)[i := 0], rm_index = i\<rparr> now
      else m)"
  by pat_completeness auto
termination
  by (relation "measure (\<lambda>(m, now). nat (now - rm_start m))")
    (auto simp: time_sub_def meterBucket_def millisecond_def split: if_splits)

declare rm_advance.simps [simp del]

definition rm_rotate :: "rate_meter \<Rightarrow> instant \<Rightarrow> rate_meter" where
  "rm_rotate m now =
     (if rm_start m = zero_time \<or> time_sub now (rm_start m) \<ge> int meterBuckets * meterBucket
      then rate_meter_zero\<lparr>rm_start := now\<rparr>
      else rm_advance m now)"

definition rm_add :: "rate_meter \<Rightarrow> instant \<Rightarrow> rat \<Rightarrow> rate_meter" where
  "rm_add m now bytes =
     (let m = rm_rotate m now
      in m\<lparr>rm_buckets := (rm_buckets m)[rm_index m := rm_buckets m ! rm_index m + bytes]\<rparr>)"

definition rm_rate :: "rate_meter \<Rightarrow> instant \<Rightarrow> rat \<times> rate_meter" where
  "rm_rate m now =
     (let m = rm_rotate m now
      in (foldl max 0 (rm_buckets m) / Seconds meterBucket, m))"

definition rm_steady :: "rate_meter \<Rightarrow> instant \<Rightarrow> bool \<times> rate_meter" where
  "rm_steady m now =
     (let m = rm_rotate m now
      in (\<forall>i \<in> set [0..<length (rm_buckets m)]. \<not> (rm_buckets m ! i = 0 \<and> i \<noteq> rm_index m), m))"

subsection \<open>Peak\<close>

definition peakBucket :: duration where "peakBucket = 2 * second"
definition peakBuckets :: nat where "peakBuckets = 5"

record peak =
  pe_bucket :: duration
  pe_start :: instant
  pe_buckets :: "rat list"
  pe_index :: nat

definition new_peak :: "duration \<Rightarrow> peak" where
  "new_peak bucket = \<lparr>pe_bucket = bucket, pe_start = zero_time, pe_buckets = replicate peakBuckets 0, pe_index = 0\<rparr>"

definition pe_length :: "peak \<Rightarrow> duration" where
  "pe_length m = (if pe_bucket m = 0 then peakBucket else pe_bucket m)"

text \<open>The bucket length is positive in every peak the transport makes; the loop is read for such lengths.\<close>

function pe_advance :: "peak \<Rightarrow> duration \<Rightarrow> instant \<Rightarrow> peak" where
  "pe_advance m bucket now =
     (if 0 < bucket \<and> time_sub now (pe_start m) \<ge> bucket then
        let i = (pe_index m + 1) mod peakBuckets
        in pe_advance (m\<lparr>pe_start := pe_start m + bucket, pe_buckets := (pe_buckets m)[i := 0], pe_index := i\<rparr>) bucket now
      else m)"
  by pat_completeness auto
termination
  by (relation "measure (\<lambda>(m, bucket, now). nat (now - pe_start m))") (auto simp: time_sub_def split: if_splits)

declare pe_advance.simps [simp del]

definition pe_rotate :: "peak \<Rightarrow> instant \<Rightarrow> peak" where
  "pe_rotate m now =
     (let bucket = pe_length m
      in if pe_start m = zero_time \<or> time_sub now (pe_start m) \<ge> int peakBuckets * bucket
         then (new_peak (pe_bucket m))\<lparr>pe_start := now\<rparr>
         else pe_advance m bucket now)"

definition pe_record :: "peak \<Rightarrow> instant \<Rightarrow> rat \<Rightarrow> peak" where
  "pe_record m now v =
     (let m = pe_rotate m now
      in m\<lparr>pe_buckets := (pe_buckets m)[pe_index m := max (pe_buckets m ! pe_index m) v]\<rparr>)"

definition pe_value :: "peak \<Rightarrow> instant \<Rightarrow> rat \<times> peak" where
  "pe_value m now = (let m = pe_rotate m now in (foldl max 0 (pe_buckets m), m))"

subsection \<open>Sustained delivery\<close>

definition sustainedSpan :: duration where "sustainedSpan = 500 * millisecond"
definition sustainedMemory :: duration where "sustainedMemory = 500 * millisecond"

record delivery_mark =
  dm_bytes :: u64
  dm_elapsed :: u64

record sustained_delivery =
  sd_marks :: "delivery_mark list"
  sd_best :: peak

fun drop_marks :: "u64 \<Rightarrow> delivery_mark list \<Rightarrow> delivery_mark list" where
  "drop_marks elapsed (m # m' # ms) =
     (if elapsed - dm_elapsed m' \<ge> word_of_int sustainedSpan then drop_marks elapsed (m' # ms) else m # m' # ms)"
| "drop_marks elapsed ms = ms"

definition sd_record :: "sustained_delivery \<Rightarrow> instant \<Rightarrow> u64 \<Rightarrow> u64 \<Rightarrow> sustained_delivery" where
  "sd_record d now bytes elapsed =
     (let d = d\<lparr>sd_marks := drop_marks elapsed (sd_marks d @ [\<lparr>dm_bytes = bytes, dm_elapsed = elapsed\<rparr>])\<rparr>;
          old = sd_marks d ! 0
      in if elapsed - dm_elapsed old \<ge> word_of_int sustainedSpan
         then d\<lparr>sd_best := pe_record (sd_best d) now
                (of_nat (unat (bytes - dm_bytes old)) / Seconds (sint (elapsed - dm_elapsed old)))\<rparr>
         else d)"

definition sd_value :: "sustained_delivery \<Rightarrow> instant \<Rightarrow> rat \<times> sustained_delivery" where
  "sd_value d now = (let (v, best) = pe_value (sd_best d) now in (v, d\<lparr>sd_best := best\<rparr>))"

subsection \<open>Loss ledger\<close>

definition lossHorizon :: duration where "lossHorizon = second"
definition lossSettle :: duration where "lossSettle = 200 * millisecond"
definition maxLossHorizon :: duration where "maxLossHorizon = 4 * second"
definition startupLossEvents :: rat where "startupLossEvents = 3"
definition startupLossRatio :: rat where "startupLossRatio = 2 / 100"

record loss_entry =
  le_at :: instant
  le_seq :: u64
  le_sent :: u64
  le_deficit :: rat

record loss_ledger =
  ll_entries :: "loss_entry list"
  ll_floor :: rat

definition loss_ledger_zero :: loss_ledger where
  "loss_ledger_zero = \<lparr>ll_entries = [], ll_floor = 0\<rparr>"

definition ll_record :: "loss_ledger \<Rightarrow> instant \<Rightarrow> u64 \<Rightarrow> u64 \<Rightarrow> u64 \<Rightarrow> u64 \<Rightarrow> loss_ledger" where
  "ll_record l now seq sent recvd late =
     (let es = dropWhile (\<lambda>e. time_sub now (le_at e) \<ge> maxLossHorizon + 2 * lossSettle) (ll_entries l);
          l = l\<lparr>ll_entries := es\<rparr>;
          n = length es
      in if n > 0 \<and> seq \<le> le_seq (es ! (n - 1)) then l
         else l\<lparr>ll_entries := es @ [\<lparr>le_at = now, le_seq = seq, le_sent = sent,
                  le_deficit = max (ll_floor l) (of_nat (unat sent) - of_nat (unat recvd) - of_nat (unat late))\<rparr>]\<rparr>)"

definition ll_settled :: "loss_ledger \<Rightarrow> instant \<Rightarrow> (rat \<times> bool) \<times> loss_ledger" where
  "ll_settled l now =
     (let (deficit, known) = foldl (\<lambda>(deficit, known) e.
            if time_sub now (le_at e) < lossSettle \<and> (\<not> known \<or> le_deficit e < deficit)
            then (le_deficit e, True) else (deficit, known)) (0, False) (ll_entries l)
      in ((deficit, known), if known then l\<lparr>ll_floor := max (ll_floor l) deficit\<rparr> else l))"

text \<open>The entry of lowest deficit, the earliest of them, among those whose age is in a range.\<close>

definition lowest_entry :: "(duration \<Rightarrow> bool) \<Rightarrow> loss_entry list \<Rightarrow> instant \<Rightarrow> loss_entry option" where
  "lowest_entry age es now =
     foldl (\<lambda>r e. if age (time_sub now (le_at e)) \<and> (r = None \<or> le_deficit e < le_deficit (the r))
                  then Some e else r) None es"

definition horizons :: "duration list" where
  "horizons = map (\<lambda>i. lossHorizon + int i * lossSettle)
     [0..<nat ((maxLossHorizon - lossHorizon) div lossSettle) + 1]"

fun lost_over :: "duration list \<Rightarrow> loss_entry list \<Rightarrow> loss_entry \<Rightarrow> instant \<Rightarrow> rat \<times> rat \<times> rat" where
  "lost_over [] es recent now = (0, 0, 0)"
| "lost_over (horizon # hs) es recent now =
     (case lowest_entry (\<lambda>age. age \<ge> horizon \<and> age < horizon + lossSettle) es now of
        None \<Rightarrow> lost_over hs es recent now
      | Some old \<Rightarrow>
          if le_seq recent \<le> le_seq old then lost_over hs es recent now
          else
            let datagrams = of_nat (unat (le_seq recent - le_seq old))
            in if datagrams \<ge> startupLossEvents / startupLossRatio \<or> horizon + lossSettle > maxLossHorizon
               then (max 0 (le_deficit recent - le_deficit old), of_nat (unat (le_sent recent - le_sent old)), datagrams)
               else lost_over hs es recent now)"

definition ll_lost :: "loss_ledger \<Rightarrow> instant \<Rightarrow> rat \<times> rat \<times> rat" where
  "ll_lost l now =
     (case lowest_entry (\<lambda>age. age < lossSettle) (ll_entries l) now of
        None \<Rightarrow> (0, 0, 0)
      | Some recent \<Rightarrow> lost_over horizons (ll_entries l) recent now)"

definition ll_material :: "loss_ledger \<Rightarrow> instant \<Rightarrow> bool" where
  "ll_material l now =
     (let (lost, sent, datagrams) = ll_lost l now
      in datagrams > 0 \<and> lost \<ge> startupLossEvents * sent / datagrams \<and> lost \<ge> startupLossRatio * sent)"

section \<open>What a peak remembers\<close>

definition peak_run :: "peak \<Rightarrow> (instant \<times> rat) list \<Rightarrow> peak" where
  "peak_run m hist = foldl (\<lambda>m (t, v). pe_record m t v) m hist"

definition best :: "(instant \<times> rat) list \<Rightarrow> (instant \<Rightarrow> bool) \<Rightarrow> rat" where
  "best hist P = foldl max 0 (map snd (filter (P \<circ> fst) hist))"

lemma foldl_max: "foldl max (a :: rat) xs = Max (insert a (set xs))"
proof -
  have "(\<lambda>x y. max y (x :: rat)) = max" by (simp add: fun_eq_iff max.commute)
  then show ?thesis using Max.set_eq_fold [of a xs] by (simp add: foldl_conv_fold)
qed

lemma best_Max: "best hist P = Max (insert 0 {v. \<exists>t. (t, v) \<in> set hist \<and> P t})"
proof -
  have "set (map snd (filter (P \<circ> fst) hist)) = {v. \<exists>t. (t, v) \<in> set hist \<and> P t}" by force
  then show ?thesis by (simp add: best_def foldl_max)
qed

lemma best_cong: "(\<And>t v. (t, v) \<in> set hist \<Longrightarrow> P t = Q t) \<Longrightarrow> best hist P = best hist Q"
  unfolding best_Max by (rule arg_cong [of _ _ "\<lambda>S. Max (insert 0 S)"]) blast

lemma best_none: "(\<And>t v. (t, v) \<in> set hist \<Longrightarrow> \<not> P t) \<Longrightarrow> best hist P = 0"
  unfolding best_Max by (subst Collect_empty_eq [THEN iffD2]) auto

lemma best_snoc: "best (hist @ [(t, v)]) P = (if P t then max (best hist P) v else best hist P)"
  by (simp add: best_def)

text \<open>
  Slot \<open>j\<close> back from the current bucket holds the highest value recorded in the \<open>j\<close>-th bucket
  length before the start of the current one.
\<close>

definition slot :: "peak \<Rightarrow> nat \<Rightarrow> rat" where
  "slot m j = pe_buckets m ! ((pe_index m + 5 - j) mod 5)"

definition in_slot :: "peak \<Rightarrow> nat \<Rightarrow> instant \<Rightarrow> bool" where
  "in_slot m j t \<longleftrightarrow> pe_start m - int j * pe_length m \<le> t \<and> t < pe_start m - int j * pe_length m + pe_length m"

definition peak_ok :: "peak \<Rightarrow> (instant \<times> rat) list \<Rightarrow> bool" where
  "peak_ok m hist \<longleftrightarrow> length (pe_buckets m) = 5 \<and> pe_index m < 5 \<and>
     (\<forall>t v. (t, v) \<in> set hist \<longrightarrow> t < pe_start m + pe_length m) \<and> (\<forall>j < 5. slot m j = best hist (in_slot m j))"

lemma ring_back:
  assumes "i < 5" and "k < 4"
  shows "((i + 1) mod 5 + 5 - Suc k) mod 5 = (i + 5 - k) mod (5 :: nat)" and "(i + 5 - k) mod 5 \<noteq> (i + 1) mod (5 :: nat)"
proof -
  have "i \<in> {0, 1, 2, 3, 4}" "k \<in> {0, 1, 2, 3}" using assms by auto
  then show "((i + 1) mod 5 + 5 - Suc k) mod 5 = (i + 5 - k) mod (5 :: nat)" "(i + 5 - k) mod 5 \<noteq> (i + 1) mod (5 :: nat)"
    by auto
qed

lemma peak_ok_step:
  assumes ok: "peak_ok m hist"
  defines "m' \<equiv> m\<lparr>pe_start := pe_start m + pe_length m,
    pe_buckets := (pe_buckets m)[(pe_index m + 1) mod peakBuckets := 0], pe_index := (pe_index m + 1) mod peakBuckets\<rparr>"
  assumes pos: "0 < pe_length m"
  shows "peak_ok m' hist" and "pe_length m' = pe_length m"
proof -
  show len: "pe_length m' = pe_length m" by (simp add: m'_def pe_length_def)
  have b: "length (pe_buckets m) = 5" "pe_index m < 5" and old: "\<And>t v. (t, v) \<in> set hist \<Longrightarrow> t < pe_start m + pe_length m"
    and sl: "\<And>j. j < 5 \<Longrightarrow> slot m j = best hist (in_slot m j)"
    using ok by (auto simp: peak_ok_def)
  have "slot m' j = best hist (in_slot m' j)" if j: "j < 5" for j
  proof (cases j)
    case 0
    have "slot m' 0 = 0" using b by (simp add: slot_def m'_def peakBuckets_def)
    moreover have "best hist (in_slot m' 0) = 0"
      by (rule best_none) (use old in \<open>fastforce simp: in_slot_def len m'_def\<close>)
    ultimately show ?thesis using 0 by simp
  next
    case (Suc k)
    then have "k < 4" using j by simp
    note rb = ring_back [OF b(2) this]
    have "slot m' j = slot m k" using Suc rb(1) not_sym [OF rb(2)] by (simp add: slot_def m'_def peakBuckets_def)
    moreover have "in_slot m' j = in_slot m k" using Suc by (simp add: in_slot_def len fun_eq_iff) (simp add: m'_def algebra_simps)
    ultimately show ?thesis using sl [of k] j Suc by simp
  qed
  moreover have "t < pe_start m' + pe_length m'" if "(t, v) \<in> set hist" for t v
    using old [OF that] pos unfolding len by (simp add: m'_def)
  ultimately show "peak_ok m' hist" using b by (simp add: peak_ok_def) (simp add: m'_def peakBuckets_def)
qed

lemma peak_ok_advance:
  assumes "peak_ok m hist" and "bucket = pe_length m" and "0 < bucket" and "bucket < max_duration" and "pe_start m \<le> now"
  shows "peak_ok (pe_advance m bucket now) hist \<and> pe_bucket (pe_advance m bucket now) = pe_bucket m \<and>
    pe_start m \<le> pe_start (pe_advance m bucket now) \<and>
    pe_start (pe_advance m bucket now) \<le> now \<and> now < pe_start (pe_advance m bucket now) + bucket"
  using assms
proof (induction m bucket now rule: pe_advance.induct)
  case (1 m bucket now)
  let ?i = "(pe_index m + 1) mod peakBuckets"
  let ?m = "m\<lparr>pe_start := pe_start m + bucket, pe_buckets := (pe_buckets m)[?i := 0], pe_index := ?i\<rparr>"
  have thr: "bucket \<le> time_sub now (pe_start m) \<longleftrightarrow> bucket \<le> now - pe_start m"
    using time_sub_less_iff [of bucket now "pe_start m"] "1.prems"(3,4) by linarith
  show ?case
  proof (cases "bucket \<le> now - pe_start m")
    case True
    note st = peak_ok_step [OF "1.prems"(1), folded "1.prems"(2), OF "1.prems"(3)]
    have ih: "peak_ok (pe_advance ?m bucket now) hist \<and> pe_bucket (pe_advance ?m bucket now) = pe_bucket ?m \<and>
      pe_start ?m \<le> pe_start (pe_advance ?m bucket now) \<and>
      pe_start (pe_advance ?m bucket now) \<le> now \<and> now < pe_start (pe_advance ?m bucket now) + bucket"
      using "1.IH" [OF _ refl st(1) _ "1.prems"(3,4)] st(2) True "1.prems"(2,3) thr by simp
    have "pe_advance m bucket now = pe_advance ?m bucket now"
      using True "1.prems"(3) thr by (subst pe_advance.simps) (simp add: Let_def)
    then show ?thesis using ih "1.prems"(3) by simp
  next
    case False
    then have "pe_advance m bucket now = m" using thr by (subst pe_advance.simps) simp
    then show ?thesis using False "1.prems" by simp
  qed
qed

lemma peak_ok_rotate:
  assumes ok: "pe_start m \<noteq> 0 \<Longrightarrow> peak_ok m hist" and new: "pe_start m = 0 \<Longrightarrow> hist = []"
    and pos: "0 < pe_length m" "5 * pe_length m < max_duration" and le: "0 \<le> pe_start m" "pe_start m \<le> now" "0 < now"
  shows "peak_ok (pe_rotate m now) hist \<and> pe_bucket (pe_rotate m now) = pe_bucket m \<and> 0 < pe_start (pe_rotate m now) \<and>
    pe_start (pe_rotate m now) \<le> now \<and> now < pe_start (pe_rotate m now) + pe_length m"
proof (cases "pe_start m = 0 \<or> time_sub now (pe_start m) \<ge> 5 * pe_length m")
  case True
  then have r: "pe_rotate m now = (new_peak (pe_bucket m))\<lparr>pe_start := now\<rparr>"
    by (auto simp: pe_rotate_def Let_def peakBuckets_def)
  have "\<not> in_slot ((new_peak (pe_bucket m))\<lparr>pe_start := now\<rparr>) j t" if "(t, v) \<in> set hist" "j < 5" for t v j
  proof -
    have "pe_start m \<noteq> 0" using new that(1) by auto
    then have "t < pe_start m + pe_length m" "5 * pe_length m \<le> now - pe_start m"
      using ok that(1) True time_sub_less_iff [of "5 * pe_length m" now "pe_start m"] pos by (auto simp: peak_ok_def)
    moreover have "int j * pe_length m \<le> 4 * pe_length m" using that(2) pos by simp
    moreover have "pe_length ((new_peak (pe_bucket m))\<lparr>pe_start := now\<rparr>) = pe_length m" by (simp add: pe_length_def new_peak_def)
    ultimately show ?thesis unfolding in_slot_def by simp
  qed
  then have "best hist (in_slot ((new_peak (pe_bucket m))\<lparr>pe_start := now\<rparr>) j) = 0" if "j < 5" for j
    using that by (intro best_none) blast
  moreover have "t < now + pe_length m" if "(t, v) \<in> set hist" for t v
  proof -
    have "pe_start m \<noteq> 0" using new that(1) by auto
    then show ?thesis using ok that le by (fastforce simp: peak_ok_def)
  qed
  ultimately show ?thesis
    unfolding r using pos le by (auto simp: peak_ok_def slot_def new_peak_def peakBuckets_def pe_length_def)
next
  case False
  then have "pe_rotate m now = pe_advance m (pe_length m) now"
    by (auto simp: pe_rotate_def Let_def peakBuckets_def)
  then show ?thesis using peak_ok_advance [of m hist "pe_length m" now] ok False pos le by simp
qed

lemma peak_ok_record:
  assumes ok: "peak_ok m hist" and le: "pe_start m \<le> now" and lt: "now < pe_start m + pe_length m"
  shows "peak_ok (m\<lparr>pe_buckets := (pe_buckets m)[pe_index m := max (pe_buckets m ! pe_index m) v]\<rparr>) (hist @ [(now, v)])"
    (is "peak_ok ?m _")
proof -
  have b: "length (pe_buckets m) = 5" "pe_index m < 5" and old: "\<And>t v. (t, v) \<in> set hist \<Longrightarrow> t < pe_start m + pe_length m"
    and sl: "\<And>j. j < 5 \<Longrightarrow> slot m j = best hist (in_slot m j)"
    using ok by (auto simp: peak_ok_def)
  have same: "in_slot ?m = in_slot m" by (simp add: in_slot_def fun_eq_iff pe_length_def)
  have "slot ?m j = best (hist @ [(now, v)]) (in_slot ?m j)" if j: "j < 5" for j
  proof (cases "j = 0")
    case True
    have "slot ?m 0 = max (slot m 0) v" using b by (simp add: slot_def)
    moreover have "in_slot m 0 now" using le lt by (simp add: in_slot_def)
    ultimately show ?thesis using True sl [OF j] unfolding same best_snoc by simp
  next
    case False
    have "j \<in> {1, 2, 3, 4}" "pe_index m \<in> {0, 1, 2, 3, 4}" using False j b by auto
    then have "(pe_index m + 5 - j) mod 5 \<noteq> pe_index m" by auto
    then have "slot ?m j = slot m j" by (simp add: slot_def)
    moreover have "pe_length m \<le> int j * pe_length m" using False le lt by simp
    then have "\<not> in_slot m j now" using le by (simp add: in_slot_def)
    ultimately show ?thesis using sl [OF j] by (simp add: best_snoc same)
  qed
  then show ?thesis using b old lt by (auto simp: peak_ok_def pe_length_def)
qed

lemma peak_ok_value:
  assumes ok: "peak_ok m hist" and pos: "0 < pe_length m"
  shows "foldl max 0 (pe_buckets m) = best hist (\<lambda>t. pe_start m - 4 * pe_length m \<le> t)"
proof -
  have b: "length (pe_buckets m) = 5" "pe_index m < 5" and old: "\<And>t v. (t, v) \<in> set hist \<Longrightarrow> t < pe_start m + pe_length m"
    and sl: "\<And>j. j < 5 \<Longrightarrow> slot m j = best hist (in_slot m j)"
    using ok by (auto simp: peak_ok_def)
  have idx: "pe_index m \<in> {0, 1, 2, 3, 4}" using b(2) by auto
  have five: "{..<5 :: nat} = {0, 1, 2, 3, 4}" by auto
  have "set (pe_buckets m) = nth (pe_buckets m) ` {..<5}"
    using b(1) map_nth [of "pe_buckets m"] by (metis atLeast0LessThan atLeastLessThan_upt image_set)
  also have "{..<5 :: nat} = (\<lambda>j. (pe_index m + 5 - j) mod 5) ` {..<5}" unfolding five using idx by auto
  finally have s: "set (pe_buckets m) = slot m ` {..<5}" by (simp add: slot_def image_image)
  have cover: "(\<exists>j < 5. in_slot m j t) \<longleftrightarrow> pe_start m - 4 * pe_length m \<le> t" if "t < pe_start m + pe_length m" for t
  proof
    assume "\<exists>j < 5. in_slot m j t"
    then obtain j where j: "j < 5" "in_slot m j t" by blast
    then have "int j * pe_length m \<le> 4 * pe_length m" using pos by simp
    then show "pe_start m - 4 * pe_length m \<le> t" using j(2) unfolding in_slot_def by linarith
  next
    assume "pe_start m - 4 * pe_length m \<le> t"
    then have "in_slot m 0 t \<or> in_slot m 1 t \<or> in_slot m 2 t \<or> in_slot m 3 t \<or> in_slot m 4 t"
      using that by (simp add: in_slot_def) linarith
    moreover have "0 < (5 :: nat)" "1 < (5 :: nat)" "2 < (5 :: nat)" "3 < (5 :: nat)" "4 < (5 :: nat)" by simp_all
    ultimately show "\<exists>j < 5. in_slot m j t" by blast
  qed
  let ?V = "\<lambda>j. {v. \<exists>t. (t, v) \<in> set hist \<and> in_slot m j t}"
  have fin: "finite {v. \<exists>t. (t, v) \<in> set hist \<and> P t}" for P
    by (rule finite_subset [of _ "snd ` set hist"]) force+
  have "Max (insert 0 (slot m ` {..<5})) = Max (insert 0 (\<Union>j \<in> {..<5}. ?V j))"
  proof (rule antisym)
    have "slot m j \<le> Max (insert 0 (\<Union>j \<in> {..<5}. ?V j))" if "j < 5" for j
      unfolding sl [OF that] best_Max using that fin by (intro Max_mono) auto
    moreover have "0 \<le> Max (insert 0 (\<Union>j \<in> {..<5}. ?V j))" using fin by (intro Max_ge) auto
    ultimately show "Max (insert 0 (slot m ` {..<5})) \<le> Max (insert 0 (\<Union>j \<in> {..<5}. ?V j))"
      by (intro Max.boundedI) auto
    have "v \<le> Max (insert 0 (slot m ` {..<5}))" if "v \<in> ?V j" "j < 5" for v j
    proof -
      have "v \<le> slot m j" unfolding sl [OF that(2)] best_Max using that(1) fin by (intro Max_ge) auto
      also have "slot m j \<le> Max (insert 0 (slot m ` {..<5}))" using that(2) by (intro Max_ge) auto
      finally show ?thesis .
    qed
    then show "Max (insert 0 (\<Union>j \<in> {..<5}. ?V j)) \<le> Max (insert 0 (slot m ` {..<5}))"
      using fin by (intro Max.boundedI) auto
  qed
  moreover have "(\<Union>j \<in> {..<5}. ?V j) = {v. \<exists>t. (t, v) \<in> set hist \<and> pe_start m - 4 * pe_length m \<le> t}"
  proof -
    have c: "(\<exists>j < 5. in_slot m j t) \<longleftrightarrow> pe_start m - 4 * pe_length m \<le> t" if "(t, v) \<in> set hist" for t v
      by (rule cover [OF old [OF that]])
    have "(\<Union>j \<in> {..<5}. ?V j) = {v. \<exists>t. (t, v) \<in> set hist \<and> (\<exists>j < 5. in_slot m j t)}" by auto
    also have "\<dots> = {v. \<exists>t. (t, v) \<in> set hist \<and> pe_start m - 4 * pe_length m \<le> t}" using c by (meson)
    finally show ?thesis .
  qed
  ultimately show ?thesis unfolding foldl_max best_Max s by simp
qed

text \<open>A peak that has recorded something is well-formed and started after time zero.\<close>

definition peak_inv :: "duration \<Rightarrow> peak \<Rightarrow> (instant \<times> rat) list \<Rightarrow> bool" where
  "peak_inv bucket m hist \<longleftrightarrow> pe_bucket m = bucket \<and>
     (if hist = [] then pe_start m = 0 else peak_ok m hist \<and> 0 < pe_start m \<and> pe_start m \<le> fst (last hist))"

lemma peak_inv_rotate:
  assumes inv: "peak_inv bucket m hist" and pos: "0 < pe_length (new_peak bucket)" "5 * pe_length (new_peak bucket) < max_duration"
    and now: "\<forall>x \<in> set hist. fst x \<le> now" "0 < now"
  defines "r \<equiv> pe_rotate m now"
  shows "peak_ok r hist" and "pe_bucket r = bucket" and "pe_length r = pe_length (new_peak bucket)"
    and "0 < pe_start r" and "pe_start r \<le> now" and "now < pe_start r + pe_length r"
proof -
  have L: "pe_bucket m = bucket" "pe_length m = pe_length (new_peak bucket)"
    using inv by (simp_all add: peak_inv_def pe_length_def new_peak_def)
  have le: "0 \<le> pe_start m" "pe_start m \<le> now"
    using inv now by (auto simp: peak_inv_def split: if_splits) (metis last_in_set order_trans)
  have "peak_ok m hist" if "pe_start m \<noteq> 0" using inv that by (simp add: peak_inv_def split: if_splits)
  moreover have "hist = []" if "pe_start m = 0" using inv that by (simp add: peak_inv_def split: if_splits)
  ultimately have "peak_ok r hist \<and> pe_bucket r = pe_bucket m \<and> 0 < pe_start r \<and> pe_start r \<le> now \<and> now < pe_start r + pe_length m"
    unfolding r_def using peak_ok_rotate [of m hist now] pos L le now(2) by simp
  moreover have "pe_length r = pe_length m" if "pe_bucket r = pe_bucket m" using that by (simp add: pe_length_def)
  ultimately show "peak_ok r hist" "pe_bucket r = bucket" "0 < pe_start r" "pe_start r \<le> now" "now < pe_start r + pe_length r"
    "pe_length r = pe_length (new_peak bucket)"
    using L by simp_all
qed

lemma peak_inv_run:
  assumes "0 < pe_length (new_peak bucket)" and "5 * pe_length (new_peak bucket) < max_duration"
    and "sorted (map fst hist)" and "\<forall>x \<in> set hist. 0 < fst x"
  shows "peak_inv bucket (peak_run (new_peak bucket) hist) hist"
  using assms(3,4)
proof (induction hist rule: rev_induct)
  case Nil
  show ?case by (simp add: peak_run_def new_peak_def peak_inv_def)
next
  case (snoc tv hist)
  obtain t v where tv: "tv = (t, v)" by fastforce
  define m where "m = peak_run (new_peak bucket) hist"
  have s: "sorted (map fst hist)" "\<forall>x \<in> set hist. fst x \<le> t" "0 < t" "\<forall>x \<in> set hist. 0 < fst x"
    using snoc.prems by (auto simp: sorted_append tv)
  have ih: "peak_inv bucket m hist" using snoc.IH [OF s(1,4)] by (simp add: m_def)
  note r = peak_inv_rotate [OF ih assms(1,2) s(2,3)]
  have "peak_run (new_peak bucket) (hist @ [tv]) = pe_record m t v" by (simp add: peak_run_def m_def tv)
  then show ?case
    using peak_ok_record [OF r(1,5,6), of v] r(2,4,5) by (simp add: peak_inv_def pe_record_def Let_def tv)
qed

text \<open>
  C28: A peak reports the highest value recorded since some instant that lies four to five
  bucket lengths back, whatever was recorded when: it never forgets a value sooner nor keeps one
  longer.
\<close>

theorem peak_exact:
  assumes pos: "0 < pe_length (new_peak bucket)" "5 * pe_length (new_peak bucket) < max_duration"
    and times: "sorted (map fst hist @ [now])" "\<forall>t \<in> set (map fst hist @ [now]). 0 < t"
  shows "\<exists>since. now - 5 * pe_length (new_peak bucket) < since \<and> since \<le> now - 4 * pe_length (new_peak bucket) \<and>
    fst (pe_value (peak_run (new_peak bucket) hist) now) =
      foldl max 0 (map snd (filter (\<lambda>(t, v). since \<le> t) hist))"
proof -
  define m where "m = peak_run (new_peak bucket) hist"
  have inv: "peak_inv bucket m hist" unfolding m_def using pos times by (intro peak_inv_run) (auto simp: sorted_append)
  note r = peak_inv_rotate [OF inv pos, of now]
  have le: "\<forall>x \<in> set hist. fst x \<le> now" "0 < now" using times by (auto simp: sorted_append)
  let ?s = "pe_start (pe_rotate m now) - 4 * pe_length (pe_rotate m now)"
  have "fst (pe_value m now) = best hist (\<lambda>t. ?s \<le> t)"
    using peak_ok_value [OF r(1) [OF le]] r(3) [OF le] pos by (simp add: pe_value_def Let_def)
  then have "fst (pe_value m now) = foldl max 0 (map snd (filter (\<lambda>(t, v). ?s \<le> t) hist))"
    by (simp add: best_def comp_def case_prod_unfold)
  moreover have "now - 5 * pe_length (new_peak bucket) < ?s" "?s \<le> now - 4 * pe_length (new_peak bucket)"
    using r(3,5,6) [OF le] by linarith+
  ultimately show ?thesis unfolding m_def by blast
qed

theorem peak_exact_witness:
  "\<exists>since. 13 * second - 5 * pe_length (new_peak 0) < since \<and> since \<le> 13 * second - 4 * pe_length (new_peak 0) \<and>
    fst (pe_value (peak_run (new_peak 0) [(second, 7), (6 * second, 5), (7 * second, 4)]) (13 * second)) =
      foldl max 0 (map snd (filter (\<lambda>(t, v). since \<le> t) [(second, 7), (6 * second, 5), (7 * second, 4)]))"
  by (rule peak_exact) (simp_all add: pe_length_def new_peak_def peakBucket_def second_def)

text \<open>Rotating twice at one instant is rotating once.\<close>

lemma rm_advance_near: "time_sub now (rm_start m) < meterBucket \<Longrightarrow> rm_advance m now = m"
  by (subst rm_advance.simps) simp

lemma rm_advance_reaches: "time_sub now (rm_start (rm_advance m now)) < meterBucket"
proof (induction m now rule: rm_advance.induct)
  case (1 m now)
  then show ?case by (subst rm_advance.simps) (simp add: Let_def)
qed

lemma rm_advance_start: "rm_start m \<le> rm_start (rm_advance m now)"
proof (induction m now rule: rm_advance.induct)
  case (1 m now)
  then show ?case by (subst rm_advance.simps) (auto simp: Let_def meterBucket_def millisecond_def)
qed

lemma rm_rotate_idem:
  assumes "0 \<le> rm_start m" and "0 < now"
  shows "rm_rotate (rm_rotate m now) now = rm_rotate m now"
proof (cases "rm_start m = zero_time \<or> time_sub now (rm_start m) \<ge> int meterBuckets * meterBucket")
  case True
  then have "rm_rotate m now = rate_meter_zero\<lparr>rm_start := now\<rparr>" by (simp add: rm_rotate_def)
  then show ?thesis
    using assms(2) by (simp add: rm_rotate_def rm_advance_near meterBucket_def millisecond_def)
next
  case False
  then have r: "rm_rotate m now = rm_advance m now" by (simp add: rm_rotate_def)
  have "rm_start (rm_advance m now) \<noteq> 0" using rm_advance_start [of m now] assms(1) False by auto
  moreover have "meterBucket \<le> int meterBuckets * meterBucket" by (simp add: meterBuckets_def meterBucket_def millisecond_def)
  ultimately show ?thesis
    unfolding r using rm_advance_reaches [of now m] by (simp add: rm_rotate_def rm_advance_near)
qed

end
