(* ===== verification/Lane.thy ===== *)
theory Lane
  imports Receipts Meters Queue "HOL-Library.AList"
begin

text \<open>
  A lane of the transport: its state (internal/bond/bond.go), whether it is alive
  (internal/bond/link_model.go), what each traffic class may use of it (internal/bond/schedule.go)
  and the estimates its feedback maintains.

  A packet that has been sent is shared by the queue of pending packets and the attempts that carry
  it. Sent packets therefore live in a store keyed by their sequence, and a pointer to a packet is
  that sequence. Arrays indexed by a traffic class are functions of it. Go's \<open>int\<close> counters are
  integers: none of them comes near the 64-bit range.
\<close>

section \<open>Definitions\<close>

subsection \<open>Constants\<close>

definition initialWindowBytes :: int where "initialWindowBytes = 3000"
definition initialRate :: rat where "initialRate = 125000"
definition minimumRate :: rat where "minimumRate = 16000"
definition maximumRate :: rat where "maximumRate = 1250000000"
definition targetQueue :: duration where "targetQueue = 10 * millisecond"
definition jitterAllowanceFactor :: int where "jitterAllowanceFactor = 2"
definition jitterSpreadFactor :: int where "jitterSpreadFactor = 3"
definition reorderHeadroom :: rat where "reorderHeadroom = 125 / 100"
definition reorderMemory :: duration where "reorderMemory = 10 * second"
definition maxDelaySamples :: int where "maxDelaySamples = 16"
definition jitterWarmup :: int where "jitterWarmup = 8"
definition ackInterval :: duration where "ackInterval = 25 * millisecond"
definition maxACKInterval :: duration where "maxACKInterval = 50 * millisecond"
definition ackShare :: rat where "ackShare = 8 / 100"
definition ackStreak :: int where "ackStreak = 3"
definition ackWireBytes :: int where "ackWireBytes = int (headerBytes + ackBytes + 78)"
definition ackBatchPackets :: int where "ackBatchPackets = 64"
definition minimumClassShare :: rat where "minimumClassShare = 5 / 100"
definition pathLease :: duration where "pathLease = second"
definition minimumRTO :: duration where "minimumRTO = 60 * millisecond"
definition maxThreshold :: duration where "maxThreshold = 10 * targetQueue"
definition repairTail :: u64 where "repairTail = 3"
definition maxDatagram :: nat where "maxDatagram = 9000"
definition fullDatagramWireBytes :: int where "fullDatagramWireBytes = 1500"
definition wireOverhead :: int where "wireOverhead = int Overhead + 28"
definition transitSizeBucket :: int where "transitSizeBucket = 128"
definition suspectACKIntervals :: int where "suspectACKIntervals = 2"
definition startupDeliveryGain :: rat where "startupDeliveryGain = 2"

subsection \<open>State\<close>

type_synonym packets = "u64 \<rightharpoonup> packet"

record attempt =
  at_packet :: "u64 option"
  at_sent :: instant
  at_bytes :: int
  at_released :: bool
  at_confirmed :: bool
  at_through :: u64

record transit_baseline =
  tb_delay :: duration
  tb_known :: bool
  tb_observed :: instant

datatype lane_liveness = LaneLive | LaneSuspect | LaneDead

record decisions =
  dc_DelaySignals :: u64
  dc_LossSignals :: u64
  dc_DiscoveryCongested :: u64
  dc_DiscoveryPlateau :: u64
  dc_CapacityRemeasured :: u64
  dc_CapacityDecays :: u64
  dc_Pulses :: u64
  dc_PulseWins :: u64
  dc_PulseLosses :: u64
  dc_Rediscoveries :: u64
  dc_StallSignals :: u64

record link_model =
  lm_progressAt :: instant
  lm_awaitingSince :: instant

record stall =
  sl_length :: duration
  sl_through :: u64

record lane_control =
  cn_capacity :: rat
  cn_draining :: bool
  cn_drainBy :: instant
  cn_flushUntil :: instant
  cn_holdSignal :: bool
  cn_nextPulse :: instant
  cn_pulseEvery :: duration
  cn_pulseEnd :: instant
  cn_verdictAt :: instant
  cn_pulseWins :: nat
  cn_pending :: bool
  cn_wonAt :: instant
  cn_wonSeq :: u64
  cn_wonFrom :: rat

definition new_control :: "rat \<Rightarrow> lane_control" where
  "new_control capacity =
     \<lparr>cn_capacity = capacity, cn_draining = False, cn_drainBy = zero_time, cn_flushUntil = zero_time,
      cn_holdSignal = False, cn_nextPulse = zero_time, cn_pulseEvery = 0, cn_pulseEnd = zero_time,
      cn_verdictAt = zero_time, cn_pulseWins = 0, cn_pending = False, cn_wonAt = zero_time, cn_wonSeq = 0, cn_wonFrom = 0\<rparr>"

record lane =
  ln_model :: link_model
  ln_feedbackSent :: rate_meter
  ln_id :: path_id
  ln_remoteID :: path_id
  ln_lease :: instant
  ln_rate :: rat
  ln_deliveryRate :: rat
  ln_deliverySample :: rat
  ln_sendRate :: rat
  ln_startup :: bool
  ln_discoveryGain :: rat
  ln_startupBest :: rat
  ln_startupFlatRounds :: int
  ln_roundEnd :: u64
  ln_roundDone :: bool
  ln_losses :: loss_ledger
  ln_roundLossy :: bool
  ln_previousDelivery :: rat
  ln_control :: lane_control
  ln_peakDelivery :: rat
  ln_recentDelivery :: peak
  ln_sustained :: sustained_delivery
  ln_reordering :: peak
  ln_newestConfirmed :: instant
  ln_wander :: duration
  ln_wanderVariation :: duration
  ln_wanderKnown :: bool
  ln_rtt :: duration
  ln_rttVariation :: duration
  ln_idleRTTVariation :: duration
  ln_idleRTT :: duration
  ln_idleForwardMean :: duration
  ln_idleForwardVariation :: duration
  ln_idleForwardKnown :: bool
  ln_feedbackRTT :: duration
  ln_feedbackRTTVariation :: duration
  ln_baseRTT :: duration
  ln_baseAt :: instant
  ln_nextSend :: instant
  ln_classNext :: "traffic_class \<Rightarrow> instant"
  ln_reserved :: "traffic_class \<Rightarrow> rat"
  ln_copies :: rat
  ln_guaranteed :: "traffic_class \<Rightarrow> bool"
  ln_shared :: bool
  ln_decisions :: decisions
  ln_bulkElsewhere :: bool
  ln_lastACK :: instant
  ln_ackGap :: duration
  ln_lastAdjust :: instant
  ln_lossMark :: rat
  ln_lossMarked :: bool
  ln_inflight :: int
  ln_classInflight :: "traffic_class \<Rightarrow> int"
  ln_confirmedWireBytes :: int
  ln_seq :: u64
  ln_ackRevision :: u64
  ln_receivedHigh :: u64
  ln_receivedThrough :: u64
  ln_stall :: stall
  ln_ackReceipts :: receipt_window
  ln_ackedBytes :: u64
  ln_ackedElapsed :: u64
  ln_feedbackAt :: instant
  ln_rateBytes :: u64
  ln_rateSentBytes :: u64
  ln_rateElapsed :: u64
  ln_firstSent :: instant
  ln_transitBucket :: int
  ln_transitBases :: "transit_baseline list"
  ln_intervalQueueDelay :: duration
  ln_signalDelay :: duration
  ln_delayJitter :: duration
  ln_intervalJitter :: duration
  ln_delayDifferences :: int
  ln_intervalSamples :: int
  ln_haveInterval :: bool
  ln_queueDelay :: duration
  ln_nextBaseline :: instant
  ln_drainUntil :: instant
  ln_baselinePending :: bool
  ln_floorTesting :: bool
  ln_floorSampling :: bool
  ln_floorTested :: instant
  ln_floorTestEvery :: duration
  ln_droppedAt :: instant
  ln_lastTransmit :: instant
  ln_lastPayload :: instant
  ln_attempts :: "(u64 \<times> attempt) list"
  ln_sent :: u64
  ln_interactiveSent :: u64
  ln_realtimeOriginals :: u64
  ln_bulkOriginals :: u64
  ln_bulkReceived :: u64
  ln_acked :: u64
  ln_retries :: u64

definition transit_buckets :: nat where
  "transit_buckets = nat ((int maxDatagram + wireOverhead) div transitSizeBucket) + 1"

definition no_baselines :: "transit_baseline list" where
  "no_baselines = replicate transit_buckets \<lparr>tb_delay = 0, tb_known = False, tb_observed = zero_time\<rparr>"

definition no_decisions :: decisions where
  "no_decisions = \<lparr>dc_DelaySignals = 0, dc_LossSignals = 0, dc_DiscoveryCongested = 0, dc_DiscoveryPlateau = 0,
     dc_CapacityRemeasured = 0, dc_CapacityDecays = 0, dc_Pulses = 0, dc_PulseWins = 0, dc_PulseLosses = 0,
     dc_Rediscoveries = 0, dc_StallSignals = 0\<rparr>"

text \<open>The zero lane with the fields that the creation of a lane sets.\<close>

definition new_lane :: "path_id \<Rightarrow> path_id \<Rightarrow> duration \<Rightarrow> instant \<Rightarrow> lane" where
  "new_lane i remoteID rtt now =
     \<lparr>ln_model = \<lparr>lm_progressAt = zero_time, lm_awaitingSince = zero_time\<rparr>, ln_feedbackSent = rate_meter_zero,
      ln_id = i, ln_remoteID = remoteID, ln_lease = zero_time, ln_rate = initialRate, ln_deliveryRate = 0,
      ln_deliverySample = 0, ln_sendRate = 0, ln_startup = True, ln_discoveryGain = startupDeliveryGain,
      ln_startupBest = 0, ln_startupFlatRounds = 0, ln_roundEnd = 0, ln_roundDone = False, ln_losses = loss_ledger_zero,
      ln_roundLossy = False, ln_previousDelivery = 0, ln_control = new_control 0, ln_peakDelivery = 0,
      ln_recentDelivery = new_peak 0, ln_sustained = \<lparr>sd_marks = [], sd_best = new_peak sustainedMemory\<rparr>,
      ln_reordering = new_peak reorderMemory, ln_newestConfirmed = zero_time, ln_wander = 0, ln_wanderVariation = 0,
      ln_wanderKnown = False, ln_rtt = rtt, ln_rttVariation = 0, ln_idleRTTVariation = 0, ln_idleRTT = rtt,
      ln_idleForwardMean = 0, ln_idleForwardVariation = 0, ln_idleForwardKnown = False, ln_feedbackRTT = 0,
      ln_feedbackRTTVariation = 0, ln_baseRTT = rtt, ln_baseAt = now, ln_nextSend = zero_time,
      ln_classNext = (\<lambda>_. zero_time), ln_reserved = (\<lambda>_. 0), ln_copies = 0, ln_guaranteed = (\<lambda>_. False),
      ln_shared = False, ln_decisions = no_decisions, ln_bulkElsewhere = False, ln_lastACK = zero_time, ln_ackGap = 0,
      ln_lastAdjust = zero_time, ln_lossMark = 0, ln_lossMarked = False, ln_inflight = 0, ln_classInflight = (\<lambda>_. 0),
      ln_confirmedWireBytes = 0, ln_seq = 0, ln_ackRevision = 0, ln_receivedHigh = 0, ln_receivedThrough = 0,
      ln_stall = \<lparr>sl_length = 0, sl_through = 0\<rparr>, ln_ackReceipts = no_receipts, ln_ackedBytes = 0, ln_ackedElapsed = 0,
      ln_feedbackAt = zero_time, ln_rateBytes = 0, ln_rateSentBytes = 0, ln_rateElapsed = 0, ln_firstSent = zero_time,
      ln_transitBucket = 0, ln_transitBases = no_baselines, ln_intervalQueueDelay = 0, ln_signalDelay = 0,
      ln_delayJitter = 0, ln_intervalJitter = 0, ln_delayDifferences = 0, ln_intervalSamples = 0,
      ln_haveInterval = False, ln_queueDelay = 0, ln_nextBaseline = zero_time, ln_drainUntil = zero_time,
      ln_baselinePending = False, ln_floorTesting = False, ln_floorSampling = False, ln_floorTested = zero_time,
      ln_floorTestEvery = 0, ln_droppedAt = zero_time, ln_lastTransmit = zero_time, ln_lastPayload = zero_time,
      ln_attempts = [], ln_sent = 0, ln_interactiveSent = 0, ln_realtimeOriginals = 0, ln_bulkOriginals = 0,
      ln_bulkReceived = 0, ln_acked = 0, ln_retries = 0\<rparr>"

definition maxTime :: "instant \<Rightarrow> instant \<Rightarrow> instant" where
  "maxTime a b = (if a > b then a else b)"

definition abs_duration :: "duration \<Rightarrow> duration" where
  "abs_duration d = (if d < 0 then - d else d)"

subsection \<open>In-flight bytes and the attempts\<close>

definition release :: "packets \<Rightarrow> lane \<Rightarrow> attempt \<Rightarrow> lane" where
  "release pkts p a =
     (let p = p\<lparr>ln_inflight := ln_inflight p - at_bytes a\<rparr>
      in case at_packet a of
           None \<Rightarrow> p
         | Some s \<Rightarrow>
             let c = pk_class (the (pkts s))
             in p\<lparr>ln_classInflight := (ln_classInflight p)(c := ln_classInflight p c - at_bytes a)\<rparr>)"

definition set_attempt :: "lane \<Rightarrow> u64 \<Rightarrow> attempt \<Rightarrow> lane" where
  "set_attempt p seq a = p\<lparr>ln_attempts := AList.update seq a (ln_attempts p)\<rparr>"

definition delete_attempt :: "lane \<Rightarrow> u64 \<Rightarrow> lane" where
  "delete_attempt p seq = p\<lparr>ln_attempts := AList.delete seq (ln_attempts p)\<rparr>"

definition passed :: "lane \<Rightarrow> packet \<Rightarrow> bool" where
  "passed p d \<longleftrightarrow> ln_receivedHigh p > pk_lastLaneSeq d \<or> ln_seq p - pk_lastLaneSeq d < repairTail"

subsection \<open>Timers\<close>

definition up :: "lane \<Rightarrow> instant \<Rightarrow> bool" where
  "up p now \<longleftrightarrow> ln_lease p \<noteq> zero_time \<and> time_sub now (ln_lease p) < pathLease"

definition peerACKInterval :: "lane \<Rightarrow> duration" where
  "peerACKInterval p = min maxACKInterval (max ackInterval (ln_ackGap p))"

definition rto :: "lane \<Rightarrow> duration" where
  "rto p =
     (let variation = ln_rttVariation p;
          variation = (if ln_feedbackRTT p = 0
             then let unknown = ln_rtt p sdiv 2;
                      unknown = (if ln_idleRTTVariation p > 0 then ln_idleRTTVariation p else unknown)
                  in max variation unknown
             else variation)
      in max minimumRTO (max (ln_rtt p + 4 * variation + peerACKInterval p)
           (ln_feedbackRTT p + 4 * ln_feedbackRTTVariation p)))"

definition observeOrder :: "lane \<Rightarrow> instant \<Rightarrow> instant \<Rightarrow> lane" where
  "observeOrder p now sent =
     (if sent < ln_newestConfirmed p
      then p\<lparr>ln_reordering := pe_record (ln_reordering p) now (of_int (time_sub (ln_newestConfirmed p) sent))\<rparr>
      else p)"

definition ackIntervalFor :: "rat \<Rightarrow> duration" where
  "ackIntervalFor recvd =
     (if recvd \<le> 0 then maxACKInterval
      else
        let interval = to_duration (of_int ackWireBytes / (ackShare * recvd) * of_int second)
        in min maxACKInterval (max ackInterval interval))"

definition observeFeedbackRTT :: "lane \<Rightarrow> duration \<Rightarrow> lane" where
  "observeFeedbackRTT p sample =
     (if sample \<le> 0 then p
      else if ln_feedbackRTT p = 0
      then p\<lparr>ln_feedbackRTT := sample, ln_feedbackRTTVariation := sample sdiv 2\<rparr>
      else
        let difference = abs_duration (sample - ln_feedbackRTT p);
            p = p\<lparr>ln_feedbackRTTVariation := (3 * ln_feedbackRTTVariation p + difference) sdiv 4\<rparr>
        in p\<lparr>ln_feedbackRTT := (7 * ln_feedbackRTT p + sample) sdiv 8\<rparr>)"

definition window :: "lane \<Rightarrow> int" where
  "window p =
     min (initialWindowBytes + ln_confirmedWireBytes p)
       (max initialWindowBytes (to_duration (ln_rate p *
          Seconds (ln_idleRTT p + jitterAllowanceFactor * ln_idleRTTVariation p + 2 * targetQueue + peerACKInterval p))))"

definition rebaseline :: "lane \<Rightarrow> duration \<Rightarrow> lane" where
  "rebaseline p sample = p\<lparr>ln_idleRTT := ln_idleRTT p + (sample - ln_idleRTT p) sdiv 2\<rparr>"

definition pace :: "lane \<Rightarrow> instant \<Rightarrow> int \<Rightarrow> lane" where
  "pace p now bytes =
     (let (r, m) = rm_rate (ln_feedbackSent p) now;
          p = p\<lparr>ln_feedbackSent := m\<rparr>;
          rate = ln_rate p + r
      in p\<lparr>ln_nextSend := maxTime (ln_nextSend p) (now - 2 * millisecond) +
             to_duration (of_int bytes / rate * of_int second)\<rparr>)"

subsection \<open>Liveness\<close>

definition progressAge :: "link_model \<Rightarrow> instant \<Rightarrow> duration" where
  "progressAge m now = (if lm_progressAt m = zero_time then 0 else max 0 (time_sub now (lm_progressAt m)))"

definition lane_state :: "lane \<Rightarrow> instant \<Rightarrow> lane_liveness" where
  "lane_state p now =
     (if \<not> up p now then LaneDead
      else if ln_seq p \<le> ln_receivedHigh p then LaneLive
      else
        let silence = time_sub now (maxTime (lm_progressAt (ln_model p)) (lm_awaitingSince (ln_model p)))
        in if silence \<ge> rto p then LaneDead
           else if silence \<ge> suspectACKIntervals * peerACKInterval p then LaneSuspect
           else LaneLive)"

definition eligible :: "lane \<Rightarrow> traffic_class \<Rightarrow> instant \<Rightarrow> bool" where
  "eligible p c now \<longleftrightarrow>
     (let state = lane_state p now in state = LaneLive \<or> (c \<noteq> classBulk \<and> state = LaneSuspect))"

definition beginAttempt :: "lane \<Rightarrow> instant \<Rightarrow> lane" where
  "beginAttempt p now =
     (let p = (if ln_seq p = ln_receivedHigh p
               then p\<lparr>ln_model := (ln_model p)\<lparr>lm_awaitingSince := now\<rparr>\<rparr> else p)
      in p\<lparr>ln_seq := ln_seq p + 1\<rparr>)"

subsection \<open>Shares of the traffic classes\<close>

definition latency :: "lane \<Rightarrow> duration" where
  "latency p = ln_idleRTT p + jitterAllowanceFactor * ln_idleRTTVariation p"

definition realtimeLane :: "lane \<Rightarrow> bool" where
  "realtimeLane p =
     (if ln_startup p \<and> cn_capacity (ln_control p) = 0 then False
      else ln_bulkElsewhere p \<and> of_int fullDatagramWireBytes / ln_rate p * of_int second > of_int targetQueue)"

fun higher_classes :: "traffic_class \<Rightarrow> traffic_class list" where
  "higher_classes classRealtime = []"
| "higher_classes classSmall = [classRealtime]"
| "higher_classes classBulk = [classRealtime, classSmall]"

fun lower_classes :: "traffic_class \<Rightarrow> traffic_class list" where
  "lower_classes classRealtime = [classSmall, classBulk]"
| "lower_classes classSmall = [classBulk]"
| "lower_classes classBulk = []"

definition allowed :: "lane \<Rightarrow> traffic_class \<Rightarrow> rat" where
  "allowed p c =
     (if c = classBulk \<and> realtimeLane p then
        (if ln_guaranteed p c then minimumClassShare * ln_rate p else 0)
      else if c = classSmall \<and> ln_shared p \<and> \<not> realtimeLane p then
        let rate = ln_reserved p classSmall
        in if ln_guaranteed p c then max rate (minimumClassShare * ln_rate p) else rate
      else
        let rate = foldl (\<lambda>rate h. rate - ln_reserved p h) (ln_rate p) (higher_classes c);
            rate = (if c \<noteq> classRealtime then rate - ln_copies p else rate);
            rate = foldl (\<lambda>rate l. if ln_guaranteed p l then rate - minimumClassShare * ln_rate p else rate) rate (lower_classes c);
            rate = (if ln_guaranteed p c then max rate (minimumClassShare * ln_rate p) else rate)
        in max 0 rate)"

definition classWindow :: "lane \<Rightarrow> traffic_class \<Rightarrow> int \<Rightarrow> int \<Rightarrow> rat \<Rightarrow> int" where
  "classWindow p c sz win alw =
     (let share = max sz (to_duration (of_int win * alw / ln_rate p))
      in if c = classBulk \<and> ln_reserved p classRealtime > 0 \<and>
            (cn_capacity (ln_control p) > 0 \<or> ln_reserved p classRealtime + ln_copies p > alw) \<and>
            of_int sz / ln_rate p * of_int second > of_int targetQueue
         then sz else share)"

end
