(* ===== verification/Control.thy ===== *)
theory Control
  imports Lane
begin

text \<open>
  The rate control of a lane (internal/bond/control.go): discovery, holding below the capacity
  found, pulses above it, congestion signals, stalls and tests of the transit floor. Every operation
  takes the lane and returns it updated; an operation that also answers a question returns a pair.
\<close>

section \<open>Definitions\<close>

subsection \<open>Constants\<close>

definition capacityHold :: rat where "capacityHold = 95 / 100"
definition wanderLoad :: rat where "wanderLoad = 1 / 2"
definition capacityDrain :: rat where "capacityDrain = 85 / 100"
definition capacityDecay :: rat where "capacityDecay = 97 / 100"
definition capacityDrop :: rat where "capacityDrop = 75 / 100"
definition rediscoveryGain :: rat where "rediscoveryGain = 3 / 2"
definition pulseExcess :: rat where "pulseExcess = 1 / 10"
definition pulseGain :: rat where "pulseGain = 105 / 100"
definition pulseQueueFactor :: rat where "pulseQueueFactor = 3 / 2"
definition pulseWinsToLeave :: nat where "pulseWinsToLeave = 3"
definition pulseConfirmDatagrams :: u64 where "pulseConfirmDatagrams = 30"
definition pulseInterval :: duration where "pulseInterval = second"
definition maxPulseInterval :: duration where "maxPulseInterval = 16 * second"
definition policingMemory :: duration where "policingMemory = 60 * second"
definition floorTestInterval :: duration where "floorTestInterval = 2 * second"
definition maxFloorTestInterval :: duration where "maxFloorTestInterval = 16 * second"
definition pulseStagger :: duration where "pulseStagger = 100 * millisecond"
definition minPulse :: duration where "minPulse = 150 * millisecond"
definition maxPulse :: duration where "maxPulse = 500 * millisecond"
definition verdictExpiry :: duration where "verdictExpiry = second"
definition maxFlush :: duration where "maxFlush = 500 * millisecond"
definition flushQueues :: int where "flushQueues = 2"
definition drainQueues :: int where "drainQueues = 2"
definition lossPacingHeadroom :: rat where "lossPacingHeadroom = 105 / 100"
definition lossRateReduction :: rat where "lossRateReduction = 9 / 10"
definition queueSendExcessRatio :: rat where "queueSendExcessRatio = 12 / 10"
definition startupPlateauGrowth :: rat where "startupPlateauGrowth = 125 / 100"
definition startupPlateauRounds :: int where "startupPlateauRounds = 3"
definition startupPlateauSending :: rat where "startupPlateauSending = 75 / 100"
definition baselineDrain :: duration where "baselineDrain = 200 * millisecond"

subsection \<open>Writes to parts of the lane\<close>

abbreviation ctl :: "(lane_control \<Rightarrow> lane_control) \<Rightarrow> lane \<Rightarrow> lane" where
  "ctl f p \<equiv> p\<lparr>ln_control := f (ln_control p)\<rparr>"

abbreviation dec :: "(decisions \<Rightarrow> decisions) \<Rightarrow> lane \<Rightarrow> lane" where
  "dec f p \<equiv> p\<lparr>ln_decisions := f (ln_decisions p)\<rparr>"

subsection \<open>Measurements\<close>

definition awaitingVerdict :: "lane_control \<Rightarrow> bool" where
  "awaitingVerdict c \<longleftrightarrow> cn_verdictAt c \<noteq> zero_time"

definition schedulePulse :: "lane \<Rightarrow> instant \<Rightarrow> lane" where
  "schedulePulse p now =
     (let p = ctl (\<lambda>c. c\<lparr>cn_verdictAt := zero_time, cn_pulseEnd := zero_time\<rparr>) p;
          stagger = int (unat ((ln_id p XOR drop_bit 8 (ln_id p)) AND 7)) * pulseStagger
      in ctl (\<lambda>c. c\<lparr>cn_nextPulse := now + (max pulseInterval (cn_pulseEvery c) + stagger)\<rparr>) p)"

definition measuredDelivery :: "lane \<Rightarrow> rat" where
  "measuredDelivery p = max (ln_deliveryRate p) ((ln_deliverySample p + ln_previousDelivery p) / 2)"

definition sustained_value :: "lane \<Rightarrow> instant \<Rightarrow> rat \<times> lane" where
  "sustained_value p now = (let (v, d) = sd_value (ln_sustained p) now in (v, p\<lparr>ln_sustained := d\<rparr>))"

definition demonstrated :: "lane \<Rightarrow> instant \<Rightarrow> rat \<times> lane" where
  "demonstrated p now = (let m = measuredDelivery p; (v, p) = sustained_value p now in (max m v, p))"

definition polices :: "lane \<Rightarrow> instant \<Rightarrow> bool" where
  "polices p now \<longleftrightarrow> ln_droppedAt p \<noteq> zero_time \<and> time_sub now (ln_droppedAt p) < policingMemory"

definition raiseToDelivery :: "lane \<Rightarrow> instant \<Rightarrow> lane" where
  "raiseToDelivery p now =
     (let capacity = cn_capacity (ln_control p)
      in if ln_startup p \<or> capacity = 0 \<or> ln_previousDelivery p = 0 \<or> polices p now then p
         else
           let delivered = (ln_deliverySample p + ln_previousDelivery p) / 2
           in if delivered > (1 + pulseExcess / 2) * capacity
              then ctl (\<lambda>c. c\<lparr>cn_capacity := delivered\<rparr>) p else p)"

definition congestionThreshold :: "lane \<Rightarrow> duration" where
  "congestionThreshold p =
     (let threshold = max targetQueue (jitterAllowanceFactor * ln_idleForwardVariation p);
          threshold = (if ln_wanderKnown p
            then max threshold (ln_wander p + jitterAllowanceFactor * ln_wanderVariation p + targetQueue)
            else threshold)
      in min threshold maxThreshold)"

definition delaySamplesNeeded :: "lane \<Rightarrow> int" where
  "delaySamplesNeeded p =
     (let jitter = ln_intervalJitter p;
          jitter = (if ln_delayDifferences p \<le> jitterWarmup then max jitter (ln_idleRTTVariation p) else jitter);
          spread = jitterSpreadFactor * jitter;
          threshold = congestionThreshold p
      in if spread \<le> threshold then 1 else min maxDelaySamples ((2 * spread) sdiv threshold))"

definition lightlyLoaded :: "lane \<Rightarrow> bool \<times> lane" where
  "lightlyLoaded p =
     (let reference = cn_capacity (ln_control p);
          (reference, p) = (if ln_startup p \<or> reference = 0
            then let (v, m) = pe_value (ln_recentDelivery p) (ln_lastACK p)
                 in (min (ln_rate p) (max initialRate v), p\<lparr>ln_recentDelivery := m\<rparr>)
            else (reference, p))
      in (ln_sendRate p < wanderLoad * reference \<and> ln_deliveryRate p > 0 \<and>
          ln_sendRate p \<le> queueSendExcessRatio * ln_deliveryRate p, p))"

definition observeWander :: "lane \<Rightarrow> duration \<Rightarrow> lane" where
  "observeWander p delay =
     (if \<not> ln_wanderKnown p
      then p\<lparr>ln_wander := delay, ln_wanderVariation := delay sdiv 2, ln_wanderKnown := True\<rparr>
      else
        let difference = abs_duration (delay - ln_wander p)
        in p\<lparr>ln_wanderVariation := (3 * ln_wanderVariation p + difference) sdiv 4,
             ln_wander := (7 * ln_wander p + delay) sdiv 8\<rparr>)"

definition saturating :: "lane \<Rightarrow> bool" where
  "saturating p \<longleftrightarrow> ln_sendRate p \<ge> capacityDrain * ln_rate p"

definition cut :: "lane \<Rightarrow> bool \<Rightarrow> rat" where
  "cut p lost =
     (if lost then
        (if \<not> saturating p then lossRateReduction * ln_rate p
         else min (lossRateReduction * ln_rate p) (capacityHold * ln_deliveryRate p))
      else
        let rate = ln_rate p * (9 / 10)
        in if ln_deliveryRate p > 0 \<and> ln_sendRate p > queueSendExcessRatio * ln_deliveryRate p
           then min rate (lossPacingHeadroom * ln_deliveryRate p) else rate)"

definition drainTime :: "lane \<Rightarrow> duration \<Rightarrow> duration" where
  "drainTime p queued = to_duration (of_int drainQueues * of_int queued / (1 - capacityDrain)) + 2 * ln_rtt p"

subsection \<open>Stalls\<close>

definition stallEnded :: "lane \<Rightarrow> duration \<Rightarrow> lane" where
  "stallEnded p silence = p\<lparr>ln_stall := \<lparr>sl_length = silence, sl_through = ln_seq p\<rparr>\<rparr>"

definition explains :: "stall \<Rightarrow> duration \<Rightarrow> duration \<Rightarrow> bool" where
  "explains s delay threshold \<longleftrightarrow> sl_through s \<noteq> 0 \<and> delay \<le> sl_length s + threshold"

definition stalledSignal :: "lane \<Rightarrow> instant \<Rightarrow> lane" where
  "stalledSignal p now =
     (let p = dec (\<lambda>d. d\<lparr>dc_StallSignals := dc_StallSignals d + 1\<rparr>) p;
          capacity = cn_capacity (ln_control p)
      in if ln_startup p \<or> capacity = 0 then p
         else if awaitingVerdict (ln_control p)
         then (schedulePulse p now)\<lparr>ln_rate := max minimumRate (capacityDrain * capacity)\<rparr>
         else p\<lparr>ln_rate := max minimumRate (max (cut p False) (capacityDrop * capacity))\<rparr>)"

subsection \<open>Tests of the transit floor\<close>

definition floorTestPause :: "lane \<Rightarrow> duration \<Rightarrow> duration \<times> bool" where
  "floorTestPause p queued =
     (let bulk = allowed p classBulk
      in if bulk \<le> 0 then (0, False)
         else
           let needed = of_int drainQueues * of_int queued * ln_rate p / bulk
           in if needed > of_int baselineDrain then (0, False) else (to_duration needed, True))"

definition testFloor :: "lane \<Rightarrow> instant \<Rightarrow> duration \<Rightarrow> lane" where
  "testFloor p now queued =
     (let pause = fst (floorTestPause p queued);
          p = p\<lparr>ln_drainUntil := now + pause, ln_baselinePending := True, ln_floorTesting := True, ln_floorTested := now\<rparr>;
          p = ctl (\<lambda>c. c\<lparr>cn_holdSignal := False\<rparr>) p
      in schedulePulse p now)"

definition queueFound :: "lane \<Rightarrow> lane" where
  "queueFound p =
     (let p = ctl (\<lambda>c. c\<lparr>cn_capacity := cn_capacity c * capacityDecay\<rparr>) p
      in p\<lparr>ln_rate := max minimumRate (min (ln_rate p) (capacityHold * cn_capacity (ln_control p))),
           ln_floorTestEvery := min maxFloorTestInterval (2 * max floorTestInterval (ln_floorTestEvery p))\<rparr>)"

definition floorMoved :: "lane \<Rightarrow> duration \<Rightarrow> lane" where
  "floorMoved p sample =
     (rebaseline p sample)\<lparr>ln_transitBases := no_baselines, ln_floorTestEvery := floorTestInterval\<rparr>"

definition floorTestable :: "lane \<Rightarrow> instant \<Rightarrow> duration \<Rightarrow> bool" where
  "floorTestable p now queued \<longleftrightarrow>
     snd (floorTestPause p queued) \<and> ln_rate p \<le> cn_capacity (ln_control p) \<and> \<not> now < cn_drainBy (ln_control p) \<and>
     time_sub now (ln_floorTested p) \<ge> max floorTestInterval (ln_floorTestEvery p)"

definition pulseSettled :: "lane \<Rightarrow> instant \<Rightarrow> bool" where
  "pulseSettled p now \<longleftrightarrow>
     time_sub now (cn_wonAt (ln_control p)) \<ge> lossSettle + ln_rtt p \<and>
     (ln_seq p - cn_wonSeq (ln_control p) \<ge> pulseConfirmDatagrams \<or> \<not> polices p now)"

subsection \<open>Congestion\<close>

text \<open>The verdict on a pulse that raised the estimate, and the end of a drain that outlasted its queue.\<close>

definition congested_verdict :: "lane \<Rightarrow> instant \<Rightarrow> bool \<Rightarrow> lane" where
  "congested_verdict p now lost =
     (if cn_pending (ln_control p) \<and> lost then
        ctl (\<lambda>c. c\<lparr>cn_capacity := min (cn_capacity c) (cn_wonFrom c), cn_pending := False, cn_pulseWins := 0,
                    cn_pulseEvery := min maxPulseInterval (2 * max pulseInterval (cn_pulseEvery c))\<rparr>)
          (dec (\<lambda>d. d\<lparr>dc_PulseLosses := dc_PulseLosses d + 1\<rparr>) p)
      else if cn_pending (ln_control p) \<and> pulseSettled p now then
        ctl (\<lambda>c. c\<lparr>cn_pending := False, cn_pulseEvery := 0\<rparr>) (dec (\<lambda>d. d\<lparr>dc_PulseWins := dc_PulseWins d + 1\<rparr>) p)
      else p)"

definition congested_drain :: "lane \<Rightarrow> instant \<Rightarrow> bool \<Rightarrow> lane" where
  "congested_drain p now lost =
     (let probed = cn_drainBy (ln_control p);
          probed = (if lost then probed + lossSettle else probed)
      in if cn_draining (ln_control p) \<and> \<not> now < probed
         then ctl (\<lambda>c. c\<lparr>cn_draining := False, cn_holdSignal := True\<rparr>) p else p)"

text \<open>Congestion that ends discovery.\<close>

definition end_discovery :: "lane \<Rightarrow> instant \<Rightarrow> bool \<Rightarrow> bool \<Rightarrow> duration \<Rightarrow> lane" where
  "end_discovery p now lost limited queued =
     (let p = dec (\<lambda>d. d\<lparr>dc_DiscoveryCongested := dc_DiscoveryCongested d + 1\<rparr>) p;
          p = p\<lparr>ln_startup := False\<rparr>;
          (shown, p) = demonstrated p now;
          shown = (if \<not> limited \<and> \<not> lost then max shown (cn_capacity (ln_control p)) else shown);
          p = ctl (\<lambda>c. c\<lparr>cn_capacity := shown, cn_holdSignal := False, cn_pulseWins := 0, cn_draining := True,
                 cn_drainBy := now + drainTime p queued, cn_flushUntil := now + min maxFlush (flushQueues * queued)\<rparr>) p;
          p = schedulePulse p now
      in if \<not> limited
         then ctl (\<lambda>c. c\<lparr>cn_nextPulse := now\<rparr>)
                (p\<lparr>ln_rate := max minimumRate (max (cut p lost) (cn_capacity (ln_control p)))\<rparr>)
         else p\<lparr>ln_rate := max minimumRate (max (cut p lost) (capacityDrain * cn_capacity (ln_control p)))\<rparr>)"

text \<open>Whether repeated cuts took the target well below the estimate.\<close>

definition capacity_fell :: "lane \<Rightarrow> instant \<Rightarrow> bool \<Rightarrow> bool \<times> lane" where
  "capacity_fell p now lost =
     (if ln_rate p < capacityDrop * cn_capacity (ln_control p)
      then (if lost then (True, p)
            else let (v, p) = sustained_value p now in (v < capacityDecay * cn_capacity (ln_control p), p))
      else (False, p))"

definition remeasure :: "lane \<Rightarrow> instant \<Rightarrow> bool \<Rightarrow> duration \<Rightarrow> lane" where
  "remeasure p now lost queued =
     (let p = dec (\<lambda>d. d\<lparr>dc_CapacityRemeasured := dc_CapacityRemeasured d + 1\<rparr>) p;
          m = measuredDelivery p;
          p = ctl (\<lambda>c. c\<lparr>cn_capacity := m, cn_pulseWins := 0\<rparr>) p;
          p = (if \<not> lost then let (v, p) = demonstrated p now in ctl (\<lambda>c. c\<lparr>cn_capacity := v\<rparr>) p else p);
          p = p\<lparr>ln_rate := max minimumRate (cut p lost)\<rparr>;
          p = ctl (\<lambda>c. c\<lparr>cn_drainBy := now + drainTime p queued\<rparr>) p
      in ctl (\<lambda>c. c\<lparr>cn_nextPulse := now\<rparr>) (schedulePulse p now))"

definition decay :: "lane \<Rightarrow> instant \<Rightarrow> bool \<Rightarrow> duration \<Rightarrow> lane" where
  "decay p now lost queued =
     (let p = dec (\<lambda>d. d\<lparr>dc_CapacityDecays := dc_CapacityDecays d + 1\<rparr>) p;
          capacity = cn_capacity (ln_control p);
          decayed = capacityDecay * capacity;
          (decayed, p) = (if \<not> lost
             then let (v, p) = sustained_value p now in (max decayed (min capacity v), p)
             else (decayed, p));
          p = ctl (\<lambda>c. c\<lparr>cn_capacity := decayed\<rparr>) p;
          p = (if lost \<and> saturating p
               then ctl (\<lambda>c. c\<lparr>cn_capacity := min (cn_capacity c) (ln_deliveryRate p)\<rparr>) p else p);
          p = p\<lparr>ln_rate := max minimumRate (cut p lost)\<rparr>
      in ctl (\<lambda>c. c\<lparr>cn_drainBy := now + drainTime p queued\<rparr>) p)"

definition congested :: "lane \<Rightarrow> instant \<Rightarrow> bool \<Rightarrow> bool \<Rightarrow> lane" where
  "congested p now lost limited =
     (let queued = ln_queueDelay p;
          p = congested_verdict p now lost;
          p = congested_drain p now lost
      in if ln_startup p \<and> cn_capacity (ln_control p) = 0 \<and> \<not> limited \<and> \<not> lost
         then p\<lparr>ln_rate := max minimumRate (9 / 10 * ln_rate p)\<rparr>
         else if ln_startup p \<or> cn_capacity (ln_control p) = 0 then end_discovery p now lost limited queued
         else if awaitingVerdict (ln_control p) then
           let p = dec (\<lambda>d. d\<lparr>dc_PulseLosses := dc_PulseLosses d + 1\<rparr>) p;
               p = ctl (\<lambda>c. c\<lparr>cn_pulseWins := 0, cn_draining := True\<rparr>) p;
               p = (if lost then ctl (\<lambda>c. c\<lparr>cn_pulseEvery := min maxPulseInterval (2 * max pulseInterval (cn_pulseEvery c))\<rparr>) p else p);
               p = ctl (\<lambda>c. c\<lparr>cn_drainBy := now + drainTime p queued\<rparr>) p;
               p = p\<lparr>ln_rate := max minimumRate (capacityDrain * cn_capacity (ln_control p))\<rparr>
           in schedulePulse p now
         else if cn_draining (ln_control p)
         then p\<lparr>ln_rate := max minimumRate (max (cut p lost) (capacityDrop * cn_capacity (ln_control p)))\<rparr>
         else if \<not> cn_holdSignal (ln_control p) \<and> \<not> lost then ctl (\<lambda>c. c\<lparr>cn_holdSignal := True\<rparr>) p
         else if \<not> lost \<and> floorTestable p now (ln_signalDelay p) then testFloor p now (ln_signalDelay p)
         else
           let (fell, p) = capacity_fell p now lost
           in if fell then remeasure p now lost queued else decay p now lost queued)"

subsection \<open>Holding, pulses and discovery\<close>

definition pulse :: "lane \<Rightarrow> instant \<Rightarrow> lane" where
  "pulse p now =
     (let p = dec (\<lambda>d. d\<lparr>dc_Pulses := dc_Pulses d + 1\<rparr>) p;
          len = to_duration (pulseQueueFactor / pulseExcess * of_int (congestionThreshold p));
          len = min maxPulse (max minPulse len);
          p = ctl (\<lambda>c. c\<lparr>cn_pulseEnd := now + len, cn_verdictAt := now + len + (ln_rtt p + peerACKInterval p)\<rparr>) p
      in p\<lparr>ln_rate := min maximumRate ((1 + pulseExcess) * cn_capacity (ln_control p))\<rparr>)"

definition rediscover :: "lane \<Rightarrow> lane" where
  "rediscover p = p\<lparr>ln_startup := True, ln_startupBest := 0, ln_startupFlatRounds := 0, ln_discoveryGain := rediscoveryGain\<rparr>"

text \<open>A pulse whose feedback drew no signal raises the estimate; it counts as won once it has settled.\<close>

definition pulse_won :: "lane \<Rightarrow> instant \<Rightarrow> lane" where
  "pulse_won p now =
     (let p = ctl (\<lambda>c. c\<lparr>cn_pending := True, cn_wonAt := now, cn_wonSeq := ln_seq p, cn_wonFrom := cn_capacity c\<rparr>) p;
          p = ctl (\<lambda>c. c\<lparr>cn_capacity := cn_capacity c * (1 + (pulseGain - 1) * 2 ^ cn_pulseWins c)\<rparr>) p;
          p = schedulePulse p now;
          p = ctl (\<lambda>c. c\<lparr>cn_nextPulse := now + (lossSettle + ln_rtt p)\<rparr>) p
      in p\<lparr>ln_rate := capacityHold * cn_capacity (ln_control p)\<rparr>)"

definition pulse_counted :: "lane \<Rightarrow> instant \<Rightarrow> rat \<Rightarrow> bool \<Rightarrow> lane" where
  "pulse_counted p now limit limited =
     (let p = dec (\<lambda>d. d\<lparr>dc_PulseWins := dc_PulseWins d + 1\<rparr>) p;
          p = ctl (\<lambda>c. c\<lparr>cn_pending := False, cn_pulseEvery := 0, cn_pulseWins := cn_pulseWins c + 1\<rparr>) p
      in if cn_pulseWins (ln_control p) \<ge> pulseWinsToLeave then
           let p = dec (\<lambda>d. d\<lparr>dc_Rediscoveries := dc_Rediscoveries d + 1\<rparr>) p;
               p = ctl (\<lambda>c. c\<lparr>cn_pulseWins := 0\<rparr>) p
           in rediscover (schedulePulse p now)
         else if ln_rate p \<ge> limit \<and> limited \<and> ln_sendRate p \<ge> startupPlateauSending * limit then pulse p now
         else p)"

definition holdOrPulse :: "lane \<Rightarrow> instant \<Rightarrow> bool \<Rightarrow> lane" where
  "holdOrPulse p now limited =
     (let c = ln_control p;
          limit = capacityHold * cn_capacity c
      in if awaitingVerdict c \<and> now < cn_pulseEnd c then p
         else if awaitingVerdict c \<and> now < cn_verdictAt c then p\<lparr>ln_rate := limit\<rparr>
         else if awaitingVerdict c \<and> time_sub now (cn_verdictAt c) < verdictExpiry then pulse_won p now
         else if awaitingVerdict c then schedulePulse p now
         else if cn_pending c \<and> pulseSettled p now then pulse_counted p now limit limited
         else if \<not> now < cn_nextPulse c \<and> ln_rate p \<ge> limit \<and> limited \<and> ln_sendRate p \<ge> startupPlateauSending * limit
         then pulse p now
         else if ln_rate p < limit then p\<lparr>ln_rate := min limit (ln_rate p * (106 / 100) + 1500)\<rparr>
         else p)"

definition boundByDelivery :: "lane \<Rightarrow> instant \<Rightarrow> bool \<Rightarrow> bool \<times> lane" where
  "boundByDelivery p now stream =
     (if \<not> ln_startup p \<or> \<not> stream \<or> ln_reserved p classRealtime = 0 then (False, p)
      else
        let (delivered, m) = pe_value (ln_recentDelivery p) now;
            p = p\<lparr>ln_recentDelivery := m\<rparr>
        in if delivered = 0 then (False, p)
           else (True, p\<lparr>ln_rate := min (ln_rate p) (max minimumRate (rediscoveryGain * delivered))\<rparr>))"

definition plateau_found :: "lane \<Rightarrow> instant \<Rightarrow> lane" where
  "plateau_found p now =
     (let p = dec (\<lambda>d. d\<lparr>dc_DiscoveryPlateau := dc_DiscoveryPlateau d + 1\<rparr>) p;
          p = p\<lparr>ln_startup := False\<rparr>;
          (v, p) = demonstrated p now;
          p = p\<lparr>ln_control := new_control (min (ln_startupBest p) v)\<rparr>;
          p = schedulePulse p now
      in p\<lparr>ln_rate := max minimumRate (capacityHold * cn_capacity (ln_control p))\<rparr>)"

text \<open>The end of a delivery round during discovery: True when delivery stopped growing.\<close>

definition plateau :: "lane \<Rightarrow> instant \<Rightarrow> rat \<Rightarrow> bool \<times> lane" where
  "plateau p now delivered =
     (if \<not> ln_roundDone p then (False, p)
      else
        let p = p\<lparr>ln_roundDone := False\<rparr>
        in if delivered \<ge> startupPlateauGrowth * ln_startupBest p
           then (False, p\<lparr>ln_startupBest := delivered, ln_startupFlatRounds := 0\<rparr>)
           else if ln_sendRate p < startupPlateauSending * ln_rate p
           then (False, p\<lparr>ln_startupFlatRounds := 0\<rparr>)
           else
             let p = p\<lparr>ln_startupFlatRounds := ln_startupFlatRounds p + 1\<rparr>
             in if ln_startupFlatRounds p \<ge> startupPlateauRounds then (True, plateau_found p now)
                else (False, p))"

text \<open>The target follows delivery by the discovery gain, and leads what the lane carries by no more.\<close>

definition follow_delivery :: "lane \<Rightarrow> instant \<Rightarrow> rat \<Rightarrow> rat \<Rightarrow> bool \<Rightarrow> bool \<Rightarrow> lane" where
  "follow_delivery p now gain delivered stream limited =
     (let p = p\<lparr>ln_rate := max (ln_rate p) (gain * delivered)\<rparr>;
          (bound, p) = boundByDelivery p now stream
      in if bound then p
         else
           let carried = max delivered (ln_sendRate p)
           in if carried > 0
              then let floor = (if limited then minimumRate else initialRate)
                   in p\<lparr>ln_rate := min (ln_rate p) (max floor (gain * carried))\<rparr>
              else p)"

definition discover :: "lane \<Rightarrow> instant \<Rightarrow> bool \<Rightarrow> bool \<Rightarrow> bool \<Rightarrow> lane" where
  "discover p now realtime stream limited =
     (let gain = ln_discoveryGain p;
          gain = (if realtime then min gain rediscoveryGain else gain);
          p = p\<lparr>ln_rate := min maximumRate (ln_rate p * (106 / 100) + 1500)\<rparr>;
          delivered = max (ln_deliveryRate p) (ln_deliverySample p);
          (ended, p) = plateau p now delivered
      in if ended then p else follow_delivery p now gain delivered stream limited)"

definition adjust :: "lane \<Rightarrow> instant \<Rightarrow> bool \<Rightarrow> bool \<Rightarrow> bool \<Rightarrow> bool \<Rightarrow> bool \<Rightarrow> bool \<Rightarrow> lane" where
  "adjust p now lost delayed sampled limited realtime stream =
     (if ln_startup p \<and> lost \<and> \<not> ln_roundLossy p then p
      else
        let lost = (lost \<and> ln_roundLossy p \<and> ln_deliveryRate p > 0)
        in if delayed \<and> \<not> lost \<and> explains (ln_stall p) (ln_signalDelay p) (congestionThreshold p)
           then stalledSignal p now
           else if lost \<or> delayed then
             let p = (if delayed then dec (\<lambda>d. d\<lparr>dc_DelaySignals := dc_DelaySignals d + 1\<rparr>) p else p);
                 p = (if lost then (dec (\<lambda>d. d\<lparr>dc_LossSignals := dc_LossSignals d + 1\<rparr>) p)\<lparr>ln_droppedAt := now\<rparr> else p)
             in congested p now lost limited
           else if sampled then
             let p = ctl (\<lambda>c. c\<lparr>cn_holdSignal := False, cn_draining := False, cn_flushUntil := zero_time\<rparr>) p
             in if ln_startup p then discover p now realtime stream limited
                else if cn_capacity (ln_control p) = 0
                then p\<lparr>ln_rate := min maximumRate (ln_rate p * (106 / 100) + 1500)\<rparr>
                else holdOrPulse p now limited
           else p)"

end
