(* ===== verification/Control_Rates.thy ===== *)
theory Control_Rates
  imports Control
begin

text \<open>
  What the rate control guarantees: a lane's target stays positive and its estimates stay
  non-negative, and nothing of the control touches the lane's attempts, its in-flight counts or its
  sequence.
\<close>

section \<open>Well-formed rates\<close>

definition rates_ok :: "lane \<Rightarrow> bool" where
  "rates_ok p \<longleftrightarrow> 0 < ln_rate p \<and> 0 \<le> cn_capacity (ln_control p) \<and> 0 \<le> cn_wonFrom (ln_control p) \<and>
     0 \<le> ln_deliveryRate p \<and> 0 \<le> ln_deliverySample p \<and> 0 \<le> ln_previousDelivery p \<and> 0 \<le> ln_startupBest p"

text \<open>The fields that rate control leaves alone.\<close>

definition kept :: "lane \<Rightarrow> path_id \<times> path_id \<times> (u64 \<times> attempt) list \<times> int \<times> (traffic_class \<Rightarrow> int) \<times> u64 \<times> nat \<times>
    receipt_window \<times> instant \<times> u64 \<times> u64" where
  "kept p = (ln_id p, ln_remoteID p, ln_attempts p, ln_inflight p, ln_classInflight p, ln_seq p, length (ln_transitBases p),
     ln_ackReceipts p, ln_feedbackAt p, ln_rateElapsed p, ln_ackedElapsed p)"

named_theorems lane_keeps \<open>operations that leave the kept fields alone\<close>
named_theorems lane_rates \<open>operations that preserve well-formed rates\<close>

lemma minimumRate_pos: "0 < minimumRate"
  by (simp add: minimumRate_def)

lemma initialRate_pos: "0 < initialRate"
  by (simp add: initialRate_def)

lemma maximumRate_pos: "0 < maximumRate"
  by (simp add: maximumRate_def)

lemma foldl_max_nonneg: "0 \<le> foldl max (0 :: rat) xs"
  by (simp add: foldl_max)

lemma pe_value_nonneg: "0 \<le> fst (pe_value m now)"
  by (simp add: pe_value_def Let_def foldl_max_nonneg)

lemma sd_value_nonneg: "0 \<le> fst (sd_value d now)"
  by (simp add: sd_value_def case_prod_beta pe_value_nonneg)

subsection \<open>Measurements\<close>

lemma schedulePulse_keeps [lane_keeps]: "kept (schedulePulse p now) = kept p"
  by (simp add: schedulePulse_def kept_def Let_def)

lemma schedulePulse_rates [lane_rates]: "rates_ok (schedulePulse p now) = rates_ok p"
  by (simp add: schedulePulse_def rates_ok_def Let_def)

lemma schedulePulse_simps [simp]:
  "cn_capacity (ln_control (schedulePulse p now)) = cn_capacity (ln_control p)"
  "cn_wonFrom (ln_control (schedulePulse p now)) = cn_wonFrom (ln_control p)"
  "ln_rate (schedulePulse p now) = ln_rate p" "ln_startup (schedulePulse p now) = ln_startup p"
  by (simp_all add: schedulePulse_def Let_def)

lemma sustained_value_lane:
  "\<exists>d. snd (sustained_value p now) = p\<lparr>ln_sustained := d\<rparr>" "0 \<le> fst (sustained_value p now)"
  by (auto simp: sustained_value_def case_prod_beta sd_value_nonneg)

lemma measuredDelivery_nonneg: "rates_ok p \<Longrightarrow> 0 \<le> measuredDelivery p"
  by (simp add: measuredDelivery_def rates_ok_def le_max_iff_disj)

lemma demonstrated_lane:
  "\<exists>d. snd (demonstrated p now) = p\<lparr>ln_sustained := d\<rparr>"
  using sustained_value_lane(1) [of p now] by (simp add: demonstrated_def case_prod_beta Let_def)

lemma demonstrated_nonneg: "0 \<le> fst (demonstrated p now)"
  using sustained_value_lane(2) [of p now] by (simp add: demonstrated_def case_prod_beta Let_def le_max_iff_disj)

lemma sustained_keeps [lane_keeps]:
  "kept (snd (sustained_value p now)) = kept p" "kept (snd (demonstrated p now)) = kept p"
  using sustained_value_lane(1) [of p now] demonstrated_lane [of p now] by (auto simp: kept_def)

lemma sustained_rates [lane_rates]:
  "rates_ok (snd (sustained_value p now)) = rates_ok p" "rates_ok (snd (demonstrated p now)) = rates_ok p"
  using sustained_value_lane(1) [of p now] demonstrated_lane [of p now] by (auto simp: rates_ok_def)

lemma sustained_simps [simp]:
  "ln_control (snd (sustained_value p now)) = ln_control p" "ln_control (snd (demonstrated p now)) = ln_control p"
  "ln_startupBest (snd (demonstrated p now)) = ln_startupBest p"
  using sustained_value_lane(1) [of p now] demonstrated_lane [of p now] by auto

lemma raiseToDelivery_keeps [lane_keeps]: "kept (raiseToDelivery p now) = kept p"
  by (simp add: raiseToDelivery_def kept_def Let_def)

lemma raiseToDelivery_rates [lane_rates]: "rates_ok p \<Longrightarrow> rates_ok (raiseToDelivery p now)"
  by (auto simp: raiseToDelivery_def rates_ok_def Let_def)

lemma lightlyLoaded_keeps [lane_keeps]: "kept (snd (lightlyLoaded p)) = kept p"
  by (simp add: lightlyLoaded_def kept_def case_prod_beta Let_def)

lemma lightlyLoaded_rates [lane_rates]: "rates_ok (snd (lightlyLoaded p)) = rates_ok p"
  by (simp add: lightlyLoaded_def rates_ok_def case_prod_beta Let_def)

lemma observeWander_keeps [lane_keeps]: "kept (observeWander p d) = kept p"
  by (simp add: observeWander_def kept_def Let_def)

lemma observeWander_rates [lane_rates]: "rates_ok (observeWander p d) = rates_ok p"
  by (simp add: observeWander_def rates_ok_def Let_def)

subsection \<open>Signals\<close>

lemma rates_ok_rate: "rates_ok p \<Longrightarrow> 0 < r \<Longrightarrow> rates_ok (p\<lparr>ln_rate := r\<rparr>)"
  by (simp add: rates_ok_def)

lemma rates_ok_rate_floor: "rates_ok p \<Longrightarrow> rates_ok (p\<lparr>ln_rate := max minimumRate r\<rparr>)"
  by (simp add: rates_ok_def minimumRate_pos less_max_iff_disj)

lemma rates_ok_control:
  "rates_ok p \<Longrightarrow> 0 \<le> cn_capacity c \<Longrightarrow> 0 \<le> cn_wonFrom c \<Longrightarrow> rates_ok (p\<lparr>ln_control := c\<rparr>)"
  by (simp add: rates_ok_def)

lemma rates_ok_other [simp]:
  "rates_ok (p\<lparr>ln_decisions := d\<rparr>) = rates_ok p" "rates_ok (p\<lparr>ln_startup := b\<rparr>) = rates_ok p"
  "rates_ok (p\<lparr>ln_droppedAt := now\<rparr>) = rates_ok p" "rates_ok (p\<lparr>ln_roundDone := b\<rparr>) = rates_ok p"
  "rates_ok (p\<lparr>ln_startupFlatRounds := n\<rparr>) = rates_ok p" "rates_ok (p\<lparr>ln_recentDelivery := m\<rparr>) = rates_ok p"
  by (simp_all add: rates_ok_def)

lemma kept_other [simp]:
  "kept (p\<lparr>ln_decisions := d\<rparr>) = kept p" "kept (p\<lparr>ln_startup := b\<rparr>) = kept p"
  "kept (p\<lparr>ln_droppedAt := now\<rparr>) = kept p" "kept (p\<lparr>ln_roundDone := b\<rparr>) = kept p" "kept (p\<lparr>ln_rate := r\<rparr>) = kept p"
  "kept (p\<lparr>ln_startupFlatRounds := n\<rparr>) = kept p" "kept (p\<lparr>ln_startupBest := x\<rparr>) = kept p"
  "kept (p\<lparr>ln_control := c\<rparr>) = kept p" "kept (p\<lparr>ln_recentDelivery := m\<rparr>) = kept p"
  by (simp_all add: kept_def)

lemma rates_ok_parts:
  assumes "rates_ok p"
  shows "0 < ln_rate p" and "0 \<le> cn_capacity (ln_control p)" and "0 \<le> cn_wonFrom (ln_control p)"
    and "0 \<le> ln_deliveryRate p" and "0 \<le> ln_startupBest p"
  using assms by (simp_all add: rates_ok_def)

lemma stalledSignal_rates [lane_rates]: "rates_ok p \<Longrightarrow> rates_ok (stalledSignal p now)"
  by (simp add: stalledSignal_def Let_def rates_ok_rate_floor lane_rates)

lemma stalledSignal_keeps [lane_keeps]: "kept (stalledSignal p now) = kept p"
  by (simp add: stalledSignal_def Let_def lane_keeps)

lemma testFloor_keeps [lane_keeps]: "kept (testFloor p now queued) = kept p"
  by (simp add: testFloor_def Let_def lane_keeps) (simp add: kept_def)

lemma testFloor_rates [lane_rates]: "rates_ok (testFloor p now queued) = rates_ok p"
  by (simp add: testFloor_def Let_def lane_rates) (simp add: rates_ok_def)

lemma queueFound_keeps [lane_keeps]: "kept (queueFound p) = kept p"
  by (simp add: queueFound_def Let_def kept_def)

lemma queueFound_rates [lane_rates]: "rates_ok p \<Longrightarrow> rates_ok (queueFound p)"
  by (simp add: queueFound_def Let_def rates_ok_def capacityDecay_def minimumRate_pos less_max_iff_disj)

lemma floorMoved_keeps [lane_keeps]:
  "length (ln_transitBases p) = transit_buckets \<Longrightarrow> kept (floorMoved p sample) = kept p"
  by (simp add: floorMoved_def rebaseline_def kept_def no_baselines_def)

lemma floorMoved_rates [lane_rates]: "rates_ok (floorMoved p sample) = rates_ok p"
  by (simp add: floorMoved_def rebaseline_def rates_ok_def)

lemma congested_verdict_keeps [lane_keeps]: "kept (congested_verdict p now lost) = kept p"
  by (simp add: congested_verdict_def)

lemma congested_verdict_rates [lane_rates]: "rates_ok p \<Longrightarrow> rates_ok (congested_verdict p now lost)"
  by (auto simp: congested_verdict_def intro!: rates_ok_control dest: rates_ok_parts)

lemma congested_drain_keeps [lane_keeps]: "kept (congested_drain p now lost) = kept p"
  by (simp add: congested_drain_def Let_def)

lemma congested_drain_rates [lane_rates]: "rates_ok p \<Longrightarrow> rates_ok (congested_drain p now lost)"
  by (auto simp: congested_drain_def Let_def intro!: rates_ok_control dest: rates_ok_parts)

lemma end_discovery_keeps [lane_keeps]: "kept (end_discovery p now lost limited queued) = kept p"
  by (simp add: end_discovery_def Let_def case_prod_beta lane_keeps)

lemma end_discovery_rates [lane_rates]: "rates_ok p \<Longrightarrow> rates_ok (end_discovery p now lost limited queued)"
  using demonstrated_nonneg [of "p\<lparr>ln_decisions := (ln_decisions p)\<lparr>dc_DiscoveryCongested := dc_DiscoveryCongested (ln_decisions p) + 1\<rparr>, ln_startup := False\<rparr>" now]
  by (auto simp: end_discovery_def Let_def case_prod_beta lane_rates rates_ok_parts le_max_iff_disj
      intro!: rates_ok_control rates_ok_rate_floor)

lemma capacity_fell_keeps [lane_keeps]: "kept (snd (capacity_fell p now lost)) = kept p"
  by (simp add: capacity_fell_def case_prod_beta lane_keeps)

lemma capacity_fell_rates [lane_rates]: "rates_ok (snd (capacity_fell p now lost)) = rates_ok p"
  by (simp add: capacity_fell_def case_prod_beta lane_rates)

lemma remeasure_keeps [lane_keeps]: "kept (remeasure p now lost queued) = kept p"
  by (simp add: remeasure_def Let_def case_prod_beta lane_keeps)

lemma remeasure_rates [lane_rates]: "rates_ok p \<Longrightarrow> rates_ok (remeasure p now lost queued)"
  by (auto simp: remeasure_def Let_def case_prod_beta lane_rates rates_ok_parts demonstrated_nonneg measuredDelivery_nonneg
      intro!: rates_ok_control rates_ok_rate_floor)

lemma decay_keeps [lane_keeps]: "kept (decay p now lost queued) = kept p"
  by (simp add: decay_def Let_def case_prod_beta lane_keeps)

lemma decay_rates [lane_rates]:
  assumes "rates_ok p"
  shows "rates_ok (decay p now lost queued)"
proof -
  have "0 \<le> capacityDecay * cn_capacity (ln_control p)" using assms by (simp add: rates_ok_def capacityDecay_def)
  then show ?thesis
    using assms
    by (auto simp: decay_def Let_def case_prod_beta lane_rates rates_ok_parts le_max_iff_disj
        intro!: rates_ok_control rates_ok_rate_floor)
qed

lemma congested_keeps [lane_keeps]: "kept (congested p now lost limited) = kept p"
  by (simp add: congested_def Let_def case_prod_beta lane_keeps)

lemma congested_rates [lane_rates]:
  assumes "rates_ok p"
  shows "rates_ok (congested p now lost limited)"
proof -
  let ?q = "congested_drain (congested_verdict p now lost) now lost"
  have q: "rates_ok ?q" using assms by (simp add: lane_rates)
  then show ?thesis
    by (auto simp: congested_def Let_def case_prod_beta lane_rates rates_ok_parts
        intro!: rates_ok_control rates_ok_rate_floor)
qed

subsection \<open>Holding and discovery\<close>

lemma pulse_keeps [lane_keeps]: "kept (pulse p now) = kept p"
  by (simp add: pulse_def Let_def)

lemma pulse_rates [lane_rates]: "rates_ok p \<Longrightarrow> 0 < cn_capacity (ln_control p) \<Longrightarrow> rates_ok (pulse p now)"
  by (auto simp: pulse_def Let_def maximumRate_pos pulseExcess_def intro!: rates_ok_rate rates_ok_control dest: rates_ok_parts)

lemma rediscover_keeps [lane_keeps]: "kept (rediscover p) = kept p"
  by (simp add: rediscover_def kept_def)

lemma rediscover_rates [lane_rates]: "rates_ok p \<Longrightarrow> rates_ok (rediscover p)"
  by (simp add: rediscover_def rates_ok_def)

lemma pulse_raise_pos: "0 < (x :: rat) \<Longrightarrow> 0 < x * (1 + (pulseGain - 1) * 2 ^ n)"
proof -
  assume "0 < x"
  moreover have "0 < 1 + (pulseGain - 1) * 2 ^ n" by (simp add: pulseGain_def add_pos_pos)
  ultimately show ?thesis by simp
qed

lemma pulse_won_keeps [lane_keeps]: "kept (pulse_won p now) = kept p"
  by (simp add: pulse_won_def Let_def lane_keeps)

lemma pulse_won_rates [lane_rates]:
  assumes "rates_ok p" and "0 < cn_capacity (ln_control p)"
  shows "rates_ok (pulse_won p now)"
  using pulse_raise_pos [OF assms(2), of "cn_pulseWins (ln_control p)"] assms
  by (simp add: pulse_won_def Let_def schedulePulse_def rates_ok_def capacityHold_def less_imp_le)

lemma pulse_counted_keeps [lane_keeps]: "kept (pulse_counted p now limit limited) = kept p"
  by (simp add: pulse_counted_def Let_def lane_keeps)

lemma pulse_counted_rates [lane_rates]:
  assumes "rates_ok p" and "0 < cn_capacity (ln_control p)"
  shows "rates_ok (pulse_counted p now limit limited)"
proof -
  have c: "rates_ok (p\<lparr>ln_decisions := d, ln_control := c\<rparr>)" if "cn_capacity c = cn_capacity (ln_control p)" "cn_wonFrom c = cn_wonFrom (ln_control p)" for c d
    using assms that by (simp add: rates_ok_def)
  then have "rates_ok (pulse (p\<lparr>ln_decisions := d, ln_control := c\<rparr>) now)"
    if "cn_capacity c = cn_capacity (ln_control p)" "cn_wonFrom c = cn_wonFrom (ln_control p)" for c d
    using that assms(2) by (intro pulse_rates) simp_all
  with c show ?thesis by (simp add: pulse_counted_def Let_def lane_rates)
qed

lemma holdOrPulse_keeps [lane_keeps]: "kept (holdOrPulse p now limited) = kept p"
  by (simp add: holdOrPulse_def Let_def lane_keeps)

lemma holdOrPulse_rates [lane_rates]:
  assumes ok: "rates_ok p" and pos: "0 < cn_capacity (ln_control p)"
  shows "rates_ok (holdOrPulse p now limited)"
proof -
  have lim: "0 < capacityHold * cn_capacity (ln_control p)" using pos by (simp add: capacityHold_def)
  have grow: "0 < min (capacityHold * cn_capacity (ln_control p)) (ln_rate p * (106 / 100) + 1500)"
    using lim rates_ok_parts(1) [OF ok] by simp
  show ?thesis
    unfolding holdOrPulse_def Let_def
    using rates_ok_rate [OF ok lim] rates_ok_rate [OF ok grow] ok pos by (simp add: lane_rates)
qed

lemma boundByDelivery_keeps [lane_keeps]: "kept (snd (boundByDelivery p now stream)) = kept p"
  by (simp add: boundByDelivery_def Let_def case_prod_beta)

lemma boundByDelivery_rates [lane_rates]: "rates_ok p \<Longrightarrow> rates_ok (snd (boundByDelivery p now stream))"
  by (auto simp: boundByDelivery_def Let_def case_prod_beta minimumRate_pos less_max_iff_disj
      intro!: rates_ok_rate dest: rates_ok_parts)

lemma plateau_found_keeps [lane_keeps]: "kept (plateau_found p now) = kept p"
  by (simp add: plateau_found_def Let_def case_prod_beta lane_keeps)

lemma plateau_found_rates [lane_rates]:
  assumes "rates_ok p"
  shows "rates_ok (plateau_found p now)"
proof -
  have "rates_ok (q\<lparr>ln_control := new_control x\<rparr>)" if "rates_ok q" "0 \<le> x" for q x
    using that by (simp add: rates_ok_def new_control_def)
  then show ?thesis
    using assms rates_ok_parts(5) [OF assms]
    by (simp add: plateau_found_def Let_def case_prod_beta lane_rates demonstrated_nonneg rates_ok_rate_floor)
qed

lemma plateau_keeps [lane_keeps]: "kept (snd (plateau p now d)) = kept p"
  by (simp add: plateau_def Let_def case_prod_beta lane_keeps)

lemma plateau_rates [lane_rates]:
  assumes "rates_ok p" and "0 \<le> d"
  shows "rates_ok (snd (plateau p now d))"
proof -
  have "rates_ok (q\<lparr>ln_startupBest := d\<rparr>)" if "rates_ok q" for q
    using that assms(2) by (simp add: rates_ok_def)
  then show ?thesis using assms(1) by (simp add: plateau_def Let_def lane_rates)
qed

lemma follow_delivery_keeps [lane_keeps]: "kept (follow_delivery p now g d stream limited) = kept p"
  by (simp add: follow_delivery_def Let_def case_prod_beta lane_keeps)

lemma follow_delivery_rates [lane_rates]:
  assumes "rates_ok p"
  shows "rates_ok (follow_delivery p now g d stream limited)"
proof -
  define q where "q = snd (boundByDelivery (p\<lparr>ln_rate := max (ln_rate p) (g * d)\<rparr>) now stream)"
  have "rates_ok (p\<lparr>ln_rate := max (ln_rate p) (g * d)\<rparr>)"
    using assms rates_ok_parts(1) [OF assms] by (intro rates_ok_rate) (simp_all add: less_max_iff_disj)
  then have q: "rates_ok q" unfolding q_def by (rule boundByDelivery_rates)
  have "rates_ok (q\<lparr>ln_rate := min (ln_rate q) (max (if limited then minimumRate else initialRate) x)\<rparr>)" for x
    using q rates_ok_parts(1) [OF q] minimumRate_pos initialRate_pos by (intro rates_ok_rate) (auto simp: less_max_iff_disj)
  then show ?thesis using q unfolding follow_delivery_def Let_def case_prod_beta q_def [symmetric] by simp
qed

lemma discover_keeps [lane_keeps]: "kept (discover p now realtime stream limited) = kept p"
  by (simp add: discover_def Let_def case_prod_beta lane_keeps)

lemma discover_rates [lane_rates]:
  assumes "rates_ok p"
  shows "rates_ok (discover p now realtime stream limited)"
proof -
  define q where "q = p\<lparr>ln_rate := min maximumRate (ln_rate p * (106 / 100) + 1500)\<rparr>"
  have "0 < min maximumRate (ln_rate p * (106 / 100) + 1500)"
    using maximumRate_pos rates_ok_parts(1) [OF assms] by simp
  then have q: "rates_ok q" unfolding q_def by (rule rates_ok_rate [OF assms])
  then have "0 \<le> max (ln_deliveryRate q) (ln_deliverySample q)" by (simp add: rates_ok_def le_max_iff_disj)
  note pl = plateau_rates [OF q this, of now]
  then show ?thesis
    unfolding discover_def Let_def case_prod_beta q_def [symmetric] using follow_delivery_rates [OF pl] by simp
qed

lemma adjust_keeps [lane_keeps]: "kept (adjust p now lost delayed sampled limited realtime stream) = kept p"
  by (simp add: adjust_def Let_def lane_keeps)

lemma adjust_rates [lane_rates]:
  assumes ok: "rates_ok p"
  shows "rates_ok (adjust p now lost delayed sampled limited realtime stream)"
proof -
  define q where "q = ctl (\<lambda>c. c\<lparr>cn_holdSignal := False, cn_draining := False, cn_flushUntil := zero_time\<rparr>) p"
  have q: "rates_ok q" "cn_capacity (ln_control q) = cn_capacity (ln_control p)" "ln_startup q = ln_startup p"
    using ok by (auto simp: q_def intro!: rates_ok_control dest: rates_ok_parts)
  have hold: "rates_ok (holdOrPulse q now limited)" if "cn_capacity (ln_control q) \<noteq> 0"
    using holdOrPulse_rates [OF q(1)] rates_ok_parts(2) [OF q(1)] that by simp
  have grow: "rates_ok (q\<lparr>ln_rate := min maximumRate (ln_rate q * (106 / 100) + 1500)\<rparr>)"
    using maximumRate_pos rates_ok_parts(1) [OF q(1)] by (intro rates_ok_rate [OF q(1)]) simp
  show ?thesis
    unfolding adjust_def Let_def q_def [symmetric]
    using ok q hold grow by (simp add: lane_rates)
qed

end
