(* ===== verification/Transport.thy ===== *)
theory Transport
  imports Control Codel "HOL-Library.Monad_Syntax"
begin

text \<open>
  The multipath datagram transport (internal/bond/bond.go and schedule.go): admission, assignment of
  datagrams to lanes, transmission, repair, keepalives and acknowledgements sent. Receiving is in
  the theory after this one.

  The transport is a record passed through every operation. Its lanes are a list; a pointer to a
  lane is the lane's identifier, which is unique. Sent packets live in \<open>tp_packets\<close>, keyed by
  sequence; the map of pending packets is the list of its keys. Go visits the entries of a map in an
  unspecified order, so operations that loop over a map take the order as an argument: a function
  from the loop and its keys to the keys in the order visited. None stands for a nil dereference or
  an index out of range.
\<close>

section \<open>Definitions\<close>

subsection \<open>Constants\<close>

definition maxQueueAge :: duration where "maxQueueAge = 100 * millisecond"
definition realtimeQueueTarget :: duration where "realtimeQueueTarget = 20 * millisecond"
definition realtimeQueueInterval :: duration where "realtimeQueueInterval = 100 * millisecond"
definition maxBulkQueueAge :: duration where "maxBulkQueueAge = 250 * millisecond"
definition discoveryQueueAge :: duration where "discoveryQueueAge = second"
definition maxPacketAge :: duration where "maxPacketAge = 250 * millisecond"
definition ackGapHorizon :: duration where "ackGapHorizon = 4 * maxACKInterval"
definition priorityLead :: duration where "priorityLead = 5 * millisecond"
definition smallClassShare :: rat where "smallClassShare = 1 / 2"
definition reservationHeadroom :: rat where "reservationHeadroom = 11 / 10"
definition feedbackHorizon :: duration where "feedbackHorizon = 2 * second"
definition baselineInterval :: duration where "baselineInterval = 10 * second"
definition baselineStagger :: duration where "baselineStagger = 500 * millisecond"
definition smallPacketHeadroom :: nat where "smallPacketHeadroom = 1024"
definition redundancyRate :: rat where "redundancyRate = 64000"
definition redundancyShare :: rat where "redundancyShare = 1 / 5"
definition standingWait :: duration where "standingWait = 5 * millisecond"

subsection \<open>State\<close>

record transmission =
  tx_Path :: path_id
  tx_Frame :: control

record receiver =
  rc_path :: path_id
  rc_remoteLane :: path_id
  rc_receipts :: receipt_window
  rc_bytes :: u64
  rc_start :: instant
  rc_last :: instant
  rc_highAt :: instant
  rc_pending :: int
  rc_ackAt :: instant
  rc_streak :: int
  rc_received :: rate_meter
  rc_revision :: u64

record drop_stats =
  ds_Admission :: u64
  ds_Deadline :: u64
  ds_Stale :: u64

record residence_stats =
  rd_Count :: u64
  rd_TotalSeconds :: rat
  rd_Buckets :: "u64 list"

record transport =
  tp_epoch :: epoch
  tp_remote :: epoch
  tp_paths :: "lane list"
  tp_receivers :: "receiver list"
  tp_queue :: "packet list"
  tp_bulkAQM :: codel
  tp_small :: "traffic_class \<Rightarrow> fair_packet_queue"
  tp_demand :: "traffic_class \<Rightarrow> rate_meter"
  tp_packets :: packets
  tp_pending :: "u64 list"
  tp_pendingOrder :: "u64 list"
  tp_seq :: u64
  tp_bulkSeq :: u64
  tp_interactiveSeq :: u64
  tp_redundancyTokens :: rat
  tp_realtimeLate :: instant
  tp_realtimeSkipping :: bool
  tp_realtimePath :: path_id
  tp_realtimePathKnown :: bool
  tp_realtimeMoves :: u64
  tp_lastPoll :: instant
  tp_lastTime :: instant
  tp_rejected :: "rejection_cause \<Rightarrow> u64"
  tp_drops :: u64
  tp_admissionDrops :: u64
  tp_aqmDrops :: u64
  tp_interactiveDrops :: u64
  tp_smallQueueDrops :: "traffic_class \<Rightarrow> drop_stats"
  tp_smallQueueResidence :: "traffic_class \<Rightarrow> residence_stats"
  tp_coalescedACKs :: u64
  tp_expired :: u64
  tp_duplicates :: u64
  tp_received :: receipt_window
  tp_unreported :: receipt_window

type_synonym visit = "nat \<Rightarrow> u64 list \<Rightarrow> u64 list"

definition no_epoch :: epoch where
  "no_epoch = \<lparr>ep_Boot = 0, ep_Generation = 0\<rparr>"

definition New :: "epoch \<Rightarrow> transport option" where
  "New ep =
     (if ep_Boot ep = 0 \<or> ep_Generation ep = 0 then None
      else Some \<lparr>tp_epoch = ep, tp_remote = no_epoch, tp_paths = [], tp_receivers = [], tp_queue = [],
        tp_bulkAQM = codel_zero, tp_small = (\<lambda>_. fq_empty), tp_demand = (\<lambda>_. rate_meter_zero), tp_packets = Map.empty,
        tp_pending = [], tp_pendingOrder = [], tp_seq = 0, tp_bulkSeq = 0, tp_interactiveSeq = 0,
        tp_redundancyTokens = 0, tp_realtimeLate = zero_time, tp_realtimeSkipping = False, tp_realtimePath = 0,
        tp_realtimePathKnown = False, tp_realtimeMoves = 0, tp_lastPoll = zero_time, tp_lastTime = zero_time,
        tp_rejected = (\<lambda>_. 0), tp_drops = 0, tp_admissionDrops = 0, tp_aqmDrops = 0, tp_interactiveDrops = 0,
        tp_smallQueueDrops = (\<lambda>_. \<lparr>ds_Admission = 0, ds_Deadline = 0, ds_Stale = 0\<rparr>),
        tp_smallQueueResidence = (\<lambda>_. \<lparr>rd_Count = 0, rd_TotalSeconds = 0, rd_Buckets = replicate 6 0\<rparr>),
        tp_coalescedACKs = 0, tp_expired = 0, tp_duplicates = 0, tp_received = no_receipts, tp_unreported = no_receipts\<rparr>)"

subsection \<open>Lanes of the transport\<close>

definition find_lane :: "transport \<Rightarrow> path_id \<Rightarrow> lane option" where
  "find_lane t i = List.find (\<lambda>p. ln_id p = i) (tp_paths t)"

text \<open>A write through a pointer to a lane.\<close>

definition put_lane :: "transport \<Rightarrow> lane \<Rightarrow> transport" where
  "put_lane t p = t\<lparr>tp_paths := map (\<lambda>q. if ln_id q = ln_id p then p else q) (tp_paths t)\<rparr>"

definition checkTime :: "transport \<Rightarrow> instant \<Rightarrow> rejection_error option \<times> transport" where
  "checkTime t now =
     (if now < tp_lastTime t then (Some (reject RejectTime ''bond: regressing transport time''), t)
      else (None, t\<lparr>tp_lastTime := now\<rparr>))"

definition restart_lane :: "lane \<Rightarrow> lane" where
  "restart_lane p =
     (let p = p\<lparr>ln_lease := zero_time, ln_attempts := [], ln_inflight := 0, ln_classInflight := (\<lambda>_. 0), ln_seq := 0,
            ln_roundEnd := 0, ln_roundDone := False, ln_roundLossy := False, ln_lastACK := zero_time, ln_ackGap := 0,
            ln_nextSend := zero_time, ln_feedbackSent := rate_meter_zero, ln_losses := loss_ledger_zero,
            ln_lossMark := 0, ln_lossMarked := False, ln_reordering := new_peak reorderMemory,
            ln_newestConfirmed := zero_time, ln_ackRevision := 0, ln_receivedHigh := 0, ln_receivedThrough := 0,
            ln_model := \<lparr>lm_progressAt = zero_time, lm_awaitingSince = zero_time\<rparr>,
            ln_stall := \<lparr>sl_length = 0, sl_through = 0\<rparr>, ln_ackReceipts := no_receipts, ln_ackedBytes := 0,
            ln_ackedElapsed := 0, ln_transitBases := no_baselines\<rparr>;
          p = p\<lparr>ln_haveInterval := False, ln_intervalSamples := 0, ln_delayJitter := 0, ln_delayDifferences := 0,
            ln_intervalJitter := 0, ln_floorTesting := False, ln_floorSampling := False, ln_floorTestEvery := 0,
            ln_firstSent := zero_time, ln_idleForwardMean := 0, ln_idleForwardVariation := 0,
            ln_idleForwardKnown := False, ln_feedbackAt := zero_time,
            ln_sustained := (ln_sustained p)\<lparr>sd_marks := []\<rparr>,
            ln_control := new_control (cn_capacity (ln_control p))\<rparr>
      in if cn_capacity (ln_control p) = 0 \<and> \<not> ln_startup p then rediscover p else p)"

definition SetRemote :: "transport \<Rightarrow> epoch \<Rightarrow> bool \<Rightarrow> bool \<times> transport" where
  "SetRemote t ep adopted =
     (if ep = tp_remote t then (False, t)
      else if ep_Boot ep = 0 \<or> ep_Generation ep = 0 then (False, t)
      else if ep_Boot (tp_remote t) \<noteq> 0 \<and>
              (ep_Boot ep = ep_Boot (tp_remote t) \<and> ep_Generation ep \<le> ep_Generation (tp_remote t) \<or>
               ep_Boot ep \<noteq> ep_Boot (tp_remote t) \<and> \<not> adopted)
      then (False, t)
      else (True, t\<lparr>tp_remote := ep, tp_expired := tp_expired t + of_nat (length (tp_pending t)), tp_pending := [],
              tp_pendingOrder := [], tp_packets := Map.empty, tp_seq := 0, tp_bulkSeq := 0, tp_interactiveSeq := 0,
              tp_receivers := [], tp_received := no_receipts, tp_unreported := no_receipts,
              tp_paths := map restart_lane (tp_paths t)\<rparr>))"

definition Path :: "transport \<Rightarrow> path_id \<Rightarrow> path_id \<Rightarrow> duration \<Rightarrow> instant \<Rightarrow> rejection_error option \<times> transport" where
  "Path t i remoteID rtt now =
     (case checkTime t now of
        (Some e, t) \<Rightarrow> (Some e, t)
      | (None, t) \<Rightarrow>
          (case find_lane t i of
             Some p \<Rightarrow> (None, put_lane t (p\<lparr>ln_lease := now\<rparr>))
           | None \<Rightarrow>
               let rtt = (if rtt \<le> 0 then 50 * millisecond else rtt);
                   p = new_lane i remoteID rtt now;
                   p = p\<lparr>ln_lastTransmit := now,
                         ln_nextBaseline := now + (baselineInterval + int (unat ((i XOR drop_bit 8 i) AND 255)) * baselineStagger)\<rparr>;
                   p = p\<lparr>ln_lease := now\<rparr>
               in (None, t\<lparr>tp_paths := tp_paths t @ [p]\<rparr>)))"

definition Disable :: "transport \<Rightarrow> path_id \<Rightarrow> transport" where
  "Disable t i =
     (case find_lane t i of
        None \<Rightarrow> t
      | Some p \<Rightarrow> put_lane t (p\<lparr>ln_lease := zero_time\<rparr>))"

subsection \<open>Queue state\<close>

definition queued :: "transport \<Rightarrow> int" where
  "queued t = int (length (tp_queue t)) + fq_count (tp_small t classRealtime) + fq_count (tp_small t classSmall)"

definition laneLimited :: "transport \<Rightarrow> instant \<Rightarrow> bool option" where
  "laneLimited t now = do {
     a \<leftarrow> fq_peek (tp_small t classRealtime);
     b \<leftarrow> fq_peek (tp_small t classSmall);
     let heads = [a, b, fifo_peek (tp_queue t)];
     Some (list_ex (\<lambda>h. case h of None \<Rightarrow> False | Some p \<Rightarrow> time_sub now (pk_created p) \<ge> standingWait) heads)
   }"

definition discovering :: "transport \<Rightarrow> instant \<Rightarrow> bool" where
  "discovering t now = list_ex (\<lambda>p. lane_state p now = LaneLive \<and> ln_startup p) (tp_paths t)"

definition slowestRoundTrip :: "transport \<Rightarrow> instant \<Rightarrow> duration" where
  "slowestRoundTrip t now =
     foldl (\<lambda>slowest p. if lane_state p now = LaneLive then max slowest (ln_rtt p) else slowest) 0 (tp_paths t)"

definition bulkQueueAge :: "transport \<Rightarrow> instant \<Rightarrow> duration" where
  "bulkQueueAge t now =
     (if discovering t now then discoveryQueueAge
      else min discoveryQueueAge (max maxBulkQueueAge (co_target (tp_bulkAQM t) + co_interval (tp_bulkAQM t))))"

definition PacingRate :: "transport \<Rightarrow> instant \<Rightarrow> rat" where
  "PacingRate t now = foldl (\<lambda>rate p. if eligible p classRealtime now then rate + ln_rate p else rate) 0 (tp_paths t)"

definition copyBudget :: "transport \<Rightarrow> instant \<Rightarrow> rat" where
  "copyBudget t now = min redundancyRate (redundancyShare * PacingRate t now)"

subsection \<open>Admission\<close>

datatype transport_error = Rejected rejection_error | InvalidLength

definition small_drop :: "(drop_stats \<Rightarrow> drop_stats) \<Rightarrow> traffic_class \<Rightarrow> transport \<Rightarrow> transport" where
  "small_drop f c t = t\<lparr>tp_smallQueueDrops := (tp_smallQueueDrops t)(c := f (tp_smallQueueDrops t c))\<rparr>"

definition Enqueue ::
  "transport \<Rightarrow> bytes \<Rightarrow> packet_metadata \<Rightarrow> instant \<Rightarrow> (transport_error option \<times> transport) option" where
  "Enqueue t payload metadata now =
     (case checkTime t now of
        (Some e, t) \<Rightarrow> Some (Some (Rejected e), t)
      | (None, t) \<Rightarrow>
          if length payload = 0 \<or> length payload > maxDatagram then Some (Some InvalidLength, t)
          else
            let c = classify (length payload) metadata;
                limit = (if c = classBulk then maxPackets - smallPacketHeadroom else maxPackets)
            in if queued t + int (length (tp_pending t)) \<ge> int limit then
                 let t = t\<lparr>tp_drops := tp_drops t + 1, tp_admissionDrops := tp_admissionDrops t + 1\<rparr>
                 in Some (None, if c \<noteq> classBulk
                      then small_drop (\<lambda>d. d\<lparr>ds_Admission := ds_Admission d + 1\<rparr>) c
                             (t\<lparr>tp_interactiveDrops := tp_interactiveDrops t + 1\<rparr>)
                      else t)
               else
                 let p = \<lparr>pk_flow = pm_Flow metadata, pk_ack = pm_ACK metadata, pk_seq = 0, pk_order = 0, pk_class = c,
                          pk_interactive = False, pk_payload = payload, pk_created = now,
                          pk_queueDeadline = now + bulkQueueAge t now, pk_repairDeadline = zero_time,
                          pk_lastSent = zero_time, pk_lastPath = 0, pk_lastLaneSeq = 0, pk_attempts = 0, pk_acked = False\<rparr>
                 in if c \<noteq> classBulk then do {
                      let p = p\<lparr>pk_interactive := True, pk_queueDeadline := now + maxQueueAge\<rparr>;
                      (coalesced, q) \<leftarrow> fq_push (tp_small t c) p;
                      let t = t\<lparr>tp_small := (tp_small t)(c := q)\<rparr>;
                      Some (None, if coalesced then t\<lparr>tp_coalescedACKs := tp_coalescedACKs t + 1\<rparr> else t)
                    }
                    else Some (None, t\<lparr>tp_queue := tp_queue t @ [p]\<rparr>))"

subsection \<open>Transmission\<close>

definition SmallQueueResidenceBounds :: "duration list" where
  "SmallQueueResidenceBounds = map (\<lambda>n. n * millisecond) [1, 5, 10, 20, 50, 100]"

definition note_residence :: "residence_stats \<Rightarrow> duration \<Rightarrow> residence_stats" where
  "note_residence r wait =
     r\<lparr>rd_Count := rd_Count r + 1, rd_TotalSeconds := rd_TotalSeconds r + Seconds wait,
       rd_Buckets := map (\<lambda>(n, bound). if wait \<le> bound then n + 1 else n) (zip (rd_Buckets r) SmallQueueResidenceBounds)\<rparr>"

text \<open>The first transmission of a packet: statistics, its deadline and its sequence.\<close>

definition first_transmit :: "transport \<Rightarrow> packet \<Rightarrow> lane \<Rightarrow> instant \<Rightarrow> packet \<times> lane \<times> transport" where
  "first_transmit t k path now =
     (let sz = int (length (pk_payload k)) + wireOverhead; c = pk_class k;
          t = (if c \<noteq> classBulk
               then t\<lparr>tp_smallQueueResidence := (tp_smallQueueResidence t)
                        (c := note_residence (tp_smallQueueResidence t c) (time_sub now (pk_created k)))\<rparr>
               else t);
          (path, t) = (if c = classRealtime
               then (path\<lparr>ln_realtimeOriginals := ln_realtimeOriginals path + 1\<rparr>,
                     (if tp_realtimePathKnown t \<and> tp_realtimePath t \<noteq> ln_id path
                      then t\<lparr>tp_realtimeMoves := tp_realtimeMoves t + 1\<rparr> else t)
                     \<lparr>tp_realtimePath := ln_id path, tp_realtimePathKnown := True\<rparr>)
               else (path, t));
          path = (if c = classBulk then path\<lparr>ln_bulkOriginals := ln_bulkOriginals path + 1\<rparr> else path);
          t = (if c \<noteq> classBulk
               then t\<lparr>tp_demand := (tp_demand t)(c := rm_add (tp_demand t c) now (of_int sz))\<rparr> else t);
          k = k\<lparr>pk_repairDeadline := (if pk_interactive k then pk_created k else now) + maxPacketAge\<rparr>;
          t = t\<lparr>tp_seq := tp_seq t + 1\<rparr>;
          k = k\<lparr>pk_seq := tp_seq t\<rparr>;
          (k, t) = (if pk_interactive k
               then (k\<lparr>pk_order := (tp_interactiveSeq t + 1) OR interactiveBit\<rparr>, t\<lparr>tp_interactiveSeq := tp_interactiveSeq t + 1\<rparr>)
               else (k\<lparr>pk_order := tp_bulkSeq t + 1\<rparr>, t\<lparr>tp_bulkSeq := tp_bulkSeq t + 1\<rparr>))
      in (k, path, t\<lparr>tp_pendingOrder := tp_pendingOrder t @ [pk_seq k]\<rparr>))"

text \<open>What a transmission of a packet does to the lane that carries it.\<close>

definition lane_transmit :: "lane \<Rightarrow> packet \<Rightarrow> instant \<Rightarrow> lane" where
  "lane_transmit path k now =
     (let sz = int (length (pk_payload k)) + wireOverhead; c = pk_class k;
          path = beginAttempt path now;
          path = (if ln_firstSent path = zero_time then path\<lparr>ln_firstSent := now\<rparr> else path);
          path = set_attempt path (ln_seq path)
            \<lparr>at_packet = Some (pk_seq k), at_sent = now, at_bytes = sz, at_released = False, at_confirmed = False,
             at_through = ln_sent path + of_int sz\<rparr>;
          path = path\<lparr>ln_inflight := ln_inflight path + sz,
                      ln_classInflight := (ln_classInflight path)(c := ln_classInflight path c + sz),
                      ln_sent := ln_sent path + of_int sz\<rparr>;
          path = (if pk_interactive k then path\<lparr>ln_interactiveSent := ln_interactiveSent path + of_int sz\<rparr> else path);
          path = pace path now sz;
          alw = allowed path c;
          path = (if alw > 0
            then path\<lparr>ln_classNext := (ln_classNext path)(c := maxTime (ln_classNext path c) (now - 2 * millisecond) +
                        to_duration (of_int sz / alw * of_int second))\<rparr>
            else path);
          path = (if pk_attempts k > 0 then path\<lparr>ln_retries := ln_retries path + 1\<rparr> else path)
      in path\<lparr>ln_lastTransmit := now, ln_lastPayload := now\<rparr>)"

definition add_pending :: "u64 \<Rightarrow> u64 list \<Rightarrow> u64 list" where
  "add_pending s ks = (if s \<in> set ks then ks else ks @ [s])"

definition transmit :: "transport \<Rightarrow> packet \<Rightarrow> lane \<Rightarrow> instant \<Rightarrow> transmission \<times> packet \<times> transport" where
  "transmit t k path now =
     (let (k, path, t) = (if pk_seq k = 0 then first_transmit t k path now else (k, path, t));
          path = lane_transmit path k now;
          k = k\<lparr>pk_attempts := pk_attempts k + 1, pk_lastSent := now, pk_lastPath := ln_id path, pk_lastLaneSeq := ln_seq path\<rparr>;
          t = put_lane t path;
          t = t\<lparr>tp_packets := (tp_packets t)(pk_seq k \<mapsto> k), tp_pending := add_pending (pk_seq k) (tp_pending t)\<rparr>
      in (\<lparr>tx_Path = ln_id path,
           tx_Frame = dataFrame (tp_epoch t) (tp_remote t) (ln_id path) (ln_seq path) (pk_seq k) (pk_order k) (pk_payload k)\<rparr>,
          k, t))"

subsection \<open>Reservations\<close>

fun next_class :: "traffic_class \<Rightarrow> traffic_class" where
  "next_class classRealtime = classSmall"
| "next_class _ = classBulk"

definition classes_below :: "traffic_class \<Rightarrow> rat" where
  "classes_below c = (case c of classRealtime \<Rightarrow> 2 | classSmall \<Rightarrow> 1 | classBulk \<Rightarrow> 0)"

definition demand_rate :: "transport \<Rightarrow> traffic_class \<Rightarrow> instant \<Rightarrow> rat" where
  "demand_rate t c now = fst (rm_rate (tp_demand t c) now)"

definition assignable ::
  "transport \<Rightarrow> instant \<Rightarrow> traffic_class \<Rightarrow> lane list \<Rightarrow> rat list \<Rightarrow> nat \<Rightarrow> rat" where
  "assignable t now c lanes free i =
     (let need = foldl (\<lambda>need j. if eligible (lanes ! j) c now then need - min need (free ! j) else need)
                   (reservationHeadroom * demand_rate t c now) [0..<i]
      in min need (free ! i))"

text \<open>The lane with the most room left for the next class, the first of them.\<close>

definition choose_guarantor ::
  "transport \<Rightarrow> instant \<Rightarrow> traffic_class \<Rightarrow> lane list \<Rightarrow> rat list \<Rightarrow> nat option" where
  "choose_guarantor t now c lanes free =
     foldl (\<lambda>g i.
         if \<not> eligible (lanes ! i) (next_class c) now then g
         else case g of
                None \<Rightarrow> Some i
              | Some g' \<Rightarrow> if free ! i - assignable t now c lanes free i > free ! g' - assignable t now c lanes free g'
                            then Some i else Some g')
       None [0..<length lanes]"

definition reserve_lane ::
  "traffic_class \<Rightarrow> bool \<Rightarrow> nat option \<Rightarrow> instant \<Rightarrow> rat \<times> lane list \<times> rat list \<Rightarrow> nat \<Rightarrow> rat \<times> lane list \<times> rat list" where
  "reserve_lane c bulkWaiting guarantor now = (\<lambda>(need, lanes, free) i.
     let p = lanes ! i
     in if \<not> eligible p c now then (need, lanes, free)
        else
          let room = free ! i;
              room = (if guarantor = Some i then room - classes_below c * minimumClassShare * ln_rate p else room);
              room = (if c = classSmall \<and> bulkWaiting \<and> \<not> realtimeLane p then min room (smallClassShare * (free ! i)) else room);
              r = max 0 (min need room)
          in (need - r, lanes[i := p\<lparr>ln_reserved := (ln_reserved p)(c := r)\<rparr>], free[i := free ! i - r]))"

definition reserveCopies :: "transport \<Rightarrow> instant \<Rightarrow> lane list \<Rightarrow> rat list \<Rightarrow> lane list \<times> rat list" where
  "reserveCopies t now lanes free =
     (let originals = sum_list (map (\<lambda>p. ln_reserved p classRealtime) lanes);
          suspect = sum_list (map (\<lambda>p. if lane_state p now = LaneSuspect then ln_reserved p classRealtime else 0) lanes)
      in if originals = 0 \<or> length lanes < 2 then (lanes, free)
         else
           let need = min (copyBudget t now) originals;
               copies = (\<lambda>(p, f).
                 let forced = (if lane_state p now = LaneSuspect then suspect - ln_reserved p classRealtime else suspect)
                 in min f (max forced (need * (1 - ln_reserved p classRealtime / originals))))
           in (map (\<lambda>(p, f). p\<lparr>ln_copies := copies (p, f)\<rparr>) (zip lanes free),
               map (\<lambda>(p, f). f - copies (p, f)) (zip lanes free)))"

definition reserve_class ::
  "bool \<Rightarrow> instant \<Rightarrow> transport \<times> lane list \<times> rat list \<Rightarrow> traffic_class \<Rightarrow> transport \<times> lane list \<times> rat list" where
  "reserve_class bulkWaiting now = (\<lambda>(t, lanes, free) c.
     let guarantor = choose_guarantor t now c lanes free;
         (r, m) = rm_rate (tp_demand t c) now;
         t = t\<lparr>tp_demand := (tp_demand t)(c := m)\<rparr>;
         (need, lanes, free) = foldl (reserve_lane c bulkWaiting guarantor now) (reservationHeadroom * r, lanes, free) [0..<length lanes];
         lanes = (case guarantor of
             None \<Rightarrow> lanes
           | Some g \<Rightarrow> lanes[g := (lanes ! g)\<lparr>ln_guaranteed := (ln_guaranteed (lanes ! g))(next_class c := True)\<rparr>])
     in if c = classRealtime then
          let (lanes, free) = reserveCopies t now lanes free;
              quiet = list_ex (\<lambda>p. eligible p classBulk now \<and> ln_reserved p classRealtime = 0) lanes;
              lanes = map (\<lambda>p. p\<lparr>ln_bulkElsewhere := quiet \<and> ln_reserved p classRealtime > 0\<rparr>) lanes
          in (t, lanes, free)
        else (t, lanes, free))"

definition clear_reservation :: "bool \<Rightarrow> lane \<Rightarrow> lane" where
  "clear_reservation bulkWaiting p =
     p\<lparr>ln_reserved := (\<lambda>_. 0), ln_guaranteed := (\<lambda>_. False), ln_shared := bulkWaiting, ln_copies := 0, ln_bulkElsewhere := False\<rparr>"

definition reserve :: "transport \<Rightarrow> instant \<Rightarrow> transport" where
  "reserve t now =
     (let bulkWaiting = length (tp_queue t) > 0;
          t = t\<lparr>tp_paths := map (clear_reservation bulkWaiting) (tp_paths t)\<rparr>;
          lanes = filter (\<lambda>p. eligible p classRealtime now) (tp_paths t)
      in if lanes = [] then t
         else
           let lanes = sort_key latency lanes;
               (t, lanes, free) = foldl (reserve_class bulkWaiting now) (t, lanes, map ln_rate lanes) [classRealtime, classSmall]
           in foldl put_lane t lanes)"

subsection \<open>Choice of a lane\<close>

text \<open>Whether a lane may send a datagram of the class now.\<close>

definition lane_admits ::
  "transport \<Rightarrow> instant \<Rightarrow> traffic_class \<Rightarrow> int \<Rightarrow> path_id \<Rightarrow> bool \<Rightarrow> lane \<Rightarrow> bool" where
  "lane_admits t now c sz exclude avoid p =
     (if \<not> eligible p c now \<or> now < ln_drainUntil p \<and> c = classBulk \<or> avoid \<and> ln_id p = exclude then False
      else if now < cn_flushUntil (ln_control p) \<and> c \<noteq> classRealtime then False
      else
        let win = window p;
            contended = fq_count (tp_small t classRealtime) + fq_count (tp_small t classSmall) > 0;
            lead = (if c = classBulk \<and> \<not> contended then 0 else priorityLead);
            classLead = lead;
            clock_ok = (\<lambda>lead. \<not> (ln_classNext p c > now + classLead \<or> ln_nextSend p > now + lead))
        in if c = classRealtime then
             (if ln_inflight p > win \<and>
                 of_int (ln_classInflight p c) > of_int win * (ln_reserved p c + ln_copies p) / ln_rate p
              then False
              else
                let leased = length (filter (\<lambda>q. up q now) (tp_paths t));
                    borrow = (if leased = 1 \<or> ln_classInflight p classBulk > 0 \<or> ln_classInflight p classSmall > 0 \<or>
                                 avoid \<and> ln_copies p > 0
                              then fullDatagramWireBytes else sz)
                in clock_ok (lead + to_duration (of_int borrow / ln_rate p * of_int second)))
           else
             let alw = allowed p c
             in if alw = 0 \<or> ln_inflight p + sz > max sz win \<or> ln_classInflight p c + sz > classWindow p c sz win alw
                then False else clock_ok lead)"

definition arrival :: "lane \<Rightarrow> instant \<Rightarrow> duration" where
  "arrival p now = max 0 (time_sub (ln_nextSend p) now) + latency p sdiv 2"

definition chooseLane ::
  "transport \<Rightarrow> instant \<Rightarrow> traffic_class \<Rightarrow> int \<Rightarrow> path_id \<Rightarrow> bool \<Rightarrow> lane option" where
  "chooseLane t now c sz exclude avoid =
     foldl (\<lambda>best p.
         if \<not> lane_admits t now c sz exclude avoid p then best
         else case best of
                None \<Rightarrow> Some p
              | Some b \<Rightarrow> if arrival p now < arrival b now then Some p else Some b)
       None (tp_paths t)"

subsection \<open>Sending\<close>

definition stale :: "transport \<Rightarrow> instant \<Rightarrow> packet \<Rightarrow> bool \<times> transport" where
  "stale t now head =
     (if time_sub now (pk_created head) \<le> realtimeQueueTarget
      then (False, t\<lparr>tp_realtimeLate := zero_time, tp_realtimeSkipping := False\<rparr>)
      else if tp_realtimeSkipping t then (True, t)
      else
        let t = (if tp_realtimeLate t = zero_time then t\<lparr>tp_realtimeLate := now\<rparr> else t);
            t = t\<lparr>tp_realtimeSkipping := time_sub now (tp_realtimeLate t) \<ge> realtimeQueueInterval\<rparr>
        in (tp_realtimeSkipping t, t))"

text \<open>A datagram taken from a small queue: the original and, for real-time traffic, the copy.\<close>

definition send_one ::
  "transport \<Rightarrow> instant \<Rightarrow> traffic_class \<Rightarrow> packet \<Rightarrow> lane \<Rightarrow> transmission list \<times> transport" where
  "send_one t now c k path =
     (let sz = int (length (pk_payload k)) + wireOverhead;
          (tx, k, t) = transmit t k path now;
          forced = (case find_lane t (ln_id path) of None \<Rightarrow> False | Some path \<Rightarrow> lane_state path now = LaneSuspect)
      in if c = classRealtime \<and> (forced \<or> tp_redundancyTokens t \<ge> of_int sz)
         then case chooseLane t now c sz (ln_id path) True of
                None \<Rightarrow> ([tx], t)
              | Some other \<Rightarrow>
                  let t = (if \<not> forced then t\<lparr>tp_redundancyTokens := tp_redundancyTokens t - of_int sz\<rparr> else t);
                      (tx', k, t) = transmit t k other now
                  in ([tx, tx'], t)
         else ([tx], t))"

definition pop_small :: "transport \<Rightarrow> traffic_class \<Rightarrow> transport option" where
  "pop_small t c = do { q \<leftarrow> fq_pop (tp_small t c); Some (t\<lparr>tp_small := (tp_small t)(c := q)\<rparr>) }"

definition drop_small :: "transport \<Rightarrow> traffic_class \<Rightarrow> bool \<Rightarrow> transport" where
  "drop_small t c expired =
     (let t = t\<lparr>tp_drops := tp_drops t + 1, tp_interactiveDrops := tp_interactiveDrops t + 1\<rparr>
      in if expired then small_drop (\<lambda>d. d\<lparr>ds_Deadline := ds_Deadline d + 1\<rparr>) c t
         else small_drop (\<lambda>d. d\<lparr>ds_Stale := ds_Stale d + 1\<rparr>) c t)"

text \<open>One turn of the loop over a small queue: whether it goes on, what was sent and the state.\<close>

definition small_turn ::
  "transport \<Rightarrow> instant \<Rightarrow> traffic_class \<Rightarrow> packet \<Rightarrow> (bool \<times> transmission list \<times> transport) option" where
  "small_turn t now c k =
     (let expired = now > pk_queueDeadline k;
          (skip, t) = (if expired then (True, t) else if c = classRealtime then stale t now k else (False, t))
      in if skip then do {
           t \<leftarrow> pop_small t c;
           Some (True, [], drop_small t c expired)
         }
         else
           case chooseLane t now c (int (length (pk_payload k)) + wireOverhead) 0 False of
             None \<Rightarrow> Some (False, [], t)
           | Some path \<Rightarrow> do {
               t \<leftarrow> pop_small t c;
               let (txs, t) = send_one t now c k path;
               Some (True, txs, t)
             })"

partial_function (option) send_small ::
  "instant \<Rightarrow> traffic_class \<Rightarrow> transport \<Rightarrow> transmission list \<Rightarrow> (transmission list \<times> transport) option" where
  "send_small now c t out = do {
     head \<leftarrow> fq_peek (tp_small t c);
     case head of
       None \<Rightarrow> Some (out, t)
     | Some k \<Rightarrow> do {
         (more, txs, t) \<leftarrow> small_turn t now c k;
         if more then send_small now c t (out @ txs) else Some (out @ txs, t)
       }
   }"

definition bulk_turn ::
  "transport \<Rightarrow> instant \<Rightarrow> packet \<Rightarrow> packet list \<Rightarrow> bool \<times> transmission list \<times> transport" where
  "bulk_turn t now k rest =
     (if now > pk_queueDeadline k then (True, [], t\<lparr>tp_queue := rest, tp_drops := tp_drops t + 1\<rparr>)
      else
        case chooseLane t now classBulk (int (length (pk_payload k)) + wireOverhead) 0 False of
          None \<Rightarrow> (False, [], t)
        | Some path \<Rightarrow>
            let t = t\<lparr>tp_queue := rest\<rparr>;
                (drp, t) = (if discovering t now then (False, t)
                  else let (d, aqm) = codel_drop (tp_bulkAQM t) now (time_sub now (pk_created k)) (int (length rest)) (slowestRoundTrip t now)
                       in (d, t\<lparr>tp_bulkAQM := aqm\<rparr>))
            in if drp then (True, [], t\<lparr>tp_drops := tp_drops t + 1, tp_aqmDrops := tp_aqmDrops t + 1\<rparr>)
               else let (tx, k, t) = transmit t k path now in (True, [tx], t))"

partial_function (option) send_bulk ::
  "instant \<Rightarrow> transport \<Rightarrow> transmission list \<Rightarrow> (transmission list \<times> transport) option" where
  "send_bulk now t out =
     (case tp_queue t of
        [] \<Rightarrow> Some (out, t)
      | k # rest \<Rightarrow>
          let (more, txs, t) = bulk_turn t now k rest
          in if more then send_bulk now t (out @ txs) else Some (out @ txs, t))"

declare send_small.simps [code] send_bulk.simps [code]

definition send :: "transport \<Rightarrow> instant \<Rightarrow> transmission list \<Rightarrow> (transmission list \<times> transport) option" where
  "send t now out = do {
     head \<leftarrow> fq_peek (tp_small t classRealtime);
     let t = (if head = None then t\<lparr>tp_realtimeLate := zero_time, tp_realtimeSkipping := False\<rparr> else t);
     (out, t) \<leftarrow> send_small now classRealtime t out;
     (out, t) \<leftarrow> send_small now classSmall t out;
     send_bulk now t out
   }"

subsection \<open>Polling\<close>

definition ackDue :: "receiver \<Rightarrow> instant \<Rightarrow> bool \<times> receiver" where
  "ackDue r now =
     (if rc_pending r \<ge> ackBatchPackets then (True, r)
      else
        let (interval, r) = (if rc_streak r \<ge> ackStreak
              then let (v, m) = rm_rate (rc_received r) now in (ackIntervalFor v, r\<lparr>rc_received := m\<rparr>)
              else (ackInterval, r))
        in (time_sub now (rc_ackAt r) \<ge> interval, r))"

definition poll_tokens :: "transport \<Rightarrow> instant \<Rightarrow> transport" where
  "poll_tokens t now =
     (let t = (if tp_lastPoll t \<noteq> zero_time
               then let budget = copyBudget t now
                    in t\<lparr>tp_redundancyTokens := min (budget / 10)
                          (tp_redundancyTokens t + Seconds (time_sub now (tp_lastPoll t)) * budget)\<rparr>
               else t)
      in t\<lparr>tp_lastPoll := now\<rparr>)"

text \<open>One turn of the loop over the receivers: the acknowledgement a receiver owes, if any.\<close>

definition poll_receiver ::
  "instant \<Rightarrow> transmission list \<times> transport \<times> receiver list \<Rightarrow> receiver \<Rightarrow> transmission list \<times> transport \<times> receiver list" where
  "poll_receiver now = (\<lambda>(out, t, rs) r.
     case find_lane t (rc_path r) of
       None \<Rightarrow> (out, t, rs @ [r])
     | Some path \<Rightarrow>
         if \<not> up path now then (out, t, rs @ [r])
         else
           let old = oldest (tp_unreported t)
           in if \<not> (rc_pending r > 0 \<or> old \<noteq> 0) then (out, t, rs @ [r])
              else
                let (due, r) = ackDue r now
                in if \<not> due then (out, t, rs @ [r])
                   else
                     let r = r\<lparr>rc_streak := (if time_sub now (rc_ackAt r) < ackGapHorizon then rc_streak r + 1 else 0)\<rparr>;
                         r = r\<lparr>rc_revision := rc_revision r + 1\<rparr>;
                         ((high, bits), (recvd, unreported)) = report (tp_received t, tp_unreported t);
                         a = \<lparr>ack_observed = tp_remote t, ack_high = rw_high (rc_receipts r), ack_mask = rw_mask (rc_receipts r) ! 0,
                              ack_bytes = rc_bytes r, ack_elapsed = word_of_int (time_sub (rc_highAt r) (rc_start r)),
                              ack_delay = word_of_int (time_sub now (rc_highAt r)), ack_receivedHigh = high, ack_receivedMask = bits\<rparr>;
                         tx = \<lparr>tx_Path = rc_path r, tx_Frame = ackFrame (tp_epoch t) (rc_remoteLane r) (rc_revision r) a\<rparr>;
                         path = path\<lparr>ln_feedbackSent := rm_add (ln_feedbackSent path) now (of_int ackWireBytes)\<rparr>;
                         path = pace path now ackWireBytes;
                         t = (put_lane t path)\<lparr>tp_unreported := unreported\<rparr>
                     in (out @ [tx], t, rs @ [r\<lparr>rc_pending := 0, rc_ackAt := now\<rparr>]))"

definition poll_baseline :: "lane \<Rightarrow> instant \<Rightarrow> lane" where
  "poll_baseline path now =
     (if \<not> now < ln_nextBaseline path \<and> ln_queueDelay path > targetQueue \<and>
         ln_rate path \<le> max (11 / 10 * minimumRate) (ln_peakDelivery path / 2)
      then path\<lparr>ln_drainUntil := now + max baselineDrain (2 * ln_rtt path), ln_nextBaseline := now + baselineInterval,
                ln_baselinePending := True\<rparr>
      else path)"

text \<open>One turn of the loop over the attempts of a lane: time out and forget.\<close>

definition poll_attempt :: "packets \<Rightarrow> instant \<Rightarrow> lane \<Rightarrow> u64 \<Rightarrow> lane" where
  "poll_attempt pkts now path seq =
     (case map_of (ln_attempts path) seq of
        None \<Rightarrow> path
      | Some a \<Rightarrow>
          let (a, path) = (if \<not> at_released a \<and> time_sub now (at_sent a) \<ge> rto path
                then let a' = a\<lparr>at_released := True\<rparr> in (a', set_attempt (release pkts path a) seq a')
                else (a, path))
          in if time_sub now (at_sent a) \<ge> feedbackHorizon
             then delete_attempt (if \<not> at_released a then release pkts path a else path) seq
             else path)"

definition keepalive :: "epoch \<Rightarrow> epoch \<Rightarrow> lane \<Rightarrow> instant \<Rightarrow> transmission list \<times> lane" where
  "keepalive local remote path now =
     (let pingInterval = (if lane_state path now = LaneDead then 50 * millisecond else 200 * millisecond)
      in if up path now \<and> time_sub now (ln_lastTransmit path) \<ge> pingInterval then
           let path = beginAttempt path now;
               path = path\<lparr>ln_lastTransmit := now\<rparr>;
               path = (if ln_firstSent path = zero_time then path\<lparr>ln_firstSent := now\<rparr> else path);
               path = set_attempt path (ln_seq path)
                 \<lparr>at_packet = None, at_sent = now, at_bytes = wireOverhead, at_released = False, at_confirmed = False,
                  at_through = ln_sent path + of_int wireOverhead\<rparr>;
               path = path\<lparr>ln_inflight := ln_inflight path + wireOverhead, ln_sent := ln_sent path + of_int wireOverhead\<rparr>;
               path = pace path now wireOverhead
           in ([\<lparr>tx_Path = ln_id path, tx_Frame = dataFrame local remote (ln_id path) (ln_seq path) 0 0 []\<rparr>], path)
         else ([], path))"

definition poll_lane :: "visit \<Rightarrow> nat \<Rightarrow> transport \<Rightarrow> instant \<Rightarrow> lane \<Rightarrow> transmission list \<times> lane" where
  "poll_lane visit i t now path =
     (let path = poll_baseline path now;
          path = foldl (poll_attempt (tp_packets t) now) path (visit i (map fst (ln_attempts path)))
      in keepalive (tp_epoch t) (tp_remote t) path now)"

definition poll_lanes :: "visit \<Rightarrow> transport \<Rightarrow> instant \<Rightarrow> transmission list \<times> transport" where
  "poll_lanes visit t now =
     (let rs = map (\<lambda>(i, p). poll_lane visit i t now p) (enumerate 0 (tp_paths t))
      in (concat (map fst rs), t\<lparr>tp_paths := map snd rs\<rparr>))"

text \<open>One turn of the loop over the pending packets: drop the settled ones, repair the overdue ones.\<close>

definition repair_choice :: "transport \<Rightarrow> instant \<Rightarrow> packet \<Rightarrow> lane option" where
  "repair_choice t now k =
     (let previous = find_lane t (pk_lastPath k);
          timeout = (case previous of None \<Rightarrow> minimumRTO | Some q \<Rightarrow> rto q);
          sz = int (length (pk_payload k)) + wireOverhead;
          moved = (case previous of
              None \<Rightarrow> None
            | Some q \<Rightarrow> if pk_class k = classRealtime \<and> pk_attempts k = 1 \<and> lane_state q now \<noteq> LaneLive
                        then chooseLane t now (pk_class k) sz (pk_lastPath k) True else None)
      in case moved of
           Some path \<Rightarrow> Some path
         | None \<Rightarrow>
             if time_sub now (pk_lastSent k) < timeout \<or> pk_attempts k \<ge> 4 then None
             else case chooseLane t now classBulk sz (pk_lastPath k) True of
                    Some path \<Rightarrow> Some path
                  | None \<Rightarrow> if (case previous of None \<Rightarrow> True | Some q \<Rightarrow> passed q k)
                            then chooseLane t now classBulk sz 0 False else None)"

definition repair_turn ::
  "instant \<Rightarrow> transmission list \<times> transport \<times> u64 list \<Rightarrow> u64 \<Rightarrow> (transmission list \<times> transport \<times> u64 list) option" where
  "repair_turn now = (\<lambda>(out, t, retained) s. do {
     k \<leftarrow> tp_packets t s;
     if pk_acked k then Some (out, t\<lparr>tp_pending := removeAll (pk_seq k) (tp_pending t)\<rparr>, retained)
     else if now > pk_repairDeadline k
     then Some (out, t\<lparr>tp_pending := removeAll (pk_seq k) (tp_pending t), tp_expired := tp_expired t + 1\<rparr>, retained)
     else case repair_choice t now k of
            None \<Rightarrow> Some (out, t, retained @ [s])
          | Some path \<Rightarrow> let (tx, k, t) = transmit t k path now in Some (out @ [tx], t, retained @ [s])
   })"

fun repair_all ::
  "instant \<Rightarrow> transmission list \<times> transport \<times> u64 list \<Rightarrow> u64 list \<Rightarrow> (transmission list \<times> transport \<times> u64 list) option" where
  "repair_all now st [] = Some st"
| "repair_all now st (s # ss) = do { st \<leftarrow> repair_turn now st s; repair_all now st ss }"

definition Poll ::
  "visit \<Rightarrow> transport \<Rightarrow> instant \<Rightarrow> ((rejection_error + transmission list) \<times> transport) option" where
  "Poll visit t now =
     (case checkTime t now of
        (Some e, t) \<Rightarrow> Some (Inl e, t)
      | (None, t) \<Rightarrow> do {
          let t = poll_tokens t now;
          let (out, t, rs) = foldl (poll_receiver now) ([], t, []) (tp_receivers t);
          let t = t\<lparr>tp_receivers := rs\<rparr>;
          let (pings, t) = poll_lanes visit t now;
          let t = reserve t now;
          (out, t, retained) \<leftarrow> repair_all now (out @ pings, t, []) (tp_pendingOrder t);
          let t = t\<lparr>tp_pendingOrder := retained\<rparr>;
          (out, t) \<leftarrow> send t now out;
          Some (Inr out, t)
        })"

end
