(* ===== verification/Reception.thy ===== *)
theory Reception
  imports Transport
begin

text \<open>
  The receiving half of the transport (internal/bond/bond.go): data frames and their receipts,
  acknowledgements and what they tell the lane's estimates, and the statistics snapshot.
\<close>

section \<open>Definitions\<close>

definition stallSilence :: duration where "stallSilence = 2 * maxACKInterval"
definition maxWander :: duration where "maxWander = 3 * targetQueue"
definition deliveryInterval :: duration where "deliveryInterval = 50 * millisecond"

record delivery =
  dl_Sequence :: u64
  dl_Interactive :: bool
  dl_Payload :: bytes

subsection \<open>Acknowledgements: confirmation of attempts\<close>

definition mark_acked :: "packets \<Rightarrow> u64 \<Rightarrow> packets" where
  "mark_acked pkts s = pkts(s := map_option (\<lambda>k. k\<lparr>pk_acked := True\<rparr>) (pkts s))"

text \<open>
  The state of the loops over attempts: the lane, the packets and pending keys, and what the loop
  gathers.
\<close>

record ack_loop =
  al_lane :: lane
  al_packets :: packets
  al_pending :: "u64 list"
  al_sample :: duration
  al_feedback :: duration
  al_newest :: instant
  al_highSent :: instant
  al_through :: u64
  al_counted :: bool

abbreviation on_lane :: "(lane \<Rightarrow> lane) \<Rightarrow> ack_loop \<Rightarrow> ack_loop" where
  "on_lane f s \<equiv> s\<lparr>al_lane := f (al_lane s)\<rparr>"

definition in_lane_mask :: "acknowledgement \<Rightarrow> u64 \<Rightarrow> bool" where
  "in_lane_mask a seq \<longleftrightarrow> ack_high a - seq < 64 \<and> ack_mask a AND push_bit (unat (ack_high a - seq)) 1 \<noteq> 0"

definition add_confirmed :: "lane \<Rightarrow> attempt \<Rightarrow> lane" where
  "add_confirmed p sent =
     p\<lparr>ln_confirmedWireBytes := min (int (maxPackets * maxDatagram)) (ln_confirmedWireBytes p + at_bytes sent)\<rparr>"

definition confirm_packet :: "ack_loop \<Rightarrow> attempt \<Rightarrow> ack_loop" where
  "confirm_packet s sent =
     (case at_packet sent of
        None \<Rightarrow> s
      | Some k \<Rightarrow> s\<lparr>al_packets := mark_acked (al_packets s) k, al_pending := removeAll k (al_pending s)\<rparr>)"

text \<open>The transit time of the acknowledged datagram: idle jitter, floor tests, queue delay.\<close>

definition idle_forward :: "lane \<Rightarrow> duration \<Rightarrow> lane" where
  "idle_forward p transit =
     (if \<not> ln_idleForwardKnown p then p\<lparr>ln_idleForwardMean := transit, ln_idleForwardKnown := True\<rparr>
      else
        let difference = transit - ln_idleForwardMean p;
            p = p\<lparr>ln_idleForwardMean := ln_idleForwardMean p + difference sdiv 8\<rparr>
        in p\<lparr>ln_idleForwardVariation := (3 * ln_idleForwardVariation p + abs_duration difference) sdiv 4\<rparr>)"

definition drained_sample :: "lane \<Rightarrow> instant \<Rightarrow> duration \<Rightarrow> lane" where
  "drained_sample p sent sample =
     (if ln_baselinePending p \<and> \<not> sent < ln_drainUntil p then
        let p = (if ln_floorTesting p then p\<lparr>ln_floorTesting := False, ln_floorSampling := True\<rparr>
                 else (rebaseline p sample)\<lparr>ln_transitBases := no_baselines\<rparr>)
        in p\<lparr>ln_haveInterval := False, ln_intervalSamples := 0, ln_baselinePending := False\<rparr>
      else p)"

definition queue_sample :: "lane \<Rightarrow> instant \<Rightarrow> int \<Rightarrow> duration \<Rightarrow> lane option" where
  "queue_sample p now bytes transit =
     (let p = p\<lparr>ln_transitBucket := bytes div transitSizeBucket\<rparr>;
          i = nat (ln_transitBucket p)
      in if \<not> i < length (ln_transitBases p) then None
         else
           let base = ln_transitBases p ! i;
               base = (if \<not> tb_known base \<or> transit < tb_delay base
                       then \<lparr>tb_delay = transit, tb_known = True, tb_observed = now\<rparr> else base);
               p = p\<lparr>ln_transitBases := (ln_transitBases p)[i := base]\<rparr>;
               previous = ln_queueDelay p;
               p = p\<lparr>ln_queueDelay := transit - tb_delay base\<rparr>;
               difference = abs_duration (ln_queueDelay p - previous);
               p = (if ln_delayDifferences p > 0
                    then p\<lparr>ln_delayJitter := ln_delayJitter p + (difference - ln_delayJitter p) sdiv 8\<rparr> else p);
               p = p\<lparr>ln_delayDifferences := min (jitterWarmup + 1) (ln_delayDifferences p + 1)\<rparr>;
               p = (if \<not> ln_haveInterval p \<or> ln_queueDelay p < ln_intervalQueueDelay p
                    then p\<lparr>ln_intervalQueueDelay := ln_queueDelay p, ln_haveInterval := True\<rparr> else p)
           in Some (p\<lparr>ln_intervalSamples := ln_intervalSamples p + 1\<rparr>))"

definition high_sample :: "ack_loop \<Rightarrow> acknowledgement \<Rightarrow> instant \<Rightarrow> attempt \<Rightarrow> ack_loop option" where
  "high_sample s a now sent =
     (if ack_delay a \<le> word_of_int (time_sub now (at_sent sent)) then do {
        let p = al_lane s;
        let sample = time_sub now (at_sent sent) - sint (ack_delay a);
        let transit = sint (ack_elapsed a) - time_sub (at_sent sent) (ln_firstSent p);
        let p = (if at_packet sent = None \<and> time_sub now (ln_lastPayload p) \<ge> feedbackHorizon
                 then idle_forward p transit else p);
        let p = drained_sample p (at_sent sent) sample;
        p \<leftarrow> queue_sample p now (at_bytes sent) transit;
        Some (s\<lparr>al_lane := p, al_sample := sample\<rparr>)
      }
      else Some s)"

text \<open>An attempt that the lane bitmap confirms.\<close>

definition confirm_attempt ::
  "acknowledgement \<Rightarrow> instant \<Rightarrow> bool \<Rightarrow> ack_loop \<Rightarrow> u64 \<Rightarrow> attempt \<Rightarrow> ack_loop option" where
  "confirm_attempt a now fresh s seq sent = do {
     let s = (if \<not> at_confirmed sent
              then (on_lane (\<lambda>p. observeOrder p now (at_sent sent)) s)
                     \<lparr>al_feedback := max (al_feedback s) (time_sub now (at_sent sent)),
                      al_newest := maxTime (al_newest s) (at_sent sent)\<rparr>
              else s);
     let s = (if at_packet sent \<noteq> None then on_lane (\<lambda>p. add_confirmed p sent) s else s);
     let s = (if \<not> at_released sent then on_lane (\<lambda>p. release (al_packets s) p sent) s else s);
     let s = on_lane (\<lambda>p. p\<lparr>ln_acked := ln_acked p + of_int (at_bytes sent)\<rparr>) s;
     let s = confirm_packet s sent;
     let s = on_lane (\<lambda>p. delete_attempt p seq) s;
     if fresh \<and> seq = ack_high a
     then high_sample (s\<lparr>al_highSent := at_sent sent, al_through := at_through sent, al_counted := True\<rparr>) a now sent
     else Some s
   }"

definition packet_acked :: "acknowledgement \<Rightarrow> packets \<Rightarrow> attempt \<Rightarrow> bool" where
  "packet_acked a pkts sent =
     (case at_packet sent of
        None \<Rightarrow> False
      | Some k \<Rightarrow> pk_acked (the (pkts k)) \<or> received a (pk_seq (the (pkts k))))"

definition sent_once :: "packets \<Rightarrow> attempt \<Rightarrow> bool" where
  "sent_once pkts sent = (case at_packet sent of None \<Rightarrow> False | Some k \<Rightarrow> pk_attempts (the (pkts k)) = 1)"

definition ack_attempt ::
  "acknowledgement \<Rightarrow> instant \<Rightarrow> bool \<Rightarrow> ack_loop \<Rightarrow> u64 \<Rightarrow> ack_loop option" where
  "ack_attempt a now fresh s seq =
     (case map_of (ln_attempts (al_lane s)) seq of
        None \<Rightarrow> Some s
      | Some sent \<Rightarrow>
          if seq \<le> ack_high a \<and> in_lane_mask a seq then confirm_attempt a now fresh s seq sent
          else if packet_acked a (al_packets s) sent \<and> seq < ack_high a \<and> ack_high a - seq \<ge> 64 then
            let s = (if \<not> at_released sent then on_lane (\<lambda>p. release (al_packets s) p sent) s else s);
                s = (if \<not> at_confirmed sent \<and> sent_once (al_packets s) sent
                     then (on_lane (\<lambda>p. observeOrder p now (at_sent sent)) s)
                            \<lparr>al_feedback := max (al_feedback s) (time_sub now (at_sent sent))\<rparr>
                     else s)
            in Some (on_lane (\<lambda>p. delete_attempt p seq) s)
          else Some s)"

fun ack_attempts :: "acknowledgement \<Rightarrow> instant \<Rightarrow> bool \<Rightarrow> ack_loop \<Rightarrow> u64 list \<Rightarrow> ack_loop option" where
  "ack_attempts a now fresh s [] = Some s"
| "ack_attempts a now fresh s (q # qs) = do { s \<leftarrow> ack_attempt a now fresh s q; ack_attempts a now fresh s qs }"

text \<open>Equal byte counts confirm the complete prefix.\<close>

definition confirm_arrived_one :: "acknowledgement \<Rightarrow> ack_loop \<Rightarrow> u64 \<Rightarrow> ack_loop" where
  "confirm_arrived_one a s seq =
     (case map_of (ln_attempts (al_lane s)) seq of
        None \<Rightarrow> s
      | Some sent \<Rightarrow>
          if seq > ack_high a then s
          else
            let s = (if \<not> at_released sent then on_lane (\<lambda>p. release (al_packets s) p sent) s else s);
                s = on_lane (\<lambda>p. p\<lparr>ln_acked := ln_acked p + of_int (at_bytes sent)\<rparr>) s;
                s = (if at_packet sent \<noteq> None then on_lane (\<lambda>p. add_confirmed p sent) s else s);
                s = confirm_packet s sent
            in on_lane (\<lambda>p. delete_attempt p seq) s)"

definition confirmArrived :: "(u64 list \<Rightarrow> u64 list) \<Rightarrow> acknowledgement \<Rightarrow> u64 \<Rightarrow> ack_loop \<Rightarrow> ack_loop" where
  "confirmArrived visit a through s =
     (if through \<noteq> ack_bytes a then s
      else foldl (confirm_arrived_one a) s (visit (map fst (ln_attempts (al_lane s)))))"

text \<open>The attempts of every lane whose packet the receipts confirm.\<close>

definition receipt_attempt ::
  "acknowledgement \<Rightarrow> instant \<Rightarrow> lane \<times> packets \<times> duration \<Rightarrow> u64 \<Rightarrow> lane \<times> packets \<times> duration" where
  "receipt_attempt a now = (\<lambda>(path, pkts, feedback) seq.
     case map_of (ln_attempts path) seq of
       None \<Rightarrow> (path, pkts, feedback)
     | Some sent \<Rightarrow>
         if packet_acked a pkts sent \<and> \<not> at_confirmed sent then
           let pkts = (case at_packet sent of None \<Rightarrow> pkts | Some k \<Rightarrow> mark_acked pkts k);
               path = (if \<not> at_released sent then release pkts path sent else path);
               (path, feedback) = (if sent_once pkts sent
                 then (observeOrder path now (at_sent sent), max feedback (time_sub now (at_sent sent)))
                 else (path, feedback))
           in (set_attempt path seq (sent\<lparr>at_released := True, at_confirmed := True\<rparr>), pkts, feedback)
         else (path, pkts, feedback))"

definition receipt_lane ::
  "visit \<Rightarrow> acknowledgement \<Rightarrow> instant \<Rightarrow> path_id \<Rightarrow> duration \<Rightarrow> lane list \<times> packets \<Rightarrow> nat \<times> lane \<Rightarrow> lane list \<times> packets" where
  "receipt_lane visit a now i physical = (\<lambda>(done_lanes, pkts) (n, path).
     let feedback = (if ln_id path = i then physical else 0);
         (path, pkts, feedback) = foldl (receipt_attempt a now) (path, pkts, feedback) (visit (3 + n) (map fst (ln_attempts path)))
     in (done_lanes @ [observeFeedbackRTT path feedback], pkts))"

subsection \<open>Acknowledgements: loss, round trip and delivery\<close>

definition lateBelow :: "lane \<Rightarrow> packets \<Rightarrow> acknowledgement \<Rightarrow> instant \<Rightarrow> instant \<Rightarrow> u64 \<times> lane" where
  "lateBelow p pkts a highSent now =
     (let (v, m) = pe_value (ln_reordering p) now;
          p = p\<lparr>ln_reordering := m\<rparr>;
          allowance = max (max targetQueue (jitterSpreadFactor * ln_delayJitter p))
            (max (jitterSpreadFactor * ln_idleForwardVariation p) (to_duration (reorderHeadroom * v)));
          late = filter (\<lambda>(seq, sent). \<not> (seq \<ge> ack_high a \<or> time_sub highSent (at_sent sent) \<ge> allowance) \<and>
                   \<not> in_lane_mask a seq \<and> \<not> packet_acked a pkts sent) (ln_attempts p)
      in (foldl (\<lambda>late (seq, sent). late + of_int (at_bytes sent)) 0 late, p))"

definition ack_round_trip :: "lane \<Rightarrow> instant \<Rightarrow> duration \<Rightarrow> lane" where
  "ack_round_trip p now sample =
     (if sample > 0 then
        let p = p\<lparr>ln_rttVariation := (3 * ln_rttVariation p + abs_duration (sample - ln_rtt p)) sdiv 4\<rparr>;
            p = (if time_sub now (ln_lastPayload p) \<ge> feedbackHorizon
                 then (if ln_idleRTT p = 0 then p\<lparr>ln_idleRTT := sample\<rparr>
                       else let difference = abs_duration (sample - ln_idleRTT p)
                            in p\<lparr>ln_idleRTTVariation := (3 * ln_idleRTTVariation p + difference) sdiv 4,
                                 ln_idleRTT := (7 * ln_idleRTT p + sample) sdiv 8\<rparr>)
                 else p);
            p = p\<lparr>ln_rtt := (7 * ln_rtt p + sample) sdiv 8\<rparr>
        in if ln_lastACK p = zero_time \<or> sample < ln_baseRTT p \<or> time_sub now (ln_baseAt p) > 30 * second
           then p\<lparr>ln_baseRTT := sample, ln_baseAt := now\<rparr> else p
      else p)"

definition mark_delivery :: "lane \<Rightarrow> acknowledgement \<Rightarrow> instant \<Rightarrow> lane" where
  "mark_delivery p a now =
     p\<lparr>ln_rateBytes := ack_bytes a, ln_rateElapsed := ack_elapsed a, ln_feedbackAt := now, ln_rateSentBytes := ln_sent p\<rparr>"

definition ack_delivery :: "lane \<Rightarrow> acknowledgement \<Rightarrow> instant \<Rightarrow> lane" where
  "ack_delivery p a now =
     (if ln_feedbackAt p = zero_time then mark_delivery p a now
      else if ack_elapsed a - ln_rateElapsed p \<ge> word_of_int deliveryInterval \<and>
              time_sub now (ln_feedbackAt p) \<ge> deliveryInterval then
        let rate = of_nat (unat (ack_bytes a - ln_rateBytes p)) / Seconds (sint (ack_elapsed a - ln_rateElapsed p));
            sendRate = of_nat (unat (ln_sent p - ln_rateSentBytes p)) / Seconds (time_sub now (ln_feedbackAt p));
            p = p\<lparr>ln_previousDelivery := ln_deliverySample p, ln_deliverySample := rate\<rparr>;
            p = (if ln_deliveryRate p = 0 then p\<lparr>ln_deliveryRate := rate, ln_sendRate := sendRate\<rparr>
                 else p\<lparr>ln_deliveryRate := 8 / 10 * ln_deliveryRate p + 2 / 10 * rate,
                        ln_sendRate := 8 / 10 * ln_sendRate p + 2 / 10 * sendRate\<rparr>);
            p = mark_delivery p a now;
            p = p\<lparr>ln_sustained := sd_record (ln_sustained p) now (ack_bytes a) (ack_elapsed a)\<rparr>
        in raiseToDelivery p now
      else p)"

definition end_interval :: "lane \<Rightarrow> lane" where
  "end_interval p = p\<lparr>ln_haveInterval := False, ln_intervalSamples := 0, ln_intervalJitter := ln_delayJitter p\<rparr>"

text \<open>Loss since the last control interval.\<close>

definition interval_loss :: "lane \<Rightarrow> instant \<Rightarrow> bool \<times> lane" where
  "interval_loss p now =
     (let ((settled, known), l) = ll_settled (ln_losses p) now;
          p = p\<lparr>ln_losses := l\<rparr>
      in if known
         then (ln_lossMarked p \<and> settled - ln_lossMark p \<ge> of_int wireOverhead, p\<lparr>ln_lossMark := settled, ln_lossMarked := True\<rparr>)
         else (False, p))"

text \<open>
  The control interval. The flags are those of the transport: whether the lane was backlogged,
  whether the lanes limit what is carried, and whether real-time traffic is carried and steady.
\<close>

definition control_interval ::
  "lane \<Rightarrow> instant \<Rightarrow> duration \<Rightarrow> bool \<Rightarrow> bool \<Rightarrow> bool \<Rightarrow> bool \<Rightarrow> lane" where
  "control_interval p now sample backlogged limited realtime stream =
     (if now < ln_drainUntil p \<or> ln_baselinePending p \<or>
         time_sub now (ln_lastAdjust p) < max (min (ln_rtt p) (100 * millisecond)) (50 * millisecond)
      then p
      else
        let p = p\<lparr>ln_lastAdjust := now\<rparr>;
            queueDelay = (if ln_haveInterval p then ln_intervalQueueDelay p else ln_queueDelay p);
            p = p\<lparr>ln_signalDelay := queueDelay\<rparr>
        in if ln_floorSampling p then
             (if sample = 0 then p
              else
                let late = queueDelay > congestionThreshold p
                in if late \<and> ln_intervalSamples p < delaySamplesNeeded p then p
                   else
                     let p = (end_interval p)\<lparr>ln_floorSampling := False\<rparr>
                     in if late then floorMoved p sample else queueFound p)
           else
             let p = (if sample > 0 \<and> queueDelay \<le> maxWander
                      then let (light, p) = lightlyLoaded p
                           in if light
                              then let scatter = (jitterSpreadFactor * ln_delayJitter p) sdiv (max 1 (ln_intervalSamples p) + 1)
                                   in observeWander p (max 0 (queueDelay - scatter))
                              else p
                      else p);
                 delayed = (sample > 0 \<and> queueDelay > congestionThreshold p)
             in if delayed \<and> ln_intervalSamples p < delaySamplesNeeded p then p
                else
                  let p = end_interval p;
                      (lost, p) = interval_loss p now
                  in if \<not> backlogged then p
                     else adjust p now lost delayed (sample > 0) limited realtime stream)"

subsection \<open>Acknowledgements: the whole handler\<close>

text \<open>Progress of the peer's reports on the lane.\<close>

definition ack_progress :: "lane \<Rightarrow> acknowledgement \<Rightarrow> instant \<Rightarrow> bool \<Rightarrow> bool \<times> lane" where
  "ack_progress p a now fresh =
     (let progressed = (fresh \<and> (ack_high a > ln_receivedHigh p \<or> ack_bytes a > ln_ackedBytes p));
          p = (if ack_high a > ln_receivedHigh p then p\<lparr>ln_receivedThrough := 0\<rparr> else p);
          p = p\<lparr>ln_receivedHigh := max (ln_receivedHigh p) (ack_high a)\<rparr>;
          p = (if progressed
               then let p = p\<lparr>ln_model := (ln_model p)\<lparr>lm_progressAt := now\<rparr>\<rparr>
                    in if ack_high a > sl_through (ln_stall p) then p\<lparr>ln_stall := \<lparr>sl_length = 0, sl_through = 0\<rparr>\<rparr> else p
               else p)
      in (progressed, p))"

text \<open>The confirmations an acknowledgement makes, up to the lane's own loop and the byte counts.\<close>

definition ack_confirm ::
  "visit \<Rightarrow> transport \<Rightarrow> lane \<Rightarrow> acknowledgement \<Rightarrow> instant \<Rightarrow> bool \<Rightarrow> ack_loop option" where
  "ack_confirm visit t p a now fresh = do {
     let hit = filter (received a) (tp_pending t);
     let s = \<lparr>al_lane = p, al_packets = foldl mark_acked (tp_packets t) hit,
              al_pending = filter (\<lambda>k. \<not> received a k) (tp_pending t), al_sample = 0, al_feedback = 0,
              al_newest = ln_newestConfirmed p, al_highSent = zero_time, al_through = 0, al_counted = False\<rparr>;
     s \<leftarrow> ack_attempts a now fresh s (visit 1 (map fst (ln_attempts p)));
     Some (if fresh then
             let s = (if al_counted s then on_lane (\<lambda>p. p\<lparr>ln_receivedThrough := al_through s\<rparr>) s else s);
                 p = al_lane s
             in if ln_receivedThrough p > 0 \<and> ack_high a = ln_receivedHigh p
                then confirmArrived (visit 2) a (ln_receivedThrough p) s else s
           else s)
   }"

definition ack_losses ::
  "lane \<Rightarrow> packets \<Rightarrow> acknowledgement \<Rightarrow> instant \<Rightarrow> bool \<Rightarrow> instant \<Rightarrow> u64 \<Rightarrow> bool \<Rightarrow> lane" where
  "ack_losses p pkts a now fresh highSent through counted =
     (let p = (if counted
               then let (late, p) = lateBelow p pkts a highSent now
                    in p\<lparr>ln_losses := ll_record (ln_losses p) now (ack_high a) through (ack_bytes a) late\<rparr>
               else p)
      in if fresh \<and> ack_high a \<ge> ln_roundEnd p
         then p\<lparr>ln_roundEnd := ln_seq p + 1, ln_roundDone := True, ln_roundLossy := ll_material (ln_losses p) now\<rparr>
         else p)"

definition ack_fresh ::
  "transport \<Rightarrow> lane \<Rightarrow> acknowledgement \<Rightarrow> instant \<Rightarrow> duration \<Rightarrow> bool \<Rightarrow> transport option" where
  "ack_fresh t p a now sample backlogged = do {
     let p = ack_round_trip p now sample;
     let p = ack_delivery p a now;
     let p = p\<lparr>ln_peakDelivery := max (ln_peakDelivery p) (ln_deliveryRate p),
               ln_ackedBytes := ack_bytes a, ln_ackedElapsed := ack_elapsed a,
               ln_recentDelivery := pe_record (ln_recentDelivery p) now (ln_deliveryRate p)\<rparr>;
     let (stream, m) = rm_steady (tp_demand t classRealtime) now;
     let t = t\<lparr>tp_demand := (tp_demand t)(classRealtime := m)\<rparr>;
     let p = snd (boundByDelivery p now stream);
     let gap = time_sub now (ln_lastACK p);
     let p = (if ln_lastACK p \<noteq> zero_time \<and> gap < ackGapHorizon
              then p\<lparr>ln_ackGap := ln_ackGap p + (gap - ln_ackGap p) sdiv 8\<rparr> else p);
     let p = p\<lparr>ln_lastACK := now\<rparr>;
     limited \<leftarrow> laneLimited t now;
     let realtime = demand_rate t classRealtime now > 0;
     Some (put_lane t (control_interval p now sample backlogged limited realtime stream))
   }"

definition ack :: "visit \<Rightarrow> transport \<Rightarrow> lane \<Rightarrow> acknowledgement \<Rightarrow> instant \<Rightarrow> bool \<Rightarrow> transport option" where
  "ack visit t p a now fresh = do {
     let silence = progressAge (ln_model p) now;
     let (progressed, p) = ack_progress p a now fresh;
     let backlogged = (queued t > 0 \<or> ln_inflight p \<ge> window p sdiv 2);
     s \<leftarrow> ack_confirm visit t p a now fresh;
     let t = (put_lane t (al_lane s))\<lparr>tp_pending := al_pending s\<rparr>;
     let (lanes, pkts) = foldl (receipt_lane visit a now (ln_id p) (al_feedback s)) ([], al_packets s) (enumerate 0 (tp_paths t));
     let t = t\<lparr>tp_paths := lanes, tp_packets := pkts\<rparr>;
     p \<leftarrow> find_lane t (ln_id p);
     let p = p\<lparr>ln_newestConfirmed := al_newest s\<rparr>;
     let p = (if progressed \<and> silence \<ge> stallSilence \<and> silence < pathLease \<and> al_feedback s \<ge> silence
              then stallEnded p silence else p);
     let p = ack_losses p pkts a now fresh (al_highSent s) (al_through s) (al_counted s);
     if \<not> fresh then Some (put_lane t p) else ack_fresh t p a now (al_sample s) backlogged
   }"

subsection \<open>Receiving\<close>

definition find_receiver :: "transport \<Rightarrow> path_id \<Rightarrow> receiver option" where
  "find_receiver t lane = List.find (\<lambda>r. rc_remoteLane r = lane) (tp_receivers t)"

definition put_receiver :: "transport \<Rightarrow> receiver \<Rightarrow> transport" where
  "put_receiver t r = t\<lparr>tp_receivers := map (\<lambda>q. if rc_remoteLane q = rc_remoteLane r then r else q) (tp_receivers t)\<rparr>"

definition new_receiver :: "path_id \<Rightarrow> path_id \<Rightarrow> instant \<Rightarrow> receiver" where
  "new_receiver path lane now =
     \<lparr>rc_path = path, rc_remoteLane = lane, rc_receipts = no_receipts, rc_bytes = 0, rc_start = now, rc_last = zero_time,
      rc_highAt = zero_time, rc_pending = 0, rc_ackAt = now, rc_streak = 0, rc_received = rate_meter_zero, rc_revision = 0\<rparr>"

type_synonym 'a outcome = "(rejection_error + 'a) \<times> transport"

definition refuse :: "rejection_cause \<Rightarrow> string \<Rightarrow> transport \<Rightarrow> 'a outcome" where
  "refuse cause msg t = (Inl (reject cause msg), t)"

text \<open>A data frame whose fields are in order: the receipts of its lane, then those of its datagram.\<close>

definition accept_data ::
  "transport \<Rightarrow> lane \<Rightarrow> receiver \<Rightarrow> control \<Rightarrow> u64 \<Rightarrow> u64 \<Rightarrow> instant \<Rightarrow> delivery list outcome" where
  "accept_data t local r f seq order now =
     (let previousHigh = rw_high (rc_receipts r);
          (ok, w) = mark (rc_receipts r) (ct_Seq f);
          r = r\<lparr>rc_receipts := w\<rparr>
      in if \<not> ok then (Inr [], (put_receiver t r)\<lparr>tp_duplicates := tp_duplicates t + 1\<rparr>)
         else
           let r = (if ct_Seq f > previousHigh then r\<lparr>rc_highAt := now\<rparr> else r);
               sz = int (length (ct_Payload f)) - int headerBytes - int dataFieldBytes + wireOverhead;
               r = r\<lparr>rc_bytes := rc_bytes r + of_int sz, rc_received := rm_add (rc_received r) now (of_int sz),
                     rc_last := now, rc_pending := rc_pending r + 1\<rparr>;
               t = put_receiver t r
           in if seq = 0 then (Inr [], t)
              else
                let t = (if order AND interactiveBit = 0
                         then put_lane t (local\<lparr>ln_bulkReceived := ln_bulkReceived local + 1\<rparr>) else t);
                    (new, (recvd, unreported)) = note_receipt (tp_received t, tp_unreported t) seq;
                    t = t\<lparr>tp_received := recvd, tp_unreported := unreported\<rparr>
                in if \<not> new then (Inr [], t\<lparr>tp_duplicates := tp_duplicates t + 1\<rparr>)
                   else (Inr [\<lparr>dl_Sequence = order AND NOT interactiveBit, dl_Interactive = (order AND interactiveBit \<noteq> 0),
                               dl_Payload = drop (headerBytes + 32) (ct_Payload f)\<rparr>], t))"

definition receive_data :: "transport \<Rightarrow> lane \<Rightarrow> path_id \<Rightarrow> packet_header \<Rightarrow> control \<Rightarrow> instant \<Rightarrow> delivery list outcome" where
  "receive_data t local path h f now =
     (let b = ct_Payload f
      in if ph_lane h \<noteq> ln_remoteID local
         then refuse RejectLane ''bond: DATA lane disagrees with authenticated probe'' t
         else if length b < headerBytes + 32 \<or> length b > headerBytes + 32 + maxDatagram
         then refuse RejectMalformed ''bond: invalid DATA size'' t
         else if \<lparr>ep_Boot = get_u64 (drop headerBytes b), ep_Generation = get_u64 (drop (headerBytes + 8) b)\<rparr> \<noteq> tp_epoch t
         then refuse RejectEpoch ''bond: DATA for stale local epoch'' t
         else
           let seq = get_u64 (drop (headerBytes + 16) b);
               order = get_u64 (drop (headerBytes + 24) b)
           in if seq = 0 \<and> (order \<noteq> 0 \<or> length b \<noteq> headerBytes + 32)
              then refuse RejectMalformed ''bond: malformed keepalive'' t
              else if seq \<noteq> 0 \<and> (order AND NOT interactiveBit = 0 \<or> length b = headerBytes + 32)
              then refuse RejectMalformed ''bond: invalid delivery sequence or empty datagram'' t
              else
                let (r, t) = (case find_receiver t (ph_lane h) of
                      Some r \<Rightarrow> (r, t)
                    | None \<Rightarrow> let r = new_receiver path (ph_lane h) now in (r, t\<lparr>tp_receivers := tp_receivers t @ [r]\<rparr>))
                in if rc_path r \<noteq> path then refuse RejectLane ''bond: receiver lane changed without probe'' t
                   else accept_data t local r f seq order now)"

definition receive_ack ::
  "visit \<Rightarrow> transport \<Rightarrow> lane \<Rightarrow> path_id \<Rightarrow> packet_header \<Rightarrow> control \<Rightarrow> instant \<Rightarrow> delivery list outcome option" where
  "receive_ack visit t local path h f now =
     (if ph_lane h \<noteq> path then Some (refuse RejectLane ''bond: ACK arrived on wrong path'' t)
      else case parseACK (ct_Payload f) of
        Inl e \<Rightarrow> Some (Inl e, t)
      | Inr a \<Rightarrow>
          if ack_observed a \<noteq> tp_epoch t then Some (refuse RejectEpoch ''bond: ACK for stale local epoch'' t)
          else
            let fresh = ct_Seq f > ln_ackRevision local;
                impossible = (ack_high a > ln_seq local \<or> ack_receivedHigh a > tp_seq t \<or>
                  fresh \<and> (ack_bytes a < ln_ackedBytes local \<or> ack_elapsed a < ln_ackedElapsed local) \<or>
                  \<not> fresh \<and> (ack_bytes a > ln_ackedBytes local \<or> ack_elapsed a > ln_ackedElapsed local))
            in if impossible then Some (refuse RejectACK ''bond: stale or impossible ACK'' t)
               else
                 let (ok, w) = mark (ln_ackReceipts local) (ct_Seq f);
                     local = local\<lparr>ln_ackReceipts := w\<rparr>
                 in if \<not> ok then Some (refuse RejectACK ''bond: stale or impossible ACK'' (put_lane t local))
                    else do {
                      let local = (if fresh then local\<lparr>ln_ackRevision := ct_Seq f\<rparr> else local);
                      t \<leftarrow> ack visit (put_lane t local) local a now fresh;
                      Some (Inr [], t)
                    })"

definition receive :: "visit \<Rightarrow> transport \<Rightarrow> path_id \<Rightarrow> control \<Rightarrow> instant \<Rightarrow> delivery list outcome option" where
  "receive visit t path f now =
     (case checkTime t now of
        (Some e, t) \<Rightarrow> Some (Inl e, t)
      | (None, t) \<Rightarrow>
          (case parseHeader (ct_Payload f) of
             Inl e \<Rightarrow> Some (Inl e, t)
           | Inr h \<Rightarrow>
               if ph_epoch h \<noteq> tp_remote t \<or> ct_Seq f = 0
               then Some (refuse RejectEpoch ''bond: stale epoch or zero sequence'' t)
               else
                 (case find_lane t path of
                    None \<Rightarrow> Some (refuse RejectPath ''bond: unvalidated path'' t)
                  | Some local \<Rightarrow>
                      if \<not> up local now then Some (refuse RejectPath ''bond: unvalidated path'' t)
                      else if ct_ControlType f = DataType then Some (receive_data t local path h f now)
                      else if ct_ControlType f = ACKType then receive_ack visit t local path h f now
                      else Some (refuse RejectType ''bond: unknown frame type'' t))))"

definition Receive :: "visit \<Rightarrow> transport \<Rightarrow> path_id \<Rightarrow> control \<Rightarrow> instant \<Rightarrow> delivery list outcome option" where
  "Receive visit t path f now = do {
     (r, t) \<leftarrow> receive visit t path f now;
     Some (case r of
        Inl e \<Rightarrow> (Inl e, t\<lparr>tp_rejected := (tp_rejected t)(rj_Cause e := tp_rejected t (rj_Cause e) + 1)\<rparr>)
      | Inr ds \<Rightarrow> (Inr ds, t))
   }"

subsection \<open>Statistics\<close>

record path_stats =
  ps_Path :: path_id
  ps_TransitFloor :: duration
  ps_TransitFloorKnown :: bool
  ps_TransitFloorAge :: duration
  ps_PathDelay :: duration
  ps_Rank :: duration
  ps_Liveness :: lane_liveness
  ps_LivenessAge :: duration
  ps_ACKProgressKnown :: bool
  ps_Capacity :: rat
  ps_Rate :: rat
  ps_SendRate :: rat
  ps_DeliveryRate :: rat
  ps_RTT :: duration
  ps_RTTVariation :: duration
  ps_IdleRTTVariation :: duration
  ps_IdleForwardVariation :: duration
  ps_FeedbackRTT :: duration
  ps_FeedbackRTTVariation :: duration
  ps_BaseRTT :: duration
  ps_QueueDelay :: duration
  ps_InFlight :: int
  ps_Window :: int
  ps_Sent :: u64
  ps_ACKed :: u64
  ps_Retransmits :: u64
  ps_InteractiveSent :: u64
  ps_RealtimeOriginals :: u64
  ps_BulkOriginals :: u64
  ps_BulkReceived :: u64
  ps_Up :: bool
  ps_Discovering :: bool
  ps_Threshold :: duration
  ps_Decisions :: decisions

record snapshot =
  sn_Paths :: "path_stats list"
  sn_QueueDrops :: u64
  sn_AdmissionDrops :: u64
  sn_AQMDrops :: u64
  sn_InteractiveQueueDrops :: u64
  sn_RealtimeQueueDrops :: drop_stats
  sn_SmallTCPQueueDrops :: drop_stats
  sn_RealtimeQueueResidence :: residence_stats
  sn_SmallTCPQueueResidence :: residence_stats
  sn_InteractiveQueued :: int
  sn_CoalescedACKs :: u64
  sn_Expired :: u64
  sn_Duplicates :: u64
  sn_RealtimeMoves :: u64
  sn_Rejected :: "rejection_cause \<Rightarrow> u64"

definition path_snapshot :: "lane \<Rightarrow> instant \<Rightarrow> path_stats" where
  "path_snapshot p now =
     (let baseline = ln_transitBases p ! nat (ln_transitBucket p)
      in \<lparr>ps_Path = ln_id p, ps_TransitFloor = tb_delay baseline, ps_TransitFloorKnown = tb_known baseline,
          ps_TransitFloorAge = (if tb_known baseline then max 0 (time_sub now (tb_observed baseline)) else 0),
          ps_PathDelay = ln_idleRTT p, ps_Rank = latency p, ps_Liveness = lane_state p now,
          ps_LivenessAge = progressAge (ln_model p) now, ps_ACKProgressKnown = (lm_progressAt (ln_model p) \<noteq> zero_time),
          ps_Capacity = cn_capacity (ln_control p), ps_Rate = ln_rate p, ps_SendRate = ln_sendRate p,
          ps_DeliveryRate = ln_deliveryRate p, ps_RTT = ln_rtt p, ps_RTTVariation = ln_rttVariation p,
          ps_IdleRTTVariation = ln_idleRTTVariation p, ps_IdleForwardVariation = ln_idleForwardVariation p,
          ps_FeedbackRTT = ln_feedbackRTT p, ps_FeedbackRTTVariation = ln_feedbackRTTVariation p,
          ps_BaseRTT = ln_baseRTT p, ps_QueueDelay = ln_queueDelay p, ps_InFlight = ln_inflight p, ps_Window = window p,
          ps_Sent = ln_sent p, ps_ACKed = ln_acked p, ps_Retransmits = ln_retries p,
          ps_InteractiveSent = ln_interactiveSent p, ps_RealtimeOriginals = ln_realtimeOriginals p,
          ps_BulkOriginals = ln_bulkOriginals p, ps_BulkReceived = ln_bulkReceived p, ps_Up = eligible p classRealtime now,
          ps_Discovering = ln_startup p, ps_Threshold = congestionThreshold p, ps_Decisions = ln_decisions p\<rparr>)"

definition Snapshot :: "transport \<Rightarrow> instant \<Rightarrow> snapshot" where
  "Snapshot t now =
     \<lparr>sn_Paths = map (\<lambda>p. path_snapshot p now) (tp_paths t), sn_QueueDrops = tp_drops t,
      sn_AdmissionDrops = tp_admissionDrops t, sn_AQMDrops = tp_aqmDrops t, sn_InteractiveQueueDrops = tp_interactiveDrops t,
      sn_RealtimeQueueDrops = tp_smallQueueDrops t classRealtime, sn_SmallTCPQueueDrops = tp_smallQueueDrops t classSmall,
      sn_RealtimeQueueResidence = tp_smallQueueResidence t classRealtime,
      sn_SmallTCPQueueResidence = tp_smallQueueResidence t classSmall,
      sn_InteractiveQueued = fq_count (tp_small t classRealtime) + fq_count (tp_small t classSmall),
      sn_CoalescedACKs = tp_coalescedACKs t, sn_Expired = tp_expired t, sn_Duplicates = tp_duplicates t,
      sn_RealtimeMoves = tp_realtimeMoves t, sn_Rejected = tp_rejected t\<rparr>"

end
