(* ===== verification/Flight.thy ===== *)
theory Flight
  imports Reception Control_Rates
begin

text \<open>
  The in-flight accounting of a lane: its in-flight bytes, in all and per traffic class, are the
  bytes of the attempts it has not released. Every operation on a lane keeps that, along with the
  shape of its attempts. The parameter \<open>n\<close> bounds the lane's sequence, so that a new attempt never
  reuses a key.
\<close>

section \<open>Sums over the attempts\<close>

definition in_class :: "packets \<Rightarrow> traffic_class \<Rightarrow> attempt \<Rightarrow> bool" where
  "in_class pkts c a = (case at_packet a of None \<Rightarrow> False | Some k \<Rightarrow> pk_class (the (pkts k)) = c)"

definition weight :: "(attempt \<Rightarrow> bool) \<Rightarrow> attempt \<Rightarrow> int" where
  "weight P a = (if \<not> at_released a \<and> P a then at_bytes a else 0)"

definition flight_sum :: "(attempt \<Rightarrow> bool) \<Rightarrow> (u64 \<times> attempt) list \<Rightarrow> int" where
  "flight_sum P al = sum_list (map (weight P \<circ> snd) al)"

lemma flight_sum_simps [simp]:
  "flight_sum P [] = 0" "flight_sum P (x # al) = weight P (snd x) + flight_sum P al"
  "flight_sum P (al @ bl) = flight_sum P al + flight_sum P bl"
  by (simp_all add: flight_sum_def)

lemma update_fresh: "k \<notin> fst ` set al \<Longrightarrow> AList.update k v al = al @ [(k, v)]"
  by (induction al) auto

lemma flight_sum_delete:
  "distinct (map fst al) \<Longrightarrow> map_of al s = Some a \<Longrightarrow> flight_sum P (AList.delete s al) = flight_sum P al - weight P a"
proof (induction al)
  case (Cons x al)
  obtain k b where x: "x = (k, b)" by fastforce
  show ?case
  proof (cases "k = s")
    case True
    then have "AList.delete s al = al" using Cons.prems(1) x by (auto simp: AList.delete_eq filter_id_conv image_iff)
    then show ?thesis using True Cons.prems x by simp
  next
    case False
    then show ?thesis using Cons x by simp
  qed
qed simp

lemma flight_sum_update:
  "distinct (map fst al) \<Longrightarrow> map_of al s = Some a \<Longrightarrow>
    flight_sum P (AList.update s b al) = flight_sum P al - weight P a + weight P b"
  by (induction al) (auto split: if_splits)

lemma delete_updated: "AList.delete s (AList.update s b al) = AList.delete s al"
  by (induction al) auto

lemma set_delete: "set (AList.delete s al) \<subseteq> set al"
  by (simp add: AList.delete_eq)

lemma set_update: "set (AList.update s b al) \<subseteq> insert (s, b) (set al)"
  by (induction al) auto

section \<open>Well-formed lanes\<close>

definition attempt_ok :: "packets \<Rightarrow> attempt \<Rightarrow> bool" where
  "attempt_ok pkts a \<longleftrightarrow> wireOverhead \<le> at_bytes a \<and> at_bytes a \<le> int maxDatagram + wireOverhead \<and>
     (\<forall>k. at_packet a = Some k \<longrightarrow> k \<in> dom pkts)"

definition flight_ok :: "packets \<Rightarrow> nat \<Rightarrow> lane \<Rightarrow> bool" where
  "flight_ok pkts n p \<longleftrightarrow> distinct (map fst (ln_attempts p)) \<and> unat (ln_seq p) \<le> n \<and>
     (\<forall>(s, a) \<in> set (ln_attempts p). s \<le> ln_seq p \<and> attempt_ok pkts a) \<and>
     ln_inflight p = flight_sum (\<lambda>_. True) (ln_attempts p) \<and>
     (\<forall>c. ln_classInflight p c = flight_sum (in_class pkts c) (ln_attempts p)) \<and>
     length (ln_transitBases p) = transit_buckets"

lemma flight_ok_kept: "kept q = kept p \<Longrightarrow> flight_ok pkts n q = flight_ok pkts n p"
  by (simp add: kept_def flight_ok_def)

lemma flight_ok_mono: "flight_ok pkts n p \<Longrightarrow> n \<le> m \<Longrightarrow> flight_ok pkts m p"
  by (auto simp: flight_ok_def)

text \<open>Packets may be added and updated as long as none disappears or changes its class.\<close>

definition packets_grow :: "packets \<Rightarrow> packets \<Rightarrow> bool" where
  "packets_grow pkts pkts' \<longleftrightarrow> (\<forall>s k. pkts s = Some k \<longrightarrow> (\<exists>k'. pkts' s = Some k' \<and> pk_class k' = pk_class k))"

lemma packets_grow_refl [simp]: "packets_grow pkts pkts"
  by (simp add: packets_grow_def)

lemma packets_grow_trans: "packets_grow p q \<Longrightarrow> packets_grow q r \<Longrightarrow> packets_grow p r"
  unfolding packets_grow_def by metis

lemma packets_grow_acked: "packets_grow pkts (mark_acked pkts s)"
  by (auto simp: packets_grow_def mark_acked_def)

lemma packets_grow_acked_list: "packets_grow pkts (foldl mark_acked pkts ss)"
  by (induction ss arbitrary: pkts) (auto intro: packets_grow_trans packets_grow_acked)

lemma in_class_grow:
  assumes "packets_grow pkts pkts'" and "attempt_ok pkts a"
  shows "in_class pkts' c a = in_class pkts c a"
proof (cases "at_packet a")
  case (Some s)
  then obtain k where "pkts s = Some k" using assms(2) by (auto simp: attempt_ok_def)
  then show ?thesis using assms(1) Some by (fastforce simp: packets_grow_def in_class_def)
qed (simp add: in_class_def)

lemma attempt_ok_grow: "packets_grow pkts pkts' \<Longrightarrow> attempt_ok pkts a \<Longrightarrow> attempt_ok pkts' a"
  by (fastforce simp: packets_grow_def attempt_ok_def)

lemma flight_ok_grow:
  assumes "packets_grow pkts pkts'" and ok: "flight_ok pkts n p"
  shows "flight_ok pkts' n p"
proof -
  have "flight_sum (in_class pkts' c) (ln_attempts p) = flight_sum (in_class pkts c) (ln_attempts p)" for c
  proof -
    have "attempt_ok pkts (snd x)" if "x \<in> set (ln_attempts p)" for x using ok that by (auto simp: flight_ok_def)
    then show ?thesis
      unfolding flight_sum_def using assms(1) by (auto intro!: arg_cong [of _ _ sum_list] simp: weight_def in_class_grow)
  qed
  then show ?thesis using ok assms(1) by (auto simp: flight_ok_def attempt_ok_grow)
qed

lemma flight_ok_attempt:
  assumes "flight_ok pkts n p" and "map_of (ln_attempts p) s = Some a"
  shows "attempt_ok pkts a" and "s \<le> ln_seq p" and "distinct (map fst (ln_attempts p))"
  using assms map_of_SomeD [OF assms(2)] by (auto simp: flight_ok_def)

section \<open>Releasing and settling an attempt\<close>

definition settle :: "packets \<Rightarrow> lane \<Rightarrow> attempt \<Rightarrow> lane" where
  "settle pkts p a = (if \<not> at_released a then release pkts p a else p)"

lemma settle_simps [simp]:
  "ln_attempts (settle pkts p a) = ln_attempts p" "ln_seq (settle pkts p a) = ln_seq p"
  "ln_transitBases (settle pkts p a) = ln_transitBases p" "ln_id (settle pkts p a) = ln_id p"
  by (simp_all add: settle_def release_def Let_def split: option.splits)

lemma settle_inflight: "ln_inflight (settle pkts p a) = ln_inflight p - weight (\<lambda>_. True) a"
  by (simp add: settle_def release_def Let_def weight_def split: option.splits)

lemma settle_classInflight: "ln_classInflight (settle pkts p a) c = ln_classInflight p c - weight (in_class pkts c) a"
  by (auto simp: settle_def release_def Let_def weight_def in_class_def split: option.splits)

lemma settle_delete:
  assumes "flight_ok pkts n p" and "map_of (ln_attempts p) s = Some a"
  shows "flight_ok pkts n (delete_attempt (settle pkts p a) s)"
  using assms set_delete [of s "ln_attempts p"]
  by (auto simp: flight_ok_def delete_attempt_def settle_inflight settle_classInflight flight_sum_delete AList.distinct_delete)

lemma settle_mark:
  assumes ok: "flight_ok pkts n p" and a: "map_of (ln_attempts p) s = Some a"
    and b: "at_released b" "at_packet b = at_packet a" "at_bytes b = at_bytes a"
  shows "flight_ok pkts n (set_attempt (settle pkts p a) s b)"
proof -
  have w: "weight P b = 0" for P using b(1) by (simp add: weight_def)
  have "attempt_ok pkts b" using flight_ok_attempt(1) [OF ok a] b by (simp add: attempt_ok_def)
  then show ?thesis
    using ok a flight_ok_attempt(2) [OF ok a] set_update [of s b "ln_attempts p"]
    by (auto simp: flight_ok_def set_attempt_def settle_inflight settle_classInflight flight_sum_update w distinct_update)
qed

section \<open>A new attempt\<close>

lemma new_attempt:
  assumes ok: "flight_ok pkts n p" and room: "Suc n < 2 ^ 64" and a: "attempt_ok pkts a" "\<not> at_released a"
    and q: "ln_attempts q = AList.update (ln_seq p + 1) a (ln_attempts p)" "ln_seq q = ln_seq p + 1"
      "length (ln_transitBases q) = length (ln_transitBases p)"
      "ln_inflight q = ln_inflight p + at_bytes a"
      "\<And>c. ln_classInflight q c = ln_classInflight p c + (if in_class pkts c a then at_bytes a else 0)"
  shows "flight_ok pkts (Suc n) q"
proof -
  have le: "unat (ln_seq p) \<le> n" using ok by (simp add: flight_ok_def)
  then have u: "unat (ln_seq p + 1) = unat (ln_seq p) + 1" using room by (simp add: unat_plus_nowrap)
  have fresh: "ln_seq p + 1 \<notin> fst ` set (ln_attempts p)"
    using ok u by (auto simp: flight_ok_def word_le_nat_alt)
  note upd = update_fresh [OF fresh, of a]
  have "s \<le> ln_seq p + 1" if "s \<le> ln_seq p" for s using that u by (simp add: word_le_nat_alt)
  then show ?thesis
    using ok a le u q upd fresh by (auto simp: flight_ok_def weight_def image_iff)
qed

lemma beginAttempt_simps [simp]:
  "ln_seq (beginAttempt p now) = ln_seq p + 1" "ln_attempts (beginAttempt p now) = ln_attempts p"
  "ln_inflight (beginAttempt p now) = ln_inflight p" "ln_classInflight (beginAttempt p now) = ln_classInflight p"
  "ln_transitBases (beginAttempt p now) = ln_transitBases p" "ln_id (beginAttempt p now) = ln_id p"
  "ln_remoteID (beginAttempt p now) = ln_remoteID p" "ln_ackReceipts (beginAttempt p now) = ln_ackReceipts p"
  "ln_feedbackAt (beginAttempt p now) = ln_feedbackAt p" "ln_rateElapsed (beginAttempt p now) = ln_rateElapsed p"
  "ln_ackedElapsed (beginAttempt p now) = ln_ackedElapsed p" "ln_sent (beginAttempt p now) = ln_sent p"
  by (simp_all add: beginAttempt_def Let_def)

lemma beginAttempt_rates [lane_rates]: "rates_ok (beginAttempt p now) = rates_ok p"
  by (simp add: beginAttempt_def Let_def rates_ok_def)

lemma pace_simps [simp]:
  "ln_attempts (pace q now b) = ln_attempts q" "ln_seq (pace q now b) = ln_seq q"
  "ln_transitBases (pace q now b) = ln_transitBases q" "ln_inflight (pace q now b) = ln_inflight q"
  "ln_classInflight (pace q now b) = ln_classInflight q" "ln_id (pace q now b) = ln_id q"
  "ln_remoteID (pace q now b) = ln_remoteID q" "ln_ackReceipts (pace q now b) = ln_ackReceipts q"
  "ln_feedbackAt (pace q now b) = ln_feedbackAt q" "ln_rateElapsed (pace q now b) = ln_rateElapsed q"
  "ln_ackedElapsed (pace q now b) = ln_ackedElapsed q"
  by (simp_all add: pace_def case_prod_beta Let_def)

lemma pace_keeps [lane_keeps]: "kept (pace p now b) = kept p"
  by (simp add: pace_def case_prod_beta Let_def kept_def)

lemma pace_rates [lane_rates]: "rates_ok (pace p now b) = rates_ok p"
  by (simp add: pace_def case_prod_beta Let_def rates_ok_def)

text \<open>The parts of a lane that neither an attempt nor the control changes.\<close>

definition steady_part :: "lane \<Rightarrow> path_id \<times> path_id \<times> receipt_window \<times> instant \<times> u64 \<times> u64" where
  "steady_part p = (ln_id p, ln_remoteID p, ln_ackReceipts p, ln_feedbackAt p, ln_rateElapsed p, ln_ackedElapsed p)"

lemma steady_part_kept: "kept q = kept p \<Longrightarrow> steady_part q = steady_part p"
  by (simp add: kept_def steady_part_def)

lemma lane_transmit_shape:
  defines "sz k \<equiv> int (length (pk_payload k)) + wireOverhead"
  shows "ln_attempts (lane_transmit p k now) = AList.update (ln_seq p + 1)
      \<lparr>at_packet = Some (pk_seq k), at_sent = now, at_bytes = sz k, at_released = False, at_confirmed = False,
       at_through = ln_sent p + of_int (sz k)\<rparr> (ln_attempts p)"
    and "ln_seq (lane_transmit p k now) = ln_seq p + 1"
    and "ln_transitBases (lane_transmit p k now) = ln_transitBases p"
    and "ln_inflight (lane_transmit p k now) = ln_inflight p + sz k"
    and "ln_classInflight (lane_transmit p k now) = (ln_classInflight p)(pk_class k := ln_classInflight p (pk_class k) + sz k)"
    and "steady_part (lane_transmit p k now) = steady_part p"
    and "rates_ok (lane_transmit p k now) = rates_ok p"
proof -
  note d = lane_transmit_def [unfolded Let_def] set_attempt_def assms
  show "ln_attempts (lane_transmit p k now) = AList.update (ln_seq p + 1)
      \<lparr>at_packet = Some (pk_seq k), at_sent = now, at_bytes = sz k, at_released = False, at_confirmed = False,
       at_through = ln_sent p + of_int (sz k)\<rparr> (ln_attempts p)"
    and "ln_seq (lane_transmit p k now) = ln_seq p + 1"
    and "ln_transitBases (lane_transmit p k now) = ln_transitBases p"
    and "ln_inflight (lane_transmit p k now) = ln_inflight p + sz k"
    and "ln_classInflight (lane_transmit p k now) = (ln_classInflight p)(pk_class k := ln_classInflight p (pk_class k) + sz k)"
    by (simp_all add: d)
  show "steady_part (lane_transmit p k now) = steady_part p" by (simp add: d steady_part_def)
  have r: "rates_ok (q\<lparr>ln_classNext := f\<rparr>) = rates_ok q" "rates_ok (q\<lparr>ln_retries := x\<rparr>) = rates_ok q"
    "rates_ok (q\<lparr>ln_lastTransmit := now, ln_lastPayload := now\<rparr>) = rates_ok q"
    "rates_ok (q\<lparr>ln_interactiveSent := x\<rparr>) = rates_ok q" "rates_ok (q\<lparr>ln_firstSent := now\<rparr>) = rates_ok q"
    "rates_ok (q\<lparr>ln_attempts := al, ln_inflight := i, ln_classInflight := ci, ln_sent := x\<rparr>) = rates_ok q" for q f x al i ci
    by (simp_all add: rates_ok_def)
  show "rates_ok (lane_transmit p k now) = rates_ok p"
    by (simp add: lane_transmit_def Let_def set_attempt_def lane_rates r)
qed

lemma lane_transmit_ok:
  assumes ok: "flight_ok pkts n p" and room: "Suc n < 2 ^ 64" and len: "length (pk_payload k) \<le> maxDatagram"
    and k: "\<exists>k'. pkts (pk_seq k) = Some k' \<and> pk_class k' = pk_class k"
  shows "flight_ok pkts (Suc n) (lane_transmit p k now)"
proof -
  define a where "a = \<lparr>at_packet = Some (pk_seq k), at_sent = now, at_bytes = int (length (pk_payload k)) + wireOverhead,
    at_released = False, at_confirmed = False, at_through = ln_sent p + of_int (int (length (pk_payload k)) + wireOverhead)\<rparr>"
  have "attempt_ok pkts a" "\<not> at_released a" using k len by (auto simp: a_def attempt_ok_def)
  then show ?thesis
    using k by (intro new_attempt [OF ok room]) (auto simp: lane_transmit_shape a_def in_class_def)
qed

lemma keepalive_shape:
  assumes "keepalive local remote p now = (txs, q)"
  shows "(txs = [] \<and> q = p) \<or>
    (length txs = 1 \<and> ln_attempts q = AList.update (ln_seq p + 1)
      \<lparr>at_packet = None, at_sent = now, at_bytes = wireOverhead, at_released = False, at_confirmed = False,
       at_through = ln_sent p + of_int wireOverhead\<rparr> (ln_attempts p) \<and> ln_seq q = ln_seq p + 1 \<and>
     ln_transitBases q = ln_transitBases p \<and> ln_inflight q = ln_inflight p + wireOverhead \<and>
     ln_classInflight q = ln_classInflight p \<and> steady_part q = steady_part p \<and> rates_ok q = rates_ok p)"
proof -
  have r: "rates_ok (q\<lparr>ln_lastTransmit := now, ln_firstSent := now, ln_attempts := al, ln_inflight := i, ln_sent := x\<rparr>) = rates_ok q"
    "rates_ok (q\<lparr>ln_lastTransmit := now, ln_attempts := al, ln_inflight := i, ln_sent := x\<rparr>) = rates_ok q" for q x al i
    by (simp_all add: rates_ok_def)
  show ?thesis
    using assms unfolding keepalive_def Let_def
    by (auto simp: set_attempt_def r lane_rates steady_part_def split: if_splits)
qed

lemma keepalive_ok:
  assumes ok: "flight_ok pkts n p" and room: "n + length txs < 2 ^ 64" and e: "keepalive local remote p now = (txs, q)"
  shows "flight_ok pkts (n + length txs) q"
  using keepalive_shape [OF e]
proof
  assume "txs = [] \<and> q = p"
  then show ?thesis using ok by simp
next
  assume sh: "length txs = 1 \<and> ln_attempts q = AList.update (ln_seq p + 1)
      \<lparr>at_packet = None, at_sent = now, at_bytes = wireOverhead, at_released = False, at_confirmed = False,
       at_through = ln_sent p + of_int wireOverhead\<rparr> (ln_attempts p) \<and> ln_seq q = ln_seq p + 1 \<and>
     ln_transitBases q = ln_transitBases p \<and> ln_inflight q = ln_inflight p + wireOverhead \<and>
     ln_classInflight q = ln_classInflight p \<and> steady_part q = steady_part p \<and> rates_ok q = rates_ok p"
  have "flight_ok pkts (Suc n) q"
    using sh room by (intro new_attempt [OF ok]) (auto simp: attempt_ok_def in_class_def)
  then show ?thesis using sh by simp
qed

section \<open>Time-outs\<close>

lemma settle_keeps_steady [simp]: "steady_part (settle pkts p a) = steady_part p"
  by (simp add: settle_def release_def Let_def steady_part_def split: option.splits)

lemma settle_rates [lane_rates]: "rates_ok (settle pkts p a) = rates_ok p"
  by (simp add: settle_def release_def Let_def rates_ok_def split: option.splits)

lemma attempt_writes [simp]:
  "steady_part (set_attempt p s a) = steady_part p" "steady_part (delete_attempt p s) = steady_part p"
  "rates_ok (set_attempt p s a) = rates_ok p" "rates_ok (delete_attempt p s) = rates_ok p"
  "ln_id (set_attempt p s a) = ln_id p" "ln_id (delete_attempt p s) = ln_id p"
  by (simp_all add: set_attempt_def delete_attempt_def steady_part_def rates_ok_def)

lemma poll_attempt_cases:
  "poll_attempt pkts now p s \<in> {p} \<union>
     {q. \<exists>a. map_of (ln_attempts p) s = Some a \<and>
        (q = delete_attempt (settle pkts p a) s \<or>
         q = set_attempt (settle pkts p a) s (a\<lparr>at_released := True\<rparr>))}"
proof (cases "map_of (ln_attempts p) s")
  case (Some a)
  have dd: "delete_attempt (set_attempt q s b) s = delete_attempt q s" for q b
    by (simp add: delete_attempt_def set_attempt_def delete_updated)
  show ?thesis
    using Some by (auto simp: poll_attempt_def settle_def Let_def dd)
qed (simp add: poll_attempt_def)

lemma poll_attempt_ok:
  assumes "flight_ok pkts n p"
  shows "flight_ok pkts n (poll_attempt pkts now p s)"
    and "steady_part (poll_attempt pkts now p s) = steady_part p" and "rates_ok (poll_attempt pkts now p s) = rates_ok p"
  using poll_attempt_cases [of pkts now p s] assms by (auto simp: settle_delete settle_mark lane_rates)

lemma poll_attempts_ok:
  "flight_ok pkts n p \<Longrightarrow> flight_ok pkts n (foldl (poll_attempt pkts now) p ss) \<and>
    steady_part (foldl (poll_attempt pkts now) p ss) = steady_part p \<and>
    rates_ok (foldl (poll_attempt pkts now) p ss) = rates_ok p"
  by (induction ss arbitrary: p) (simp_all add: poll_attempt_ok)

lemma poll_baseline_keeps [lane_keeps]: "kept (poll_baseline p now) = kept p"
  by (simp add: poll_baseline_def kept_def)

lemma poll_baseline_rates [lane_rates]: "rates_ok (poll_baseline p now) = rates_ok p"
  by (simp add: poll_baseline_def rates_ok_def)

lemma poll_lane_ok:
  assumes ok: "flight_ok (tp_packets t) n p" and e: "poll_lane visit i t now p = (txs, q)" and room: "n + length txs < 2 ^ 64"
  shows "flight_ok (tp_packets t) (n + length txs) q" and "steady_part q = steady_part p" and "rates_ok q = rates_ok p"
proof -
  define r where "r = foldl (poll_attempt (tp_packets t) now) (poll_baseline p now) (visit i (map fst (ln_attempts (poll_baseline p now))))"
  have "flight_ok (tp_packets t) n (poll_baseline p now)" using ok flight_ok_kept [OF poll_baseline_keeps] by blast
  then have r: "flight_ok (tp_packets t) n r" "steady_part r = steady_part p" "rates_ok r = rates_ok p"
    using poll_attempts_ok steady_part_kept [OF poll_baseline_keeps [of p now]] by (auto simp: r_def lane_rates)
  have k: "keepalive (tp_epoch t) (tp_remote t) r now = (txs, q)" using e by (simp add: poll_lane_def Let_def r_def)
  show "flight_ok (tp_packets t) (n + length txs) q" by (rule keepalive_ok [OF r(1) room k])
  show "steady_part q = steady_part p" "rates_ok q = rates_ok p" using keepalive_shape [OF k] r(2,3) by auto
qed

end
