(* ===== verification/Ack_Loops.thy ===== *)
theory Ack_Loops
  imports Flight
begin

text \<open>
  The loops of the acknowledgement handler: they never fail, keep the in-flight accounting and the
  rates of every lane, and only mark packets as acknowledged.
\<close>

section \<open>Marking packets\<close>

definition packets_ack :: "packets \<Rightarrow> packets \<Rightarrow> bool" where
  "packets_ack p q \<longleftrightarrow>
     (\<forall>s. p s = None \<longrightarrow> q s = None) \<and> (\<forall>s k. p s = Some k \<longrightarrow> q s = Some k \<or> q s = Some (k\<lparr>pk_acked := True\<rparr>))"

lemma packets_ack_refl [simp]: "packets_ack p p"
  by (simp add: packets_ack_def)

lemma packets_ack_cases:
  assumes "packets_ack p q" and "p s = Some k"
  obtains "q s = Some k" | "q s = Some (k\<lparr>pk_acked := True\<rparr>)"
  using assms by (auto simp: packets_ack_def)

lemma packets_ack_none: "packets_ack p q \<Longrightarrow> p s = None \<Longrightarrow> q s = None"
  by (simp add: packets_ack_def)

lemma packets_ack_trans:
  assumes pq: "packets_ack p q" and qr: "packets_ack q r"
  shows "packets_ack p r"
  unfolding packets_ack_def
proof (intro conjI allI impI)
  fix s assume "p s = None"
  then show "r s = None" using packets_ack_none [OF pq] packets_ack_none [OF qr] by blast
next
  fix s k assume p: "p s = Some k"
  show "r s = Some k \<or> r s = Some (k\<lparr>pk_acked := True\<rparr>)"
  proof (rule packets_ack_cases [OF pq p])
    assume "q s = Some k"
    then show ?thesis by (rule packets_ack_cases [OF qr]) simp_all
  next
    assume "q s = Some (k\<lparr>pk_acked := True\<rparr>)"
    then show ?thesis by (rule packets_ack_cases [OF qr]) simp_all
  qed
qed

lemma packets_ack_mark: "packets_ack p (mark_acked p s)"
  by (simp add: packets_ack_def mark_acked_def)

lemma packets_ack_marks: "packets_ack p (foldl mark_acked p ss)"
  by (induction ss arbitrary: p) (auto intro: packets_ack_trans packets_ack_mark)

lemma packets_ack_grow: "packets_ack p q \<Longrightarrow> packets_grow p q"
  unfolding packets_grow_def by (auto elim!: packets_ack_cases)

section \<open>What the loops do to the lane\<close>

lemma kept_settle: "kept q = kept p \<Longrightarrow> kept (settle pkts q a) = kept (settle pkts p a)"
  by (simp add: kept_def settle_def release_def Let_def split: option.splits)

lemma kept_delete: "kept q = kept p \<Longrightarrow> kept (delete_attempt q s) = kept (delete_attempt p s)"
  by (simp add: kept_def delete_attempt_def)

lemma observeOrder_keeps [lane_keeps]: "kept (observeOrder p now s) = kept p"
  by (simp add: observeOrder_def kept_def)

lemma observeOrder_rates [lane_rates]: "rates_ok (observeOrder p now s) = rates_ok p"
  by (simp add: observeOrder_def rates_ok_def)

lemma add_confirmed_keeps [lane_keeps]: "kept (add_confirmed p a) = kept p"
  by (simp add: add_confirmed_def kept_def)

lemma add_confirmed_rates [lane_rates]: "rates_ok (add_confirmed p a) = rates_ok p"
  by (simp add: add_confirmed_def rates_ok_def)

lemma acked_writes [simp]: "kept (p\<lparr>ln_acked := x\<rparr>) = kept p" "rates_ok (p\<lparr>ln_acked := x\<rparr>) = rates_ok p"
  by (simp_all add: kept_def rates_ok_def)

lemma idle_forward_keeps [lane_keeps]: "kept (idle_forward p d) = kept p"
  by (simp add: idle_forward_def kept_def Let_def)

lemma idle_forward_rates [lane_rates]: "rates_ok (idle_forward p d) = rates_ok p"
  by (simp add: idle_forward_def rates_ok_def Let_def)

lemma drained_sample_keeps [lane_keeps]:
  "length (ln_transitBases p) = transit_buckets \<Longrightarrow> kept (drained_sample p s d) = kept p"
  by (simp add: drained_sample_def rebaseline_def no_baselines_def kept_def Let_def)

lemma drained_sample_rates [lane_rates]: "rates_ok (drained_sample p s d) = rates_ok p"
  by (simp add: drained_sample_def rebaseline_def rates_ok_def Let_def)

lemma queue_sample_some:
  assumes "length (ln_transitBases p) = transit_buckets" and "bytes \<le> int maxDatagram + wireOverhead"
  shows "\<exists>q. queue_sample p now bytes d = Some q \<and> kept q = kept p \<and> rates_ok q = rates_ok p"
proof -
  have "bytes div transitSizeBucket \<le> (int maxDatagram + wireOverhead) div transitSizeBucket"
    by (rule zdiv_mono1) (simp_all add: assms(2) transitSizeBucket_def)
  then have "nat (bytes div transitSizeBucket) < transit_buckets"
    by (simp add: transit_buckets_def)
  then have "nat (bytes div transitSizeBucket) < length (ln_transitBases p)" by (simp add: assms(1))
  then show ?thesis
    by (simp add: queue_sample_def Let_def) (simp add: kept_def rates_ok_def)
qed

text \<open>The lane parts at the end of a loop are those at its start.\<close>

definition loop_ok :: "nat \<Rightarrow> packets \<Rightarrow> lane \<Rightarrow> ack_loop \<Rightarrow> bool" where
  "loop_ok n pkts p s \<longleftrightarrow> flight_ok (al_packets s) n (al_lane s) \<and> steady_part (al_lane s) = steady_part p \<and>
     rates_ok (al_lane s) = rates_ok p \<and> packets_ack pkts (al_packets s)"

lemma loop_okI:
  assumes "flight_ok pk n q" and "kept (al_lane s) = kept q" and "steady_part q = steady_part p" and "packets_ack pk (al_packets s)"
    and "rates_ok (al_lane s) = rates_ok p" and "packets_ack pkts pk"
  shows "loop_ok n pkts p s"
  using assms flight_ok_grow [OF packets_ack_grow [OF assms(4)], of n q] flight_ok_kept [OF assms(2)] steady_part_kept [OF assms(2)]
    packets_ack_trans [OF assms(6,4)]
  by (simp add: loop_ok_def)

lemma loop_okD:
  assumes "loop_ok n pkts p s"
  shows "flight_ok (al_packets s) n (al_lane s)" "steady_part (al_lane s) = steady_part p" "rates_ok (al_lane s) = rates_ok p"
    "packets_ack pkts (al_packets s)"
  using assms by (simp_all add: loop_ok_def)

lemma high_sample_some:
  assumes ok: "loop_ok n pkts p s" and b: "at_bytes sent \<le> int maxDatagram + wireOverhead"
  shows "\<exists>s'. high_sample s a now sent = Some s' \<and> loop_ok n pkts p s' \<and> al_pending s' = al_pending s \<and> al_packets s' = al_packets s"
proof (cases "ack_delay a \<le> word_of_int (time_sub now (at_sent sent))")
  case True
  let ?l = "al_lane s"
  let ?d = "sint (ack_elapsed a) - time_sub (at_sent sent) (ln_firstSent ?l)"
  define l1 where "l1 = (if at_packet sent = None \<and> time_sub now (ln_lastPayload ?l) \<ge> feedbackHorizon then idle_forward ?l ?d else ?l)"
  define l2 where "l2 = drained_sample l1 (at_sent sent) (time_sub now (at_sent sent) - sint (ack_delay a))"
  have k1: "kept l1 = kept ?l" "rates_ok l1 = rates_ok ?l" by (simp_all add: l1_def lane_keeps lane_rates)
  have len: "length (ln_transitBases l1) = transit_buckets"
    using loop_okD(1) [OF ok] k1(1) by (simp add: flight_ok_def kept_def)
  have k2: "kept l2 = kept ?l" "rates_ok l2 = rates_ok ?l"
    using k1 drained_sample_keeps [OF len] by (simp_all add: l2_def lane_rates)
  have len2: "length (ln_transitBases l2) = transit_buckets"
    using loop_okD(1) [OF ok] k2(1) by (simp add: flight_ok_def kept_def)
  obtain q where q: "queue_sample l2 now (at_bytes sent) ?d = Some q" "kept q = kept l2" "rates_ok q = rates_ok l2"
    using queue_sample_some [OF len2 b] by blast
  have "high_sample s a now sent = Some (s\<lparr>al_lane := q, al_sample := time_sub now (at_sent sent) - sint (ack_delay a)\<rparr>)"
    using True q(1) unfolding high_sample_def Let_def l1_def [symmetric] l2_def [symmetric] by simp
  moreover have "loop_ok n pkts p (s\<lparr>al_lane := q, al_sample := x\<rparr>)" for x
    using loop_okD [OF ok] q(2,3) k2 by (intro loop_okI [of "al_packets s" n ?l]) auto
  ultimately show ?thesis by simp
qed (use ok in \<open>simp add: high_sample_def\<close>)

section \<open>What the loops do to the pending packets\<close>

definition acked :: "packets \<Rightarrow> u64 \<Rightarrow> bool" where
  "acked pkts k \<longleftrightarrow> (\<forall>d. pkts k = Some d \<longrightarrow> pk_acked d)"

definition pend_ok :: "u64 list \<Rightarrow> ack_loop \<Rightarrow> bool" where
  "pend_ok L s \<longleftrightarrow> (\<exists>P. al_pending s = filter P L) \<and> (\<forall>k \<in> set L. k \<notin> set (al_pending s) \<longrightarrow> acked (al_packets s) k)"

lemma acked_mono:
  assumes pq: "packets_ack p q" and k: "acked p k"
  shows "acked q k"
proof (cases "p k")
  case None
  then show ?thesis using packets_ack_none [OF pq] by (simp add: acked_def)
next
  case (Some d)
  then have "pk_acked d" using k by (simp add: acked_def)
  then have "q k = Some d \<Longrightarrow> ?thesis" "q k = Some (d\<lparr>pk_acked := True\<rparr>) \<Longrightarrow> ?thesis" by (simp_all add: acked_def)
  then show ?thesis using packets_ack_cases [OF pq Some] by blast
qed

lemma acked_mark: "acked (mark_acked p k) k"
  by (auto simp: acked_def mark_acked_def)

lemma pend_ok_same:
  "al_pending s' = al_pending s \<Longrightarrow> packets_ack (al_packets s) (al_packets s') \<Longrightarrow> pend_ok L s \<Longrightarrow> pend_ok L s'"
  using acked_mono [of "al_packets s" "al_packets s'"] unfolding pend_ok_def by simp

lemma confirm_packet_ok:
  shows "packets_ack (al_packets s) (al_packets (confirm_packet s a))" and "al_lane (confirm_packet s a) = al_lane s"
    and "pend_ok L s \<Longrightarrow> pend_ok L (confirm_packet s a)"
proof -
  show "packets_ack (al_packets s) (al_packets (confirm_packet s a))" "al_lane (confirm_packet s a) = al_lane s"
    by (auto simp: confirm_packet_def packets_ack_mark split: option.splits)
  assume ok: "pend_ok L s"
  show "pend_ok L (confirm_packet s a)"
  proof (cases "at_packet a")
    case (Some k)
    obtain P where P: "al_pending s = filter P L" using ok by (auto simp: pend_ok_def)
    have "removeAll k (filter P L) = filter (\<lambda>x. x \<noteq> k \<and> P x) L" by (induction L) auto
    moreover have "acked (mark_acked (al_packets s) k) j" if "j \<in> set L" "j \<notin> set (removeAll k (al_pending s))" for j
      using that ok acked_mark [of "al_packets s" k] acked_mono [OF packets_ack_mark [of "al_packets s" k], of j]
      by (cases "j = k") (simp_all add: pend_ok_def)
    ultimately show ?thesis using P Some unfolding pend_ok_def confirm_packet_def by auto
  qed (use ok in \<open>simp add: confirm_packet_def\<close>)
qed

section \<open>The loops\<close>

text \<open>Settling and deleting one attempt, with whatever else keeps the lane and marks packets.\<close>

lemma loop_settled:
  assumes ok: "loop_ok n pkts p s" and a: "map_of (ln_attempts (al_lane s)) seq = Some sent"
    and l: "kept (al_lane s') = kept (delete_attempt (settle (al_packets s) (al_lane s) sent) seq)"
    and r: "rates_ok (al_lane s') = rates_ok (al_lane s)" and pk: "packets_ack (al_packets s) (al_packets s')"
  shows "loop_ok n pkts p s'"
  by (rule loop_okI [OF settle_delete [OF loop_okD(1) [OF ok] a] l _ pk])
    (use loop_okD [OF ok] r in \<open>simp_all\<close>)

lemma confirm_attempt_some:
  assumes ok: "loop_ok n pkts p s" "pend_ok L s" and a: "map_of (ln_attempts (al_lane s)) seq = Some sent"
  shows "\<exists>s'. confirm_attempt a now fresh s seq sent = Some s' \<and> loop_ok n pkts p s' \<and> pend_ok L s'"
proof -
  define s1 where "s1 = (if \<not> at_confirmed sent
      then (on_lane (\<lambda>p. observeOrder p now (at_sent sent)) s)
             \<lparr>al_feedback := max (al_feedback s) (time_sub now (at_sent sent)), al_newest := maxTime (al_newest s) (at_sent sent)\<rparr>
      else s)"
  define s2 where "s2 = (if at_packet sent \<noteq> None then on_lane (\<lambda>p. add_confirmed p sent) s1 else s1)"
  define s3 where "s3 = (if \<not> at_released sent then on_lane (\<lambda>p. release (al_packets s2) p sent) s2 else s2)"
  define s4 where "s4 = on_lane (\<lambda>p. delete_attempt p seq) (confirm_packet (on_lane (\<lambda>p. p\<lparr>ln_acked := ln_acked p + of_int (at_bytes sent)\<rparr>) s3) sent)"
  have k2: "kept (al_lane s2) = kept (al_lane s)" "rates_ok (al_lane s2) = rates_ok (al_lane s)"
    by (simp_all add: s2_def s1_def lane_keeps lane_rates)
  have same: "al_packets s2 = al_packets s" "al_pending s2 = al_pending s" by (simp_all add: s2_def s1_def)
  have l3: "al_lane s3 = settle (al_packets s) (al_lane s2) sent" "al_packets s3 = al_packets s" "al_pending s3 = al_pending s"
    using same by (simp_all add: s3_def settle_def)
  have pk: "packets_ack (al_packets s) (al_packets s4)"
    using confirm_packet_ok(1) [of "on_lane (\<lambda>p. p\<lparr>ln_acked := ln_acked p + of_int (at_bytes sent)\<rparr>) s3" sent] l3(2) by (simp add: s4_def)
  have l4: "kept (al_lane s4) = kept (delete_attempt (settle (al_packets s) (al_lane s) sent) seq)"
    unfolding s4_def using kept_delete [of "(al_lane s3)\<lparr>ln_acked := ln_acked (al_lane s3) + of_int (at_bytes sent)\<rparr>"
        "settle (al_packets s) (al_lane s) sent" seq] kept_settle [OF k2(1)] l3(1)
    by (simp add: confirm_packet_ok(2))
  have r4: "rates_ok (al_lane s4) = rates_ok (al_lane s)"
    using k2(2) l3(1) by (simp add: s4_def confirm_packet_ok(2) lane_rates)
  have ok4: "loop_ok n pkts p s4" by (rule loop_settled [OF ok(1) a l4 r4 pk])
  have p4: "pend_ok L s4"
    unfolding s4_def
    by (rule pend_ok_same [of _ "confirm_packet (on_lane (\<lambda>p. p\<lparr>ln_acked := ln_acked p + of_int (at_bytes sent)\<rparr>) s3) sent"])
      (auto intro!: confirm_packet_ok(3) pend_ok_same [OF _ _ ok(2)] simp: l3)
  have b: "at_bytes sent \<le> int maxDatagram + wireOverhead"
    using flight_ok_attempt(1) [OF loop_okD(1) [OF ok(1)] a] by (simp add: attempt_ok_def)
  have e: "confirm_attempt a now fresh s seq sent = (if fresh \<and> seq = ack_high a
     then high_sample (s4\<lparr>al_highSent := at_sent sent, al_through := at_through sent, al_counted := True\<rparr>) a now sent else Some s4)"
    unfolding confirm_attempt_def Let_def s1_def [symmetric] s2_def [symmetric] s3_def [symmetric] s4_def [symmetric] ..
  let ?h = "s4\<lparr>al_highSent := at_sent sent, al_through := at_through sent, al_counted := True\<rparr>"
  have "loop_ok n pkts p ?h" using ok4 by (simp add: loop_ok_def)
  from high_sample_some [OF this b, of a now] show ?thesis
    unfolding e using ok4 p4 pend_ok_same [of _ s4 L] by (cases "fresh \<and> seq = ack_high a") auto
qed

lemma ack_attempt_some:
  assumes ok: "loop_ok n pkts p s" "pend_ok L s"
  shows "\<exists>s'. ack_attempt a now fresh s seq = Some s' \<and> loop_ok n pkts p s' \<and> pend_ok L s'"
proof (cases "map_of (ln_attempts (al_lane s)) seq")
  case None
  then show ?thesis using ok by (simp add: ack_attempt_def)
next
  case (Some sent)
  define s1 where "s1 = (if \<not> at_released sent then on_lane (\<lambda>p. release (al_packets s) p sent) s else s)"
  define s2 where "s2 = (if \<not> at_confirmed sent \<and> sent_once (al_packets s1) sent
     then (on_lane (\<lambda>p. observeOrder p now (at_sent sent)) s1)\<lparr>al_feedback := max (al_feedback s1) (time_sub now (at_sent sent))\<rparr> else s1)"
  define s3 where "s3 = on_lane (\<lambda>p. delete_attempt p seq) s2"
  have l1: "al_lane s1 = settle (al_packets s) (al_lane s) sent" "al_packets s1 = al_packets s" "al_pending s1 = al_pending s"
    by (simp_all add: s1_def settle_def)
  have l2: "kept (al_lane s2) = kept (settle (al_packets s) (al_lane s) sent)" "rates_ok (al_lane s2) = rates_ok (al_lane s)"
    "al_packets s2 = al_packets s" "al_pending s2 = al_pending s"
    using l1 by (simp_all add: s2_def lane_keeps lane_rates)
  have "loop_ok n pkts p s3"
    by (rule loop_settled [OF ok(1) Some]) (use l2 kept_delete [OF l2(1)] in \<open>simp_all add: s3_def\<close>)
  moreover have "pend_ok L s3" using l2 by (intro pend_ok_same [OF _ _ ok(2)]) (simp_all add: s3_def)
  moreover have "ack_attempt a now fresh s seq = (if seq \<le> ack_high a \<and> in_lane_mask a seq then confirm_attempt a now fresh s seq sent
     else if packet_acked a (al_packets s) sent \<and> seq < ack_high a \<and> ack_high a - seq \<ge> 64 then Some s3 else Some s)"
    unfolding ack_attempt_def Some option.case Let_def s1_def [symmetric] s2_def [symmetric] s3_def [symmetric] ..
  ultimately show ?thesis using confirm_attempt_some [OF ok Some, of a now fresh] ok by auto
qed

lemma ack_attempts_some:
  "loop_ok n pkts p s \<Longrightarrow> pend_ok L s \<Longrightarrow>
    \<exists>s'. ack_attempts a now fresh s qs = Some s' \<and> loop_ok n pkts p s' \<and> pend_ok L s'"
proof (induction qs arbitrary: s)
  case (Cons q qs)
  from ack_attempt_some [OF Cons.prems] obtain s' where "ack_attempt a now fresh s q = Some s'" "loop_ok n pkts p s'" "pend_ok L s'"
    by blast
  then show ?case using Cons.IH [of s'] by simp
qed simp

lemma confirm_arrived_one_ok:
  assumes ok: "loop_ok n pkts p s" "pend_ok L s"
  shows "loop_ok n pkts p (confirm_arrived_one a s seq) \<and> pend_ok L (confirm_arrived_one a s seq)"
proof (cases "map_of (ln_attempts (al_lane s)) seq")
  case None
  then show ?thesis using ok by (simp add: confirm_arrived_one_def)
next
  case (Some sent)
  define s1 where "s1 = (if \<not> at_released sent then on_lane (\<lambda>p. release (al_packets s) p sent) s else s)"
  define s2 where "s2 = on_lane (\<lambda>p. p\<lparr>ln_acked := ln_acked p + of_int (at_bytes sent)\<rparr>) s1"
  define s3 where "s3 = (if at_packet sent \<noteq> None then on_lane (\<lambda>p. add_confirmed p sent) s2 else s2)"
  define s4 where "s4 = on_lane (\<lambda>p. delete_attempt p seq) (confirm_packet s3 sent)"
  have l1: "al_lane s1 = settle (al_packets s) (al_lane s) sent" by (simp add: s1_def settle_def)
  have l3: "kept (al_lane s3) = kept (settle (al_packets s) (al_lane s) sent)" "rates_ok (al_lane s3) = rates_ok (al_lane s)"
    "al_packets s3 = al_packets s" "al_pending s3 = al_pending s"
    using l1 by (simp_all add: s3_def s2_def lane_keeps lane_rates) (simp_all add: s1_def)
  have "loop_ok n pkts p s4"
    by (rule loop_settled [OF ok(1) Some])
      (use l3 kept_delete [OF l3(1)] confirm_packet_ok(1) [of s3 sent] in \<open>simp_all add: s4_def confirm_packet_ok(2)\<close>)
  moreover have "pend_ok L s4"
  proof (rule pend_ok_same)
    show "pend_ok L (confirm_packet s3 sent)" using l3 by (intro confirm_packet_ok(3) pend_ok_same [OF _ _ ok(2)]) simp_all
  qed (simp_all add: s4_def)
  moreover have "confirm_arrived_one a s seq = (if seq > ack_high a then s else s4)"
    unfolding confirm_arrived_one_def Some option.case Let_def s1_def [symmetric] s2_def [symmetric] s3_def [symmetric] s4_def [symmetric] ..
  ultimately show ?thesis using ok by simp
qed

lemma confirmArrived_ok:
  assumes "loop_ok n pkts p s" and "pend_ok L s"
  shows "loop_ok n pkts p (confirmArrived visit a through s) \<and> pend_ok L (confirmArrived visit a through s)"
proof -
  have "loop_ok n pkts p (foldl (confirm_arrived_one a) s ss) \<and> pend_ok L (foldl (confirm_arrived_one a) s ss)" for ss
    using assms by (induction ss arbitrary: s) (simp_all add: confirm_arrived_one_ok)
  then show ?thesis using assms by (simp add: confirmArrived_def)
qed

end
