(* ===== verification/Ack_Lanes.thy ===== *)
theory Ack_Lanes
  imports Ack_Loops
begin

text \<open>
  The rest of the acknowledgement handler: what the receipts and the measurements of an
  acknowledgement do to the lanes. A lane is well formed when its in-flight accounting is exact, its
  rates are, its window of acknowledgement revisions is, and the delivery times it has been told
  ascend.
\<close>

section \<open>Well-formed lanes\<close>

definition elapsed_ok :: "lane \<Rightarrow> bool" where
  "elapsed_ok p \<longleftrightarrow> ln_ackedElapsed p \<le> 0x7FFFFFFFFFFFFFFF \<and>
     (ln_feedbackAt p \<noteq> zero_time \<longrightarrow> ln_rateElapsed p \<le> ln_ackedElapsed p)"

definition lane_ok :: "packets \<Rightarrow> nat \<Rightarrow> lane \<Rightarrow> bool" where
  "lane_ok pkts n p \<longleftrightarrow> flight_ok pkts n p \<and> rates_ok p \<and> rw_ok (ln_ackReceipts p) \<and> elapsed_ok p"

lemma lane_ok_steady:
  "steady_part q = steady_part p \<Longrightarrow> rates_ok q = rates_ok p \<Longrightarrow> flight_ok pkts m q \<Longrightarrow> lane_ok pkts n p \<Longrightarrow> lane_ok pkts m q"
  by (simp add: lane_ok_def elapsed_ok_def steady_part_def)

lemma lane_ok_kept: "kept q = kept p \<Longrightarrow> rates_ok q \<Longrightarrow> lane_ok pkts n p \<Longrightarrow> lane_ok pkts n q"
  using flight_ok_kept [of q p pkts n] steady_part_kept [of q p] by (auto simp: lane_ok_def elapsed_ok_def steady_part_def)

lemma lane_ok_grow: "packets_grow pkts pkts' \<Longrightarrow> lane_ok pkts n p \<Longrightarrow> lane_ok pkts' n p"
  by (simp add: lane_ok_def flight_ok_grow)

lemma lane_ok_mono: "lane_ok pkts n p \<Longrightarrow> n \<le> m \<Longrightarrow> lane_ok pkts m p"
  by (auto simp: lane_ok_def flight_ok_mono)

section \<open>Receipts\<close>

lemma kept_set: "kept q = kept p \<Longrightarrow> kept (set_attempt q s b) = kept (set_attempt p s b)"
  by (simp add: kept_def set_attempt_def)

lemma observeFeedbackRTT_keeps [lane_keeps]: "kept (observeFeedbackRTT p d) = kept p"
  by (simp add: observeFeedbackRTT_def kept_def Let_def)

lemma observeFeedbackRTT_rates [lane_rates]: "rates_ok (observeFeedbackRTT p d) = rates_ok p"
  by (simp add: observeFeedbackRTT_def rates_ok_def Let_def)

text \<open>A lane and the packets after some of its attempts were confirmed by receipts.\<close>

definition receipted :: "nat \<Rightarrow> lane \<Rightarrow> packets \<Rightarrow> lane \<Rightarrow> packets \<Rightarrow> bool" where
  "receipted n p pkts q pkts' \<longleftrightarrow> flight_ok pkts' n q \<and> steady_part q = steady_part p \<and> rates_ok q = rates_ok p \<and>
     packets_ack pkts pkts'"

lemma receipt_attempt_ok:
  assumes ok: "flight_ok pkts n p" and e: "receipt_attempt a now (p, pkts, fb) s = (q, pkts', fb')"
  shows "receipted n p pkts q pkts'"
proof (cases "map_of (ln_attempts p) s")
  case None
  then show ?thesis using assms by (simp add: receipt_attempt_def receipted_def)
next
  case (Some sent)
  define pk where "pk = (case at_packet sent of None \<Rightarrow> pkts | Some k \<Rightarrow> mark_acked pkts k)"
  define b where "b = sent\<lparr>at_released := True, at_confirmed := True\<rparr>"
  have ack: "packets_ack pkts pk" by (simp add: pk_def packets_ack_mark split: option.splits)
  have ok': "flight_ok pk n p" by (rule flight_ok_grow [OF packets_ack_grow [OF ack] ok])
  have st: "flight_ok pk n (set_attempt (settle pk p sent) s b)"
    by (rule settle_mark [OF ok' Some]) (simp_all add: b_def)
  have eq: "receipt_attempt a now (p, pkts, fb) s = (if packet_acked a pkts sent \<and> \<not> at_confirmed sent
      then (if sent_once pk sent
        then (set_attempt (observeOrder (settle pk p sent) now (at_sent sent)) s b, pk, max fb (time_sub now (at_sent sent)))
        else (set_attempt (settle pk p sent) s b, pk, fb))
      else (p, pkts, fb))"
    unfolding receipt_attempt_def prod.case Some option.case Let_def pk_def [symmetric] b_def [symmetric] settle_def [symmetric]
    by (cases "sent_once pk sent") simp_all
  show ?thesis
  proof (cases "packet_acked a pkts sent \<and> \<not> at_confirmed sent")
    case False
    then have "q = p" "pkts' = pkts" using e unfolding eq if_not_P [OF False] by simp_all
    then show ?thesis using ok by (simp add: receipted_def)
  next
    case True
    define r where "r = (if sent_once pk sent then observeOrder (settle pk p sent) now (at_sent sent) else settle pk p sent)"
    have r: "kept r = kept (settle pk p sent)" "rates_ok r = rates_ok p" by (simp_all add: r_def lane_keeps lane_rates)
    have "fst (receipt_attempt a now (p, pkts, fb) s) = set_attempt r s b" "fst (snd (receipt_attempt a now (p, pkts, fb) s)) = pk"
      unfolding eq if_P [OF True] r_def by simp_all
    then have "q = set_attempt r s b" "pkts' = pk" unfolding e by simp_all
    then show ?thesis
      using st ack r flight_ok_kept [OF kept_set [OF r(1)]] steady_part_kept [OF kept_set [OF r(1)]] by (simp add: receipted_def)
  qed
qed

lemma receipt_attempts_ok:
  "flight_ok pkts n p \<Longrightarrow> foldl (receipt_attempt a now) (p, pkts, fb) ss = (q, pkts', fb') \<Longrightarrow> receipted n p pkts q pkts'"
proof (induction ss arbitrary: p pkts fb)
  case Nil
  then show ?case by (simp add: receipted_def)
next
  case (Cons s ss)
  obtain p1 pk1 fb1 where e: "receipt_attempt a now (p, pkts, fb) s = (p1, pk1, fb1)" by (rule prod_cases3)
  have r: "receipted n p pkts p1 pk1" by (rule receipt_attempt_ok [OF Cons.prems(1) e])
  then have "receipted n p1 pk1 q pkts'" using Cons.IH [of pk1 p1 fb1] Cons.prems(2) e by (simp add: receipted_def)
  with r show ?case using packets_ack_trans by (auto simp: receipted_def)
qed

lemma receipt_lane_ok:
  assumes ok: "flight_ok pkts n p" and e: "receipt_lane visit a now i ph (acc, pkts) (j, p) = (acc', pkts')"
  shows "\<exists>q. acc' = acc @ [q] \<and> receipted n p pkts q pkts'"
proof -
  obtain r pk fb where f: "foldl (receipt_attempt a now) (p, pkts, if ln_id p = i then ph else 0) (visit (3 + j) (map fst (ln_attempts p))) = (r, pk, fb)"
    by (rule prod_cases3)
  then have "acc' = acc @ [observeFeedbackRTT r fb]" "pkts' = pk" using e by (simp_all add: receipt_lane_def)
  then show ?thesis
    using receipt_attempts_ok [OF ok f] flight_ok_kept [OF observeFeedbackRTT_keeps, of pk n r fb]
      steady_part_kept [OF observeFeedbackRTT_keeps, of r fb] by (simp add: receipted_def lane_rates)
qed

lemma receipt_lanes_ok:
  "\<forall>p \<in> set ps. lane_ok pkts n p \<Longrightarrow> foldl (receipt_lane visit a now i ph) (acc, pkts) (enumerate k ps) = (acc', pkts') \<Longrightarrow>
    \<exists>qs. acc' = acc @ qs \<and> map ln_id qs = map ln_id ps \<and> map steady_part qs = map steady_part ps \<and>
      (\<forall>q \<in> set qs. lane_ok pkts' n q) \<and> packets_ack pkts pkts'"
proof (induction ps arbitrary: acc pkts k)
  case (Cons p ps)
  obtain acc1 pk1 where e: "receipt_lane visit a now i ph (acc, pkts) (k, p) = (acc1, pk1)" by fastforce
  have p: "lane_ok pkts n p" using Cons.prems(1) by simp
  then obtain q where q: "acc1 = acc @ [q]" "receipted n p pkts q pk1"
    using receipt_lane_ok [OF _ e] by (auto simp: lane_ok_def)
  then have g: "packets_ack pkts pk1" and qok: "lane_ok pk1 n q"
    using p lane_ok_grow [OF packets_ack_grow, of pkts pk1 n p] lane_ok_steady [of q p pk1 n n] by (auto simp: receipted_def)
  have "\<forall>p \<in> set ps. lane_ok pk1 n p" using Cons.prems(1) lane_ok_grow [OF packets_ack_grow [OF g]] by simp
  then obtain qs where qs: "acc' = acc1 @ qs" "map ln_id qs = map ln_id ps" "map steady_part qs = map steady_part ps"
      "\<forall>q \<in> set qs. lane_ok pkts' n q" "packets_ack pk1 pkts'"
    using Cons.IH [of pk1 acc1 "Suc k"] Cons.prems(2) e by auto
  have "lane_ok pkts' n q" by (rule lane_ok_grow [OF packets_ack_grow [OF qs(5)] qok])
  moreover have "steady_part q = steady_part p" using q(2) by (simp add: receipted_def)
  moreover from this have "ln_id q = ln_id p" by (simp add: steady_part_def)
  ultimately show ?case using qs q(1) packets_ack_trans [OF g qs(5)] by (intro exI [of _ "q # qs"]) simp
qed simp

section \<open>Progress and loss\<close>

lemma ack_progress_keeps [lane_keeps]: "kept (snd (ack_progress p a now fresh)) = kept p"
  by (simp add: ack_progress_def Let_def kept_def)

lemma ack_progress_rates [lane_rates]: "rates_ok (snd (ack_progress p a now fresh)) = rates_ok p"
  by (simp add: ack_progress_def Let_def rates_ok_def)

lemma stallEnded_keeps [lane_keeps]: "kept (stallEnded p d) = kept p"
  by (simp add: stallEnded_def kept_def)

lemma stallEnded_rates [lane_rates]: "rates_ok (stallEnded p d) = rates_ok p"
  by (simp add: stallEnded_def rates_ok_def)

lemma lateBelow_lane: "\<exists>m. snd (lateBelow p pkts a h now) = p\<lparr>ln_reordering := m\<rparr>"
  by (simp add: lateBelow_def case_prod_beta Let_def) blast

lemma ack_losses_keeps [lane_keeps]: "kept (ack_losses p pkts a now fresh h th c) = kept p"
  using lateBelow_lane [of p pkts a h now] by (auto simp: ack_losses_def case_prod_beta Let_def kept_def)

lemma ack_losses_rates [lane_rates]: "rates_ok (ack_losses p pkts a now fresh h th c) = rates_ok p"
  using lateBelow_lane [of p pkts a h now] by (auto simp: ack_losses_def case_prod_beta Let_def rates_ok_def)

section \<open>Round trip and delivery\<close>

lemma ack_round_trip_keeps [lane_keeps]: "kept (ack_round_trip p now sample) = kept p"
  by (simp add: ack_round_trip_def Let_def kept_def)

lemma ack_round_trip_rates [lane_rates]: "rates_ok (ack_round_trip p now sample) = rates_ok p"
  by (simp add: ack_round_trip_def Let_def rates_ok_def)

lemma sint_diff_nonneg:
  fixes x y :: u64
  assumes "y \<le> x" and "x \<le> 0x7FFFFFFFFFFFFFFF"
  shows "0 \<le> sint (x - y)"
proof -
  have "uint (x - y) = uint x - uint y" using assms(1) by (simp add: uint_sub_lem [symmetric] word_le_def [symmetric])
  moreover have "uint x \<le> 0x7FFFFFFFFFFFFFFF" using assms(2) by (simp add: word_le_def)
  ultimately have lt: "uint (x - y) < 0x8000000000000000" using uint_ge_0 [of y] by linarith
  then have "(uint (x - y) + 2 ^ 63) mod 2 ^ 64 = uint (x - y) + 2 ^ 63"
    using uint_ge_0 [of "x - y"] by (intro mod_pos_pos_trivial) simp_all
  then show ?thesis using int_word_sint [of "uint (x - y)", where 'a = 64] by simp
qed

text \<open>The lane after its delivery interval was measured: the marks of the interval are those of the report.\<close>

definition measured :: "lane \<Rightarrow> acknowledgement \<Rightarrow> lane \<Rightarrow> bool" where
  "measured p a q \<longleftrightarrow> (\<forall>pkts n. flight_ok pkts n q = flight_ok pkts n p) \<and> ln_id q = ln_id p \<and> ln_ackReceipts q = ln_ackReceipts p \<and>
     (rates_ok p \<longrightarrow> rates_ok q) \<and> (ln_feedbackAt q \<noteq> zero_time \<longrightarrow> ln_rateElapsed q \<le> ack_elapsed a)"

lemma mark_delivery_measured: "measured p a (mark_delivery p a now)"
  by (simp add: measured_def mark_delivery_def flight_ok_def rates_ok_def)

lemma measured_kept: "measured p a q \<Longrightarrow> kept r = kept q \<Longrightarrow> (rates_ok q \<longrightarrow> rates_ok r) \<Longrightarrow> measured p a r"
  using flight_ok_kept [of r q] by (auto simp: measured_def kept_def)

lemma ack_delivery_measured:
  assumes ok: "rates_ok p" "elapsed_ok p" and a: "ln_ackedElapsed p \<le> ack_elapsed a" "ack_elapsed a \<le> 0x7FFFFFFFFFFFFFFF"
  shows "measured p a (ack_delivery p a now)"
proof -
  consider (first) "ln_feedbackAt p = zero_time"
    | (interval) "ln_feedbackAt p \<noteq> zero_time" "ack_elapsed a - ln_rateElapsed p \<ge> word_of_int deliveryInterval"
        "time_sub now (ln_feedbackAt p) \<ge> deliveryInterval"
    | (none) "ln_feedbackAt p \<noteq> zero_time" "ack_delivery p a now = p"
    unfolding ack_delivery_def Let_def by force
  then show ?thesis
  proof cases
    case first
    then show ?thesis using mark_delivery_measured by (simp add: ack_delivery_def)
  next
    case none
    then have "ln_rateElapsed p \<le> ack_elapsed a" using ok(2) a(1) unfolding elapsed_ok_def by (meson order_trans)
    then show ?thesis using none by (simp add: measured_def)
  next
    case interval
    define rate :: rat where "rate = of_nat (unat (ack_bytes a - ln_rateBytes p)) / Seconds (sint (ack_elapsed a - ln_rateElapsed p))"
    define send where "send = rat_of_nat (unat (ln_sent p - ln_rateSentBytes p)) / Seconds (time_sub now (ln_feedbackAt p))"
    define p1 where "p1 = p\<lparr>ln_previousDelivery := ln_deliverySample p, ln_deliverySample := rate\<rparr>"
    define p2 where "p2 = (if ln_deliveryRate p1 = 0 then p1\<lparr>ln_deliveryRate := rate, ln_sendRate := send\<rparr>
                 else p1\<lparr>ln_deliveryRate := 8 / 10 * ln_deliveryRate p1 + 2 / 10 * rate,
                        ln_sendRate := 8 / 10 * ln_sendRate p1 + 2 / 10 * send\<rparr>)"
    define p3 where "p3 = mark_delivery p2 a now"
    have e: "ack_delivery p a now = raiseToDelivery (p3\<lparr>ln_sustained := sd_record (ln_sustained p3) now (ack_bytes a) (ack_elapsed a)\<rparr>) now"
      using interval unfolding ack_delivery_def Let_def p3_def p2_def p1_def rate_def send_def by simp
    have "0 \<le> sint (ack_elapsed a - ln_rateElapsed p)"
      using ok(2) a interval(1) by (intro sint_diff_nonneg) (auto simp: elapsed_ok_def intro: order_trans)
    then have "0 \<le> rate" unfolding rate_def by (intro divide_nonneg_nonneg of_nat_0_le_iff Seconds_nonneg)
    then have r2: "rates_ok p2" using ok(1) by (simp add: rates_ok_def p2_def p1_def)
    have "kept p2 = kept p" by (simp add: p2_def p1_def kept_def)
    then have "measured p a p3" using mark_delivery_measured [of p2 a now] r2 flight_ok_kept [of p2 p] by (auto simp: p3_def measured_def kept_def)
    moreover have "kept (p3\<lparr>ln_sustained := x\<rparr>) = kept p3" "rates_ok (p3\<lparr>ln_sustained := x\<rparr>) = rates_ok p3" for x
      by (simp_all add: kept_def rates_ok_def)
    ultimately show ?thesis unfolding e using measured_kept [of p a p3] by (simp add: lane_keeps lane_rates)
  qed
qed

section \<open>The control interval\<close>

lemma end_interval_keeps [lane_keeps]: "kept (end_interval p) = kept p"
  by (simp add: end_interval_def kept_def)

lemma end_interval_rates [lane_rates]: "rates_ok (end_interval p) = rates_ok p"
  by (simp add: end_interval_def rates_ok_def)

lemma interval_loss_keeps [lane_keeps]: "kept (snd (interval_loss p now)) = kept p"
  by (simp add: interval_loss_def case_prod_beta Let_def kept_def)

lemma interval_loss_rates [lane_rates]: "rates_ok (snd (interval_loss p now)) = rates_ok p"
  by (simp add: interval_loss_def case_prod_beta Let_def rates_ok_def)

lemma interval_writes [simp]:
  "kept (p\<lparr>ln_lastAdjust := now, ln_signalDelay := d\<rparr>) = kept p"
  "rates_ok (p\<lparr>ln_lastAdjust := now, ln_signalDelay := d\<rparr>) = rates_ok p"
  "kept (p\<lparr>ln_floorSampling := b\<rparr>) = kept p" "rates_ok (p\<lparr>ln_floorSampling := b\<rparr>) = rates_ok p"
  by (simp_all add: kept_def rates_ok_def)

lemma bases_kept: "kept q = kept p \<Longrightarrow> length (ln_transitBases q) = length (ln_transitBases p)"
  by (simp add: kept_def)

lemma control_interval_ok:
  assumes len: "length (ln_transitBases p) = transit_buckets" and ok: "rates_ok p"
  shows "kept (control_interval p now sample backlogged limited realtime stream) = kept p"
    and "rates_ok (control_interval p now sample backlogged limited realtime stream)"
proof -
  define pa where "pa = p\<lparr>ln_lastAdjust := now\<rparr>"
  define qd where "qd = (if ln_haveInterval pa then ln_intervalQueueDelay pa else ln_queueDelay pa)"
  define p1 where "p1 = pa\<lparr>ln_signalDelay := qd\<rparr>"
  define f where "f = (end_interval p1)\<lparr>ln_floorSampling := False\<rparr>"
  define p2 where "p2 = (if sample > 0 \<and> qd \<le> maxWander
      then case lightlyLoaded p1 of (light, p) \<Rightarrow>
        if light then observeWander p (max 0 (qd - (jitterSpreadFactor * ln_delayJitter p) sdiv (max 1 (ln_intervalSamples p) + 1))) else p
      else p1)"
  obtain lost p3 where il: "interval_loss (end_interval p2) now = (lost, p3)" by fastforce
  have k1: "kept p1 = kept p" "rates_ok p1" using ok by (simp_all add: p1_def pa_def)
  have kf: "kept f = kept p" "rates_ok f" using k1 by (simp_all add: f_def lane_keeps lane_rates)
  then have lf: "length (ln_transitBases f) = transit_buckets" using len bases_kept by metis
  have k2: "kept p2 = kept p" "rates_ok p2" using k1 by (simp_all add: p2_def case_prod_beta lane_keeps lane_rates)
  have k3: "kept p3 = kept p" "rates_ok p3"
    using k2 interval_loss_keeps [of "end_interval p2" now] interval_loss_rates [of "end_interval p2" now] il by (simp_all add: lane_keeps lane_rates)
  have e: "control_interval p now sample backlogged limited realtime stream =
     (if now < ln_drainUntil p \<or> ln_baselinePending p \<or>
         time_sub now (ln_lastAdjust p) < max (min (ln_rtt p) (100 * millisecond)) (50 * millisecond)
      then p
      else if ln_floorSampling p1 then
        (if sample = 0 then p1
         else if qd > congestionThreshold p1 \<and> ln_intervalSamples p1 < delaySamplesNeeded p1 then p1
         else if qd > congestionThreshold p1 then floorMoved f sample else queueFound f)
      else if (sample > 0 \<and> qd > congestionThreshold p2) \<and> ln_intervalSamples p2 < delaySamplesNeeded p2 then p2
      else if \<not> backlogged then p3
      else adjust p3 now lost (sample > 0 \<and> qd > congestionThreshold p2) (sample > 0) limited realtime stream)"
    unfolding control_interval_def Let_def pa_def [symmetric] qd_def [symmetric] p1_def [symmetric] f_def [symmetric] p2_def [symmetric] il prod.case ..
  show "kept (control_interval p now sample backlogged limited realtime stream) = kept p"
    unfolding e using k1(1) kf(1) k2(1) k3(1) floorMoved_keeps [OF lf] by (simp add: lane_keeps)
  show "rates_ok (control_interval p now sample backlogged limited realtime stream)"
    unfolding e using ok k1(2) kf(2) k2(2) k3(2) by (simp add: lane_rates)
qed

lemma fresh_lane_ok:
  fixes now :: instant and sample :: duration
  assumes ok: "lane_ok pkts n p" and a: "ln_ackedElapsed p \<le> ack_elapsed a" "ack_elapsed a \<le> 0x7FFFFFFFFFFFFFFF"
  defines "q \<equiv> ack_delivery (ack_round_trip p now sample) a now"
  defines "r \<equiv> q\<lparr>ln_peakDelivery := max (ln_peakDelivery q) (ln_deliveryRate q), ln_ackedBytes := ack_bytes a,
     ln_ackedElapsed := ack_elapsed a, ln_recentDelivery := pe_record (ln_recentDelivery q) now (ln_deliveryRate q)\<rparr>"
  shows "lane_ok pkts n r" and "ln_id r = ln_id p"
proof -
  let ?p = "ack_round_trip p now sample"
  have p: "lane_ok pkts n ?p" using ok by (intro lane_ok_kept [OF ack_round_trip_keeps _ ok]) (simp add: lane_rates lane_ok_def)
  have k: "ln_ackedElapsed ?p = ln_ackedElapsed p" "ln_id ?p = ln_id p" using ack_round_trip_keeps [of p now sample] by (simp_all add: kept_def)
  have m: "measured ?p a q"
    unfolding q_def using p a k(1) by (intro ack_delivery_measured) (simp_all add: lane_ok_def)
  then have q: "flight_ok pkts n q" "rates_ok q" "rw_ok (ln_ackReceipts q)" "ln_feedbackAt q \<noteq> zero_time \<longrightarrow> ln_rateElapsed q \<le> ack_elapsed a"
    "ln_id q = ln_id p" using p k(2) by (simp_all add: measured_def lane_ok_def)
  then show "lane_ok pkts n r" using a(2) by (simp add: lane_ok_def r_def flight_ok_def rates_ok_def elapsed_ok_def)
  show "ln_id r = ln_id p" using q(5) by (simp add: r_def)
qed

lemma ack_fresh_some:
  assumes ok: "lane_ok pkts n p" and a: "ln_ackedElapsed p \<le> ack_elapsed a" "ack_elapsed a \<le> 0x7FFFFFFFFFFFFFFF"
    and lim: "\<And>m. laneLimited (t\<lparr>tp_demand := m\<rparr>) now \<noteq> None"
  shows "\<exists>q m. ack_fresh t p a now sample backlogged = Some (put_lane (t\<lparr>tp_demand := m\<rparr>) q) \<and> lane_ok pkts n q \<and> ln_id q = ln_id p"
proof -
  define q where "q = ack_delivery (ack_round_trip p now sample) a now"
  define r where "r = q\<lparr>ln_peakDelivery := max (ln_peakDelivery q) (ln_deliveryRate q), ln_ackedBytes := ack_bytes a,
     ln_ackedElapsed := ack_elapsed a, ln_recentDelivery := pe_record (ln_recentDelivery q) now (ln_deliveryRate q)\<rparr>"
  have r: "lane_ok pkts n r" "ln_id r = ln_id p" unfolding r_def q_def by (rule fresh_lane_ok [OF ok a])+
  obtain stream m where st: "rm_steady (tp_demand t classRealtime) now = (stream, m)" by fastforce
  define t1 where "t1 = t\<lparr>tp_demand := (tp_demand t)(classRealtime := m)\<rparr>"
  define r1 where "r1 = snd (boundByDelivery r now stream)"
  define r2 where "r2 = (if ln_lastACK r1 \<noteq> zero_time \<and> time_sub now (ln_lastACK r1) < ackGapHorizon
              then r1\<lparr>ln_ackGap := ln_ackGap r1 + (time_sub now (ln_lastACK r1) - ln_ackGap r1) sdiv 8\<rparr> else r1)"
  define r3 where "r3 = r2\<lparr>ln_lastACK := now\<rparr>"
  have rr: "rates_ok r" using r(1) by (simp add: lane_ok_def)
  have "kept r2 = kept r1" "rates_ok r2 = rates_ok r1" "kept r3 = kept r2" "rates_ok r3 = rates_ok r2"
    by (simp_all add: r3_def r2_def kept_def rates_ok_def)
  then have k: "kept r3 = kept r" "rates_ok r3"
    using boundByDelivery_keeps [of r now stream] boundByDelivery_rates [OF rr, of now stream] by (simp_all add: r1_def)
  have len: "length (ln_transitBases r3) = transit_buckets"
    using r(1) bases_kept [OF k(1)] by (simp add: lane_ok_def flight_ok_def)
  obtain limited where l: "laneLimited t1 now = Some limited" using lim [of "(tp_demand t)(classRealtime := m)"] by (auto simp: t1_def)
  define z where "z = control_interval r3 now sample backlogged limited (demand_rate t1 classRealtime now > 0) stream"
  note z = control_interval_ok [OF len k(2), of now sample backlogged limited "demand_rate t1 classRealtime now > 0" stream, folded z_def]
  have "kept z = kept r" using z(1) k(1) by simp
  then have "lane_ok pkts n z" "ln_id z = ln_id p" using lane_ok_kept [OF _ z(2) r(1)] r(2) by (simp_all add: kept_def)
  moreover have "ack_fresh t p a now sample backlogged = Some (put_lane t1 z)"
    unfolding ack_fresh_def Let_def q_def [symmetric] r_def [symmetric] st prod.case t1_def [symmetric] r1_def [symmetric]
      r2_def [symmetric] r3_def [symmetric] l z_def by simp
  ultimately show ?thesis unfolding t1_def by blast
qed

end
