(* ===== verification/Transport_Ok.thy ===== *)
theory Transport_Ok
  imports Ack_Lanes
begin

text \<open>
  Well-formed transports: what every operation of the transport preserves, and the proof for those
  that open, close and fill it and for a single transmission. The parameter \<open>n\<close> counts the
  transmissions since the remote epoch began; while it is below the range of the sequences no sequence
  is used twice. The parameter \<open>ks\<close> is the order of the pending packets, which the repair loop holds
  apart while it runs.
\<close>

section \<open>The invariant\<close>

text \<open>A packet waiting in a queue has never been sent.\<close>

definition waiting :: "traffic_class \<Rightarrow> packet \<Rightarrow> bool" where
  "waiting c k \<longleftrightarrow> pk_seq k = 0 \<and> pk_class k = c \<and> pk_attempts k = 0 \<and> \<not> pk_acked k \<and> length (pk_payload k) \<le> maxDatagram"

definition small_ok :: "traffic_class \<Rightarrow> fair_packet_queue \<Rightarrow> bool" where
  "small_ok c q \<longleftrightarrow> (\<exists>r. ring_rel q r \<and> (\<forall>(i, ps) \<in> set r. \<forall>k \<in> set ps. waiting c k))"

definition queues_ok :: "(traffic_class \<Rightarrow> fair_packet_queue) \<Rightarrow> packet list \<Rightarrow> bool" where
  "queues_ok small bulk \<longleftrightarrow> small_ok classRealtime (small classRealtime) \<and> small_ok classSmall (small classSmall) \<and>
     (\<forall>k \<in> set bulk. waiting classBulk k)"

definition sent_ok :: "packets \<Rightarrow> u64 \<Rightarrow> bool" where
  "sent_ok pkts h \<longleftrightarrow> (\<forall>s k. pkts s = Some k \<longrightarrow> pk_seq k = s \<and> s \<noteq> 0 \<and> s \<le> h \<and> length (pk_payload k) \<le> maxDatagram \<and>
     1 \<le> pk_attempts k \<and> pk_attempts k \<le> 4)"

definition pending_ok :: "packets \<Rightarrow> u64 list \<Rightarrow> u64 list \<Rightarrow> bool" where
  "pending_ok pkts pending ks \<longleftrightarrow> distinct pending \<and> set pending \<subseteq> dom pkts \<and> distinct ks \<and> set ks \<subseteq> dom pkts \<and>
     (\<forall>s \<in> set ks. s \<notin> set pending \<longrightarrow> acked pkts s)"

definition lanes_ok :: "packets \<Rightarrow> nat \<Rightarrow> lane list \<Rightarrow> bool" where
  "lanes_ok pkts n ps \<longleftrightarrow> distinct (map ln_id ps) \<and> (\<forall>p \<in> set ps. lane_ok pkts n p)"

definition receivers_ok :: "receiver list \<Rightarrow> windows \<Rightarrow> bool" where
  "receivers_ok rs w \<longleftrightarrow> windows_ok w \<and> distinct (map rc_remoteLane rs) \<and> (\<forall>r \<in> set rs. rw_ok (rc_receipts r))"

definition tp_ok :: "nat \<Rightarrow> u64 list \<Rightarrow> transport \<Rightarrow> bool" where
  "tp_ok n ks t \<longleftrightarrow> lanes_ok (tp_packets t) n (tp_paths t) \<and> unat (tp_seq t) \<le> n \<and> sent_ok (tp_packets t) (tp_seq t) \<and>
     pending_ok (tp_packets t) (tp_pending t) ks \<and> queues_ok (tp_small t) (tp_queue t) \<and>
     queued t + int (length (tp_pending t)) \<le> int maxPackets \<and> receivers_ok (tp_receivers t) (tp_received t, tp_unreported t)"

lemmas tp_okD = tp_ok_def [THEN iffD1]

section \<open>Writes to a lane\<close>

lemma put_lane_simps [simp]:
  "tp_epoch (put_lane t p) = tp_epoch t" "tp_remote (put_lane t p) = tp_remote t" "tp_receivers (put_lane t p) = tp_receivers t"
  "tp_queue (put_lane t p) = tp_queue t" "tp_small (put_lane t p) = tp_small t" "tp_packets (put_lane t p) = tp_packets t"
  "tp_pending (put_lane t p) = tp_pending t" "tp_pendingOrder (put_lane t p) = tp_pendingOrder t" "tp_seq (put_lane t p) = tp_seq t"
  "tp_received (put_lane t p) = tp_received t" "tp_unreported (put_lane t p) = tp_unreported t" "queued (put_lane t p) = queued t"
  "tp_demand (put_lane t p) = tp_demand t" "tp_lastTime (put_lane t p) = tp_lastTime t"
  by (simp_all add: put_lane_def queued_def)

lemma put_lane_ids [simp]: "map ln_id (tp_paths (put_lane t p)) = map ln_id (tp_paths t)"
  by (simp add: put_lane_def)

lemma put_lane_paths: "set (tp_paths (put_lane t p)) \<subseteq> insert p (set (tp_paths t))"
  by (auto simp: put_lane_def)

lemma lanes_ok_put:
  assumes "lanes_ok pkts n (tp_paths t)" and "lane_ok pkts' m p" and "packets_grow pkts pkts'" and "n \<le> m"
  shows "lanes_ok pkts' m (tp_paths (put_lane t p))"
  using assms put_lane_paths [of t p] lane_ok_mono [OF lane_ok_grow [OF assms(3)], of n _ m] by (auto simp: lanes_ok_def)

lemma find_lane_some: "find_lane t i = Some p \<Longrightarrow> p \<in> set (tp_paths t) \<and> ln_id p = i"
  by (auto simp: find_lane_def find_Some_iff)

lemma find_lane_mem:
  assumes "distinct (map ln_id (tp_paths t))" and "p \<in> set (tp_paths t)"
  shows "find_lane t (ln_id p) = Some p"
proof -
  have "find_lane t (ln_id p) \<noteq> None" using assms(2) by (auto simp: find_lane_def find_None_iff)
  then obtain q where "find_lane t (ln_id p) = Some q" by blast
  moreover from this have "q = p" using find_lane_some assms by (metis eq_key_imp_eq_value distinct_map inj_on_eq_iff)
  ultimately show ?thesis by simp
qed

lemma put_lane_same:
  assumes "distinct (map ln_id (tp_paths t))" and "p \<in> set (tp_paths t)"
  shows "put_lane t p = t"
proof -
  have "(if ln_id q = ln_id p then p else q) = q" if "q \<in> set (tp_paths t)" for q
    using that assms by (metis distinct_map inj_on_eq_iff)
  then show ?thesis by (simp add: put_lane_def map_idI)
qed

text \<open>The fields that the invariant speaks of.\<close>

definition core :: "transport \<Rightarrow> lane list \<times> packets \<times> u64 \<times> u64 list \<times> u64 list \<times> packet list \<times>
    (traffic_class \<Rightarrow> fair_packet_queue) \<times> receiver list \<times> receipt_window \<times> receipt_window" where
  "core t = (tp_paths t, tp_packets t, tp_seq t, tp_pending t, tp_pendingOrder t, tp_queue t, tp_small t, tp_receivers t,
     tp_received t, tp_unreported t)"

lemma tp_ok_core: "core t' = core t \<Longrightarrow> tp_ok n ks t' = tp_ok n ks t"
  by (simp add: tp_ok_def queued_def core_def)

lemma core_order: "core t' = core t \<Longrightarrow> tp_pendingOrder t' = tp_pendingOrder t"
  by (simp add: core_def)

lemma tp_ok_put_lane:
  assumes "tp_ok n ks t" and "lane_ok (tp_packets t) n p"
  shows "tp_ok n ks (put_lane t p)"
  using assms lanes_ok_put [of "tp_packets t" n t "tp_packets t" n p] by (simp add: tp_ok_def)

section \<open>Opening and closing\<close>

lemma small_ok_empty: "small_ok c fq_empty"
  unfolding small_ok_def using empty_rel by fastforce

lemma count_empty [simp]: "fq_count fq_empty = 0"
  by (simp add: fq_empty_def)

lemma New_ok: "New ep = Some t \<Longrightarrow> tp_ok 0 (tp_pendingOrder t) t"
  by (auto simp: New_def tp_ok_def lanes_ok_def sent_ok_def pending_ok_def queues_ok_def small_ok_empty receivers_ok_def
      windows_ok_empty(1) queued_def maxPackets_def split: if_splits)

lemma restart_lane_shape:
  "ln_id (restart_lane p) = ln_id p" "ln_attempts (restart_lane p) = []" "ln_inflight (restart_lane p) = 0"
  "ln_classInflight (restart_lane p) = (\<lambda>_. 0)" "ln_seq (restart_lane p) = 0" "ln_transitBases (restart_lane p) = no_baselines"
  "ln_ackReceipts (restart_lane p) = no_receipts" "ln_ackedElapsed (restart_lane p) = 0" "ln_feedbackAt (restart_lane p) = zero_time"
  by (simp_all add: restart_lane_def Let_def rediscover_def)

lemma restart_lane_rates: "rates_ok p \<Longrightarrow> rates_ok (restart_lane p)"
  by (simp add: restart_lane_def Let_def rediscover_def new_control_def rates_ok_def)

lemma restart_lane_ok:
  assumes "rates_ok p"
  shows "lane_ok pkts n (restart_lane p)"
proof -
  have "flight_ok pkts n (restart_lane p)" by (simp add: flight_ok_def restart_lane_shape no_baselines_def)
  then show ?thesis using restart_lane_rates [OF assms] by (simp add: lane_ok_def restart_lane_shape elapsed_ok_def)
qed

lemma SetRemote_ok:
  assumes ok: "tp_ok n (tp_pendingOrder t) t" and e: "SetRemote t ep adopted = (b, t')"
  shows "tp_ok (if b then 0 else n) (tp_pendingOrder t') t'"
proof (cases b)
  case False
  then have "t' = t" using e by (auto simp: SetRemote_def split: if_splits)
  then show ?thesis using ok False by simp
next
  case True
  define lanes where "lanes = map restart_lane (tp_paths t)"
  have "map ln_id lanes = map ln_id (tp_paths t)" by (simp add: lanes_def restart_lane_shape)
  moreover have "lane_ok Map.empty 0 p" if "p \<in> set lanes" for p
    using that ok by (auto simp: lanes_def tp_ok_def lanes_ok_def lane_ok_def [of "tp_packets t"] intro!: restart_lane_ok)
  ultimately have lanes: "lanes_ok Map.empty 0 lanes" using ok by (simp add: tp_ok_def lanes_ok_def)
  have q: "queues_ok (tp_small t) (tp_queue t)" "queued t \<le> int maxPackets" using ok by (simp_all add: tp_ok_def)
  have "tp_paths t' = lanes" "tp_packets t' = Map.empty" "tp_pending t' = []" "tp_pendingOrder t' = []" "tp_seq t' = 0"
    "tp_queue t' = tp_queue t" "tp_small t' = tp_small t" "tp_receivers t' = []" "tp_received t' = no_receipts" "tp_unreported t' = no_receipts"
    using e True by (auto simp: SetRemote_def lanes_def split: if_splits)
  then show ?thesis
    using lanes q True by (simp add: tp_ok_def queued_def sent_ok_def pending_ok_def receivers_ok_def windows_ok_empty(1))
qed

lemma checkTime_ok:
  assumes "tp_ok n ks t" and "checkTime t now = (e, t')"
  shows "tp_ok n ks t'" and "tp_pendingOrder t' = tp_pendingOrder t"
  using assms tp_ok_core [of t' t n ks] by (auto simp: checkTime_def core_def split: if_splits)

lemma lease_keeps [lane_keeps]: "kept (p\<lparr>ln_lease := x\<rparr>) = kept p"
  by (simp add: kept_def)

lemma lease_rates [lane_rates]: "rates_ok (p\<lparr>ln_lease := x\<rparr>) = rates_ok p"
  by (simp add: rates_ok_def)

lemma tp_ok_lease:
  assumes ok: "tp_ok n ks t" and p: "find_lane t i = Some p"
  shows "tp_ok n ks (put_lane t (p\<lparr>ln_lease := x\<rparr>))"
proof -
  have "lane_ok (tp_packets t) n p" using ok find_lane_some [OF p] by (simp add: tp_ok_def lanes_ok_def)
  then have "lane_ok (tp_packets t) n (p\<lparr>ln_lease := x\<rparr>)"
    by (intro lane_ok_kept [OF lease_keeps]) (simp_all add: lane_rates lane_ok_def)
  then show ?thesis by (rule tp_ok_put_lane [OF ok])
qed

lemma Disable_ok: "tp_ok n (tp_pendingOrder t) t \<Longrightarrow> tp_ok n (tp_pendingOrder (Disable t i)) (Disable t i)"
  by (simp add: Disable_def tp_ok_lease split: option.split)

lemma new_lane_ok:
  "lane_ok pkts n ((new_lane i remoteID rtt now)\<lparr>ln_lastTransmit := x, ln_nextBaseline := y, ln_lease := z\<rparr>)"
  by (simp add: new_lane_def lane_ok_def flight_ok_def rates_ok_def elapsed_ok_def no_baselines_def new_control_def initialRate_def)

lemma Path_ok:
  assumes ok: "tp_ok n (tp_pendingOrder t) t" and e: "Path t i remoteID rtt now = (r, t')"
  shows "tp_ok n (tp_pendingOrder t') t'"
proof -
  obtain c t1 where c: "checkTime t now = (c, t1)" by fastforce
  note ok1 = checkTime_ok [OF ok c]
  show ?thesis
  proof (cases c)
    case None
    show ?thesis
    proof (cases "find_lane t1 i")
      case (Some p)
      then have "t' = put_lane t1 (p\<lparr>ln_lease := now\<rparr>)" using e c None by (simp add: Path_def)
      then show ?thesis using tp_ok_lease [OF ok1(1) Some] ok1(2) by simp
    next
      case new: None
      then obtain p where t': "t' = t1\<lparr>tp_paths := tp_paths t1 @ [p]\<rparr>" and p: "ln_id p = i" "\<And>pkts. lane_ok pkts n p"
        using e c None new_lane_ok by (force simp: Path_def Let_def new_lane_def)
      have "i \<notin> ln_id ` set (tp_paths t1)" using new by (auto simp: find_lane_def find_None_iff)
      then show ?thesis using ok1 p by (simp add: t' tp_ok_def lanes_ok_def queued_def)
    qed
  next
    case (Some x)
    then have "t' = t1" using e c by (simp add: Path_def)
    then show ?thesis using ok1 by simp
  qed
qed

section \<open>Admission\<close>

lemma set_add_packet: "set (add_packet ps k) \<subseteq> insert k (set ps)"
  using set_update_subset_insert [of ps "length ps - 1" k] by (auto simp: add_packet_def)

lemma small_okI: "ring_rel q r \<Longrightarrow> (\<And>i ps k. (i, ps) \<in> set r \<Longrightarrow> k \<in> set ps \<Longrightarrow> waiting c k) \<Longrightarrow> small_ok c q"
  unfolding small_ok_def by blast

lemma small_okE:
  assumes "small_ok c q"
  obtains r where "ring_rel q r" and "\<And>i ps k. (i, ps) \<in> set r \<Longrightarrow> k \<in> set ps \<Longrightarrow> waiting c k"
  using assms unfolding small_ok_def by blast

lemma ring_count: "ring_rel q r \<Longrightarrow> fq_count q = int (sum_list (map (length \<circ> snd) r))"
  by (simp add: ring_rel_def ring_shape_def)

lemma small_ok_push:
  assumes ok: "small_ok c q" and k: "waiting c k"
  shows "\<exists>b q'. fq_push q k = Some (b, q') \<and> small_ok c q' \<and> fq_count q' \<le> fq_count q + 1"
proof -
  obtain r where r: "ring_rel q r" and w: "\<And>i ps k. (i, ps) \<in> set r \<Longrightarrow> k \<in> set ps \<Longrightarrow> waiting c k"
    using small_okE [OF ok] by blast
  obtain q' where q': "fq_push q k = Some (fst (ring_push r k), q')" "ring_rel q' (snd (ring_push r k))"
    using push_refines [OF r, of k] by blast
  have "waiting c j" if "(i, ps) \<in> set (snd (ring_push r k))" "j \<in> set ps" for i ps j
  proof (cases "map_of r (pk_flow k)")
    case None
    then show ?thesis using that w k by (auto simp: ring_push_def)
  next
    case (Some x)
    then have "(i, ps) \<in> (\<lambda>y. (fst y, if fst y = pk_flow k then add_packet (snd y) k else snd y)) ` set r"
      using that(1) by (simp add: ring_push_def case_prod_beta')
    then obtain y where "y \<in> set r" and y: "i = fst y" "ps = (if fst y = pk_flow k then add_packet (snd y) k else snd y)" by blast
    then have "(fst y, snd y) \<in> set r" by simp
    from w [OF this] show ?thesis using that(2) k y(2) set_add_packet [of "snd y" k] by (auto split: if_splits)
  qed
  then have "small_ok c q'" by (rule small_okI [OF q'(2)])
  moreover have "fq_count q' \<le> fq_count q + 1"
  proof (cases "map_of r (pk_flow k)")
    case None
    then show ?thesis unfolding ring_count [OF r] ring_count [OF q'(2)] by (simp add: ring_push_def)
  next
    case (Some ps)
    have "distinct (map fst r)" "(pk_flow k, ps) \<in> set r"
      using r map_of_SomeD [OF Some] by (simp_all add: ring_rel_def ring_shape_def linked_def)
    from sum_set_packets [OF this, of "\<lambda>ps. add_packet ps k"] show ?thesis
      unfolding ring_count [OF r] ring_count [OF q'(2)] using Some length_add_packet [of ps k] by (simp add: ring_push_def split: if_splits)
  qed
  ultimately show ?thesis using q'(1) by blast
qed

lemma small_ok_head:
  assumes ok: "small_ok c q"
  shows "\<exists>h. fq_peek q = Some h"
    and "fq_peek q = Some (Some k) \<Longrightarrow> waiting c k \<and> (\<exists>q'. fq_pop q = Some q' \<and> small_ok c q' \<and> fq_count q' = fq_count q - 1)"
    and "0 \<le> fq_count q"
proof -
  obtain r where r: "ring_rel q r" and w: "\<And>i ps k. (i, ps) \<in> set r \<Longrightarrow> k \<in> set ps \<Longrightarrow> waiting c k"
    using small_okE [OF ok] by blast
  note tr = take_refines [OF r]
  show "\<exists>h. fq_peek q = Some h" using tr by blast
  show "0 \<le> fq_count q" using r by (simp add: ring_rel_def ring_shape_def)
  assume "fq_peek q = Some (Some k)"
  then have pk: "ring_peek r = Some k" using tr by simp
  then obtain i ps r1 where r1: "r = (i, k # ps) # r1" by (auto elim: ring_peek.elims)
  obtain q' r' where q': "ring_pop r = Some r'" "fq_pop q = Some q'" "ring_rel q' r'" using tr pk by auto
  have r': "r' = (if ps = [] then r1 else r1 @ [(i, ps)])" using q'(1) r1 by auto
  have "waiting c k'" if "(j, ps') \<in> set r'" "k' \<in> set ps'" for j ps' k'
    using that w [of i "k # ps" k'] w [of j ps' k'] unfolding r' r1 by (auto split: if_splits)
  then have "small_ok c q'" by (rule small_okI [OF q'(3)])
  moreover have "fq_count q' = fq_count q - 1" unfolding ring_count [OF r] ring_count [OF q'(3)] r' r1 by simp
  moreover have "waiting c k" by (rule w [of i "k # ps"]) (simp_all add: r1)
  ultimately show "waiting c k \<and> (\<exists>q'. fq_pop q = Some q' \<and> small_ok c q' \<and> fq_count q' = fq_count q - 1)" using q'(2) by blast
qed

lemma small_ok_peek: "small_ok c q \<Longrightarrow> fq_peek q \<noteq> None"
  using small_ok_head(1) [of c q] by auto

lemma queues_okD:
  assumes "queues_ok small bulk"
  shows "c \<noteq> classBulk \<Longrightarrow> small_ok c (small c)" and "\<And>k. k \<in> set bulk \<Longrightarrow> waiting classBulk k"
  using assms by (cases c; auto simp: queues_ok_def)+

lemma queues_ok_upd: "queues_ok small bulk \<Longrightarrow> small_ok c q \<Longrightarrow> c \<noteq> classBulk \<Longrightarrow> queues_ok (small(c := q)) bulk"
  by (cases c) (auto simp: queues_ok_def)

lemma queued_nonneg: "queues_ok (tp_small t) (tp_queue t) \<Longrightarrow> 0 \<le> queued t"
  using small_ok_head(3) [of classRealtime "tp_small t classRealtime"] small_ok_head(3) [of classSmall "tp_small t classSmall"]
  by (simp add: queues_ok_def queued_def)

lemma queued_small:
  "c \<noteq> classBulk \<Longrightarrow> queued (t\<lparr>tp_small := (tp_small t)(c := q)\<rparr>) = queued t - fq_count (tp_small t c) + fq_count q"
  by (cases c) (simp_all add: queued_def)

lemma small_drop_core [simp]: "core (small_drop f c t) = core t"
  by (simp add: small_drop_def core_def)

lemma tp_ok_push_small:
  assumes ok: "tp_ok n ks t" and k: "waiting c k" and c: "c \<noteq> classBulk" and room: "queued t + int (length (tp_pending t)) < int maxPackets"
  shows "\<exists>b q. fq_push (tp_small t c) k = Some (b, q) \<and> tp_ok n ks (t\<lparr>tp_small := (tp_small t)(c := q)\<rparr>)"
proof -
  have q: "queues_ok (tp_small t) (tp_queue t)" using ok by (simp add: tp_ok_def)
  obtain b q' where q': "fq_push (tp_small t c) k = Some (b, q')" "small_ok c q'" "fq_count q' \<le> fq_count (tp_small t c) + 1"
    using small_ok_push [OF queues_okD(1) [OF q c] k] by blast
  have "queues_ok ((tp_small t)(c := q')) (tp_queue t)" by (rule queues_ok_upd [OF q q'(2) c])
  then have "tp_ok n ks (t\<lparr>tp_small := (tp_small t)(c := q')\<rparr>)"
    using ok room q'(3) queued_small [OF c, of t q'] by (simp add: tp_ok_def)
  then show ?thesis using q'(1) by blast
qed

lemma tp_ok_push_bulk:
  assumes ok: "tp_ok n ks t" and k: "waiting classBulk k" and room: "queued t + int (length (tp_pending t)) < int maxPackets"
  shows "tp_ok n ks (t\<lparr>tp_queue := tp_queue t @ [k]\<rparr>)"
  using ok k room by (auto simp: tp_ok_def queues_ok_def queued_def)

lemma Enqueue_ok:
  assumes ok: "tp_ok n (tp_pendingOrder t) t"
  shows "\<exists>r t'. Enqueue t payload md now = Some (r, t') \<and> tp_ok n (tp_pendingOrder t') t'"
proof -
  obtain e t1 where c: "checkTime t now = (e, t1)" by fastforce
  note ok1 = checkTime_ok [OF ok c]
  define cl where "cl = classify (length payload) md"
  define k where "k = \<lparr>pk_flow = pm_Flow md, pk_ack = pm_ACK md, pk_seq = 0, pk_order = 0, pk_class = cl,
                          pk_interactive = False, pk_payload = payload, pk_created = now,
                          pk_queueDeadline = now + bulkQueueAge t1 now, pk_repairDeadline = zero_time,
                          pk_lastSent = zero_time, pk_lastPath = 0, pk_lastLaneSeq = 0, pk_attempts = 0, pk_acked = False\<rparr>"
  define full where "full \<longleftrightarrow> queued t1 + int (length (tp_pending t1)) \<ge> int (if cl = classBulk then maxPackets - smallPacketHeadroom else maxPackets)"
  have refused: ?thesis if "Enqueue t payload md now = Some (r, t2)" "core t2 = core t1" for r t2
    using that ok1 tp_ok_core [OF that(2), of n "tp_pendingOrder t"] core_order [OF that(2)] by simp
  consider (time) "e \<noteq> None" | (len) "e = None" "length payload = 0 \<or> length payload > maxDatagram"
    | (full) "e = None" "\<not> (length payload = 0 \<or> length payload > maxDatagram)" full
    | (room) "e = None" "\<not> (length payload = 0 \<or> length payload > maxDatagram)" "\<not> full" by blast
  then show ?thesis
  proof cases
    case time
    then obtain x where "e = Some x" by blast
    then show ?thesis using c by (intro refused [of "Some (Rejected x)" t1]) (simp_all add: Enqueue_def)
  next
    case len
    then show ?thesis using c by (intro refused [of "Some InvalidLength" t1]) (simp_all add: Enqueue_def)
  next
    case full
    let ?t2 = "t1\<lparr>tp_drops := tp_drops t1 + 1, tp_admissionDrops := tp_admissionDrops t1 + 1\<rparr>"
    have "Enqueue t payload md now = Some (None, if cl \<noteq> classBulk
        then small_drop (\<lambda>d. d\<lparr>ds_Admission := ds_Admission d + 1\<rparr>) cl (?t2\<lparr>tp_interactiveDrops := tp_interactiveDrops ?t2 + 1\<rparr>) else ?t2)"
      using full(1,2) full(3)[unfolded full_def] c unfolding Enqueue_def Let_def cl_def [symmetric] by simp
    then show ?thesis by (rule refused) (simp add: core_def [of t1] core_def [of ?t2] core_def [of "?t2\<lparr>tp_interactiveDrops := x\<rparr>" for x])
  next
    case room
    note False = room(1,2) room(3) [unfolded full_def]
    then have room: "queued t1 + int (length (tp_pending t1)) < int maxPackets" using False(3) by (auto split: if_splits)
    have eq: "Enqueue t payload md now = (if cl \<noteq> classBulk then do {
            (coalesced, q) \<leftarrow> fq_push (tp_small t1 cl) (k\<lparr>pk_interactive := True, pk_queueDeadline := now + maxQueueAge\<rparr>);
            let t = t1\<lparr>tp_small := (tp_small t1)(cl := q)\<rparr>;
            Some (None, if coalesced then t\<lparr>tp_coalescedACKs := tp_coalescedACKs t + 1\<rparr> else t)
          } else Some (None, t1\<lparr>tp_queue := tp_queue t1 @ [k]\<rparr>))"
      using False c unfolding Enqueue_def Let_def cl_def [symmetric] k_def by simp
    have w: "waiting cl k" "waiting cl (k\<lparr>pk_interactive := True, pk_queueDeadline := now + maxQueueAge\<rparr>)"
      using False by (simp_all add: k_def waiting_def)
    show ?thesis
    proof (cases "cl = classBulk")
      case True
      then show ?thesis using tp_ok_push_bulk [OF ok1(1) _ room] w(1) ok1(2) eq by simp
    next
      case small: False
      from tp_ok_push_small [OF ok1(1) w(2) small room] obtain b q where
        q: "fq_push (tp_small t1 cl) (k\<lparr>pk_interactive := True, pk_queueDeadline := now + maxQueueAge\<rparr>) = Some (b, q)"
        "tp_ok n (tp_pendingOrder t) (t1\<lparr>tp_small := (tp_small t1)(cl := q)\<rparr>)" by blast
      define t2 where "t2 = t1\<lparr>tp_small := (tp_small t1)(cl := q)\<rparr>"
      have "core (t2\<lparr>tp_coalescedACKs := x\<rparr>) = core t2" for x by (simp add: core_def)
      then show ?thesis using q small eq ok1(2) tp_ok_core [of "t2\<lparr>tp_coalescedACKs := tp_coalescedACKs t2 + 1\<rparr>" t2 n "tp_pendingOrder t"]
        by (simp add: t2_def Let_def)
    qed
  qed
qed

section \<open>Transmission\<close>

lemma first_transmit_shape:
  assumes "first_transmit t k p now = (k', p', t')"
  shows "pk_seq k' = tp_seq t + 1" "pk_class k' = pk_class k" "pk_payload k' = pk_payload k" "pk_attempts k' = pk_attempts k" "pk_acked k' = pk_acked k"
    and "kept p' = kept p" "rates_ok p' = rates_ok p"
    and "core t' = (tp_paths t, tp_packets t, tp_seq t + 1, tp_pending t, tp_pendingOrder t @ [tp_seq t + 1], tp_queue t, tp_small t,
      tp_receivers t, tp_received t, tp_unreported t)"
  using assms [symmetric] unfolding first_transmit_def Let_def
  by (cases "pk_class k"; cases "pk_interactive k"; simp add: kept_def rates_ok_def core_def)+

lemma lane_transmit_lanes:
  assumes lanes: "lanes_ok pkts n (tp_paths t)" and p: "lane_ok pkts n p" and room: "Suc n < 2 ^ 64"
    and len: "length (pk_payload k) \<le> maxDatagram" and cls: "\<And>j. pkts (pk_seq k) = Some j \<Longrightarrow> pk_class j = pk_class k"
    and k': "pk_class k' = pk_class k"
  shows "lanes_ok (pkts(pk_seq k \<mapsto> k')) (Suc n) (tp_paths (put_lane t (lane_transmit p k now)))"
proof -
  let ?pkts = "pkts(pk_seq k \<mapsto> k')"
  have g: "packets_grow pkts ?pkts" using cls k' by (auto simp: packets_grow_def)
  have "flight_ok ?pkts n p" using p flight_ok_grow [OF g] by (simp add: lane_ok_def)
  then have "flight_ok ?pkts (Suc n) (lane_transmit p k now)" using k' by (intro lane_transmit_ok room len) simp_all
  then have "lane_ok ?pkts (Suc n) (lane_transmit p k now)"
    by (rule lane_ok_steady [OF lane_transmit_shape(6,7) _ lane_ok_grow [OF g p]])
  from lanes_ok_put [OF lanes this g] show ?thesis by simp
qed

lemma transmit_eq:
  assumes "transmit t k p now = (tx, k', t')" and "(if pk_seq k = 0 then first_transmit t k p now else (k, p, t)) = (k1, p1, t1)"
  shows "k' = k1\<lparr>pk_attempts := pk_attempts k1 + 1, pk_lastSent := now, pk_lastPath := ln_id (lane_transmit p1 k1 now),
      pk_lastLaneSeq := ln_seq (lane_transmit p1 k1 now)\<rparr>"
    and "t' = (put_lane t1 (lane_transmit p1 k1 now))\<lparr>tp_packets := (tp_packets t1)(pk_seq k1 \<mapsto> k'),
      tp_pending := add_pending (pk_seq k1) (tp_pending t1)\<rparr>"
  using assms(1) [symmetric] unfolding transmit_def assms(2) Let_def prod.case by simp_all

lemma queued_cong: "tp_queue t' = tp_queue t \<Longrightarrow> tp_small t' = tp_small t \<Longrightarrow> queued t' = queued t"
  by (simp add: queued_def)

lemma sent_ok_upd:
  assumes "sent_ok pkts h" and "h \<le> h'" and "pk_seq k = s" "s \<noteq> 0" "s \<le> h'" "length (pk_payload k) \<le> maxDatagram"
    and "1 \<le> pk_attempts k" "pk_attempts k \<le> 4"
  shows "sent_ok (pkts(s \<mapsto> k)) h'"
  unfolding sent_ok_def
proof (intro allI impI)
  fix r j assume r: "(pkts(s \<mapsto> k)) r = Some j"
  show "pk_seq j = r \<and> r \<noteq> 0 \<and> r \<le> h' \<and> length (pk_payload j) \<le> maxDatagram \<and> 1 \<le> pk_attempts j \<and> pk_attempts j \<le> 4"
  proof (cases "r = s")
    case True
    then show ?thesis using r assms by auto
  next
    case False
    then have "pk_seq j = r \<and> r \<noteq> 0 \<and> r \<le> h \<and> length (pk_payload j) \<le> maxDatagram \<and> 1 \<le> pk_attempts j \<and> pk_attempts j \<le> 4"
      using r assms(1) unfolding sent_ok_def by simp
    then show ?thesis using assms(2) by (meson order_trans)
  qed
qed

text \<open>The parts of the transport that no transmission touches.\<close>

definition inputs :: "transport \<Rightarrow> packet list \<times> (traffic_class \<Rightarrow> fair_packet_queue) \<times> receiver list \<times> receipt_window \<times> receipt_window" where
  "inputs t = (tp_queue t, tp_small t, tp_receivers t, tp_received t, tp_unreported t)"

lemma transmit_first:
  assumes ok: "tp_ok n (tp_pendingOrder t) t" and w: "waiting c k" and p: "p \<in> set (tp_paths t)" and room: "Suc n < 2 ^ 64"
    and fits: "queued t + int (length (tp_pending t)) < int maxPackets" and e: "transmit t k p now = (tx, k', t')"
  shows "tp_ok (Suc n) (tp_pendingOrder t') t'" and "tp_packets t' (pk_seq k') = Some k'" and "pk_seq k' \<in> set (tp_pending t')"
    and "pk_attempts k' = 1" and "pk_payload k' = pk_payload k" and "inputs t' = inputs t"
proof -
  obtain k1 p1 t1 where f: "first_transmit t k p now = (k1, p1, t1)" by (rule prod_cases3)
  note sh = first_transmit_shape [OF f]
  have s0: "(if pk_seq k = 0 then first_transmit t k p now else (k, p, t)) = (k1, p1, t1)" using w f by (simp add: waiting_def)
  note eq = transmit_eq [OF e s0]
  let ?s = "tp_seq t + 1"
  have le: "unat (tp_seq t) \<le> n" using ok by (simp add: tp_ok_def)
  then have u: "unat ?s = unat (tp_seq t) + 1" using room by (simp add: unat_plus_nowrap)
  have nz: "?s \<noteq> 0" using u by (metis add_is_0 unat_0 zero_neq_one)
  have fresh: "tp_packets t ?s = None"
  proof (rule ccontr)
    assume "tp_packets t ?s \<noteq> None"
    then have "?s \<le> tp_seq t" using ok by (auto simp: tp_ok_def sent_ok_def)
    then show False using u by (simp add: word_le_nat_alt)
  qed
  then have new: "?s \<notin> set (tp_pending t)" "?s \<notin> set (tp_pendingOrder t)" using ok by (auto simp: tp_ok_def pending_ok_def)
  have c1: "tp_paths t1 = tp_paths t" "tp_packets t1 = tp_packets t" "tp_seq t1 = ?s" "tp_pending t1 = tp_pending t"
    "tp_pendingOrder t1 = tp_pendingOrder t @ [?s]" "tp_queue t1 = tp_queue t" "tp_small t1 = tp_small t" "tp_receivers t1 = tp_receivers t"
    "tp_received t1 = tp_received t" "tp_unreported t1 = tp_unreported t" using sh(8) by (simp_all add: core_def)
  have k': "pk_seq k' = ?s" "pk_class k' = pk_class k1" "pk_payload k' = pk_payload k" "pk_attempts k' = 1" "\<not> pk_acked k'"
    using w sh(1-5) by (simp_all add: eq(1) waiting_def)
  have "lane_ok (tp_packets t) n p1"
    using ok p sh(6,7) by (intro lane_ok_kept [OF sh(6)]) (auto simp: tp_ok_def lanes_ok_def lane_ok_def)
  then have "lanes_ok ((tp_packets t1)(pk_seq k1 \<mapsto> k')) (Suc n) (tp_paths (put_lane t1 (lane_transmit p1 k1 now)))"
    using ok w sh(1,3) fresh k'(2) c1(1,2)
    by (intro lane_transmit_lanes room) (auto simp: tp_ok_def waiting_def)
  then have lanes: "lanes_ok (tp_packets t') (Suc n) (tp_paths t')" by (simp add: eq(2) put_lane_def)
  have pk: "tp_packets t' = (tp_packets t)(?s \<mapsto> k')" "tp_pending t' = tp_pending t @ [?s]" "tp_pendingOrder t' = tp_pendingOrder t @ [?s]"
    "tp_seq t' = ?s" using new c1 sh(1) by (simp_all add: eq(2) add_pending_def)
  have "tp_seq t \<le> ?s" using u by (simp add: word_le_nat_alt)
  then have st: "sent_ok (tp_packets t') ?s"
    unfolding pk using ok k' w nz by (intro sent_ok_upd [of _ "tp_seq t"]) (simp_all add: tp_ok_def waiting_def)
  have pend: "pending_ok (tp_packets t') (tp_pending t') (tp_pendingOrder t')"
    using ok new fresh by (auto simp: pk tp_ok_def pending_ok_def acked_def)
  show inp: "inputs t' = inputs t" using c1 by (simp add: inputs_def eq(2))
  then have "queued t' = queued t" by (simp add: inputs_def queued_def)
  then show "tp_ok (Suc n) (tp_pendingOrder t') t'"
    using ok lanes st pend inp fits le u pk by (simp add: tp_ok_def inputs_def)
  show "tp_packets t' (pk_seq k') = Some k'" "pk_seq k' \<in> set (tp_pending t')" "pk_attempts k' = 1" "pk_payload k' = pk_payload k"
    using k' pk by simp_all
qed

lemma transmit_again:
  assumes ok: "tp_ok n ks t" and k: "tp_packets t s = Some k" "s \<in> set (tp_pending t)" and few: "pk_attempts k < 4"
    and p: "p \<in> set (tp_paths t)" and room: "Suc n < 2 ^ 64" and e: "transmit t k p now = (tx, k', t')"
  shows "tp_ok (Suc n) ks t'" and "inputs t' = inputs t" and "tp_pendingOrder t' = tp_pendingOrder t"
    and "tp_pending t' = tp_pending t" and "dom (tp_packets t') = dom (tp_packets t)"
proof -
  have s: "pk_seq k = s" "s \<noteq> 0" "s \<le> tp_seq t" "length (pk_payload k) \<le> maxDatagram" "1 \<le> pk_attempts k"
    using ok k(1) by (auto simp: tp_ok_def sent_ok_def)
  have "(if pk_seq k = 0 then first_transmit t k p now else (k, p, t)) = (k, p, t)" using s by simp
  note eq = transmit_eq [OF e this]
  have k': "pk_seq k' = s" "pk_class k' = pk_class k" "pk_payload k' = pk_payload k" "pk_attempts k' = pk_attempts k + 1" "pk_acked k' = pk_acked k"
    using s(1) by (simp_all add: eq(1))
  have "lanes_ok ((tp_packets t)(pk_seq k \<mapsto> k')) (Suc n) (tp_paths (put_lane t (lane_transmit p k now)))"
    using ok p s k(1) k'(2) by (intro lane_transmit_lanes room) (auto simp: tp_ok_def lanes_ok_def)
  then have lanes: "lanes_ok (tp_packets t') (Suc n) (tp_paths t')" by (simp add: eq(2) put_lane_def)
  have pk: "tp_packets t' = (tp_packets t)(s \<mapsto> k')" "tp_pending t' = tp_pending t" "tp_seq t' = tp_seq t"
    using k(2) s(1) by (simp_all add: eq(2) add_pending_def)
  have st: "sent_ok (tp_packets t') (tp_seq t)"
    unfolding pk using ok k' s few by (intro sent_ok_upd [of _ "tp_seq t"]) (simp_all add: tp_ok_def)
  show d: "dom (tp_packets t') = dom (tp_packets t)" using k(1) by (auto simp: pk)
  have pend: "pending_ok (tp_packets t') (tp_pending t) ks"
    using ok k(2) d by (auto simp: pk tp_ok_def pending_ok_def acked_def)
  show inp: "inputs t' = inputs t" and "tp_pendingOrder t' = tp_pendingOrder t" by (simp_all add: inputs_def eq(2))
  then have "queued t' = queued t" by (simp add: inputs_def queued_def)
  then show "tp_ok (Suc n) ks t'" using ok lanes st pend inp pk by (simp add: tp_ok_def inputs_def)
  show "tp_pending t' = tp_pending t" by (rule pk(2))
qed

end
