(* ===== verification/Poll_Ok.thy ===== *)
theory Poll_Ok
  imports Transport_Ok
begin

text \<open>
  Polling keeps the transport well formed and always returns: the acknowledgements, the time-outs
  and keepalives of the lanes, the reservations, the repair loop and the loops over the queues.
\<close>

lemma tp_ok_mono: "tp_ok n ks t \<Longrightarrow> n \<le> m \<Longrightarrow> tp_ok m ks t"
  using lane_ok_mono [of "tp_packets t" n _ m] by (auto simp: tp_ok_def lanes_ok_def)

lemma lane_ok_alike: "kept q = kept p \<Longrightarrow> rates_ok q = rates_ok p \<Longrightarrow> lane_ok pkts n p \<Longrightarrow> lane_ok pkts n q"
  by (rule lane_ok_kept) (simp_all add: lane_ok_def)

definition receipt_part :: "transport \<Rightarrow> receiver list \<times> receipt_window \<times> receipt_window" where
  "receipt_part t = (tp_receivers t, tp_received t, tp_unreported t)"

lemma inputs_receipt_part: "inputs t' = inputs t \<Longrightarrow> receipt_part t' = receipt_part t"
  by (simp add: inputs_def receipt_part_def)

section \<open>Acknowledgements owed\<close>

lemma poll_tokens_core [simp]: "core (poll_tokens t now) = core t"
  by (simp add: poll_tokens_def Let_def core_def)

lemma ackDue_receiver: "ackDue r now = (due, r') \<Longrightarrow> rc_receipts r' = rc_receipts r \<and> rc_remoteLane r' = rc_remoteLane r"
  by (auto simp: ackDue_def Let_def case_prod_beta split: if_splits)

lemma feedback_keeps [lane_keeps]: "kept (p\<lparr>ln_feedbackSent := m\<rparr>) = kept p"
  by (simp add: kept_def)

lemma feedback_rates [lane_rates]: "rates_ok (p\<lparr>ln_feedbackSent := m\<rparr>) = rates_ok p"
  by (simp add: rates_ok_def)

lemma poll_receiver_ok:
  assumes ok: "tp_ok n ks t" and e: "poll_receiver now (out, t, rs) r = (out', t', rs')"
  shows "tp_ok n ks t'" and "\<exists>r'. rs' = rs @ [r'] \<and> rc_receipts r' = rc_receipts r \<and> rc_remoteLane r' = rc_remoteLane r"
    and "\<exists>txs. out' = out @ txs \<and> length txs \<le> 1" and "tp_received t' = tp_received t" and "tp_receivers t' = tp_receivers t"
    and "tp_pendingOrder t' = tp_pendingOrder t" and "tp_queue t' = tp_queue t" "tp_small t' = tp_small t"
    and "length (tp_paths t') = length (tp_paths t)"
proof -
  obtain due r1 where d: "ackDue r now = (due, r1)" by fastforce
  note r1 = ackDue_receiver [OF d]
  have kept: "tp_ok n ks t' \<and> (\<exists>r'. rs' = rs @ [r'] \<and> rc_receipts r' = rc_receipts r \<and> rc_remoteLane r' = rc_remoteLane r) \<and>
      (\<exists>txs. out' = out @ txs \<and> length txs \<le> 1) \<and> tp_received t' = tp_received t \<and> tp_receivers t' = tp_receivers t \<and>
      tp_pendingOrder t' = tp_pendingOrder t \<and> tp_queue t' = tp_queue t \<and> tp_small t' = tp_small t \<and>
      length (tp_paths t') = length (tp_paths t)"
  proof (cases "\<exists>p. find_lane t (rc_path r) = Some p \<and> up p now \<and> (rc_pending r > 0 \<or> oldest (tp_unreported t) \<noteq> 0) \<and> due")
    case False
    then have "out' = out" "t' = t" "rs' = rs @ [r] \<or> rs' = rs @ [r1]"
      using e d unfolding poll_receiver_def by (auto simp: Let_def split: option.splits if_splits)
    then show ?thesis using ok r1 by auto
  next
    case True
    then obtain p where p: "find_lane t (rc_path r) = Some p" "up p now" "rc_pending r > 0 \<or> oldest (tp_unreported t) \<noteq> 0" "due" by blast
    obtain high bits u where rep: "report (tp_received t, tp_unreported t) = ((high, bits), (tp_received t, u))"
      by (auto simp: report_def Let_def)
    define q where "q = pace (p\<lparr>ln_feedbackSent := rm_add (ln_feedbackSent p) now (of_int ackWireBytes)\<rparr>) now ackWireBytes"
    have lp: "lane_ok (tp_packets t) n p" using ok find_lane_some [OF p(1)] by (simp add: tp_ok_def lanes_ok_def)
    have "kept q = kept p" "rates_ok q = rates_ok p" by (simp_all add: q_def lane_keeps lane_rates)
    then have "lane_ok (tp_packets t) n q" using lp by (rule lane_ok_alike)
    from tp_ok_put_lane [OF ok this] have t1: "tp_ok n ks (put_lane t q)" .
    have "windows_ok (snd (report (tp_received t, tp_unreported t)))"
      using ok by (intro report_ok(1)) (simp add: tp_ok_def receivers_ok_def)
    then have "tp_ok n ks ((put_lane t q)\<lparr>tp_unreported := u\<rparr>)"
      using t1 unfolding rep by (simp add: tp_ok_def receivers_ok_def queued_def)
    moreover have "t' = (put_lane t q)\<lparr>tp_unreported := u\<rparr>"
      and "\<exists>r'. rs' = rs @ [r'] \<and> rc_receipts r' = rc_receipts r1 \<and> rc_remoteLane r' = rc_remoteLane r1"
      and "\<exists>tx. out' = out @ [tx]"
      using e p d unfolding poll_receiver_def q_def by (auto simp: Let_def rep)
    ultimately show ?thesis using r1 by (auto simp: put_lane_def)
  qed
  then show "tp_ok n ks t'" and "\<exists>r'. rs' = rs @ [r'] \<and> rc_receipts r' = rc_receipts r \<and> rc_remoteLane r' = rc_remoteLane r"
    and "\<exists>txs. out' = out @ txs \<and> length txs \<le> 1" and "tp_received t' = tp_received t" and "tp_receivers t' = tp_receivers t"
    and "tp_pendingOrder t' = tp_pendingOrder t" and "tp_queue t' = tp_queue t" "tp_small t' = tp_small t"
    and "length (tp_paths t') = length (tp_paths t)" by blast+
qed

lemma poll_receivers_ok:
  assumes "tp_ok n ks t" and "foldl (poll_receiver now) (out, t, rs) rr = (out', t', rs')"
  shows "tp_ok n ks t' \<and> map rc_receipts rs' = map rc_receipts (rs @ rr) \<and> map rc_remoteLane rs' = map rc_remoteLane (rs @ rr) \<and>
    length out \<le> length out' \<and> length out' \<le> length out + length rr \<and> tp_received t' = tp_received t \<and> tp_receivers t' = tp_receivers t \<and>
    tp_pendingOrder t' = tp_pendingOrder t \<and> tp_queue t' = tp_queue t \<and> tp_small t' = tp_small t \<and> length (tp_paths t') = length (tp_paths t)"
  using assms
proof (induction rr arbitrary: out t rs)
  case (Cons r rr)
  obtain out1 t1 rs1 where e: "poll_receiver now (out, t, rs) r = (out1, t1, rs1)" by (rule prod_cases3)
  note st = poll_receiver_ok [OF Cons.prems(1) e]
  have "foldl (poll_receiver now) (out1, t1, rs1) rr = (out', t', rs')" using Cons.prems(2) e by simp
  from Cons.IH [OF st(1) this] show ?case using st(2-) by auto
qed simp

lemma poll_receipts_ok:
  assumes ok: "tp_ok n ks t" and e: "foldl (poll_receiver now) ([], t, []) (tp_receivers t) = (out, t', rs)"
  shows "tp_ok n ks (t'\<lparr>tp_receivers := rs\<rparr>)"
proof -
  note r = poll_receivers_ok [OF ok e]
  have "rw_ok (rc_receipts x)" if "x \<in> set rs" for x
  proof -
    have "rc_receipts x \<in> set (map rc_receipts (tp_receivers t))" using r that by (metis append_Nil image_eqI list.set_map)
    then show ?thesis using ok by (auto simp: tp_ok_def receivers_ok_def)
  qed
  moreover have "distinct (map rc_remoteLane rs)" using r ok by (simp add: tp_ok_def receivers_ok_def)
  moreover have "tp_ok n ks t'" using r by blast
  ultimately show ?thesis by (simp add: tp_ok_def receivers_ok_def queued_def)
qed

section \<open>Time-outs and keepalives\<close>

lemma keepalive_length: "keepalive local remote p now = (txs, q) \<Longrightarrow> length txs \<le> 1"
  using keepalive_shape by fastforce

lemma poll_lane_lane_ok:
  assumes ok: "lane_ok (tp_packets t) n p" and e: "poll_lane visit i t now p = (txs, q)" and room: "Suc n < 2 ^ 64"
  shows "lane_ok (tp_packets t) (n + length txs) q" and "ln_id q = ln_id p" and "length txs \<le> 1"
proof -
  show len: "length txs \<le> 1" using e keepalive_length unfolding poll_lane_def Let_def by blast
  have r: "n + length txs < 2 ^ 64" using room len by simp
  have f: "flight_ok (tp_packets t) n p" using ok by (simp add: lane_ok_def)
  note pl = poll_lane_ok [OF f e r]
  then show "lane_ok (tp_packets t) (n + length txs) q" using lane_ok_steady ok by blast
  show "ln_id q = ln_id p" using pl(2) by (simp add: steady_part_def)
qed

lemma poll_lanes_ok:
  assumes ok: "tp_ok n ks t" and e: "poll_lanes visit t now = (txs, t')" and room: "Suc n < 2 ^ 64"
  shows "tp_ok (n + length txs) ks t'" and "length txs \<le> length (tp_paths t)" and "inputs t' = inputs t"
    and "tp_pendingOrder t' = tp_pendingOrder t"
proof -
  define rs where "rs = map (\<lambda>(i, p). poll_lane visit i t now p) (enumerate 0 (tp_paths t))"
  have t': "txs = concat (map fst rs)" "t' = t\<lparr>tp_paths := map snd rs\<rparr>" using e by (simp_all add: poll_lanes_def rs_def Let_def)
  have len: "length rs = length (tp_paths t)" by (simp add: rs_def)
  have nth: "rs ! i = poll_lane visit i t now (tp_paths t ! i)" if "i < length (tp_paths t)" for i
    using that by (simp add: rs_def nth_enumerate_eq)
  have lane: "lane_ok (tp_packets t) n (tp_paths t ! i)" if "i < length (tp_paths t)" for i
    using ok that by (simp add: tp_ok_def lanes_ok_def)
  have each: "lane_ok (tp_packets t) (n + length (fst (rs ! i))) (snd (rs ! i)) \<and> ln_id (snd (rs ! i)) = ln_id (tp_paths t ! i) \<and>
      length (fst (rs ! i)) \<le> 1" if "i < length (tp_paths t)" for i
    using poll_lane_lane_ok [OF lane [OF that] _ room] nth [OF that] by (metis prod.collapse)
  have ids: "map ln_id (map snd rs) = map ln_id (tp_paths t)" using each len by (intro nth_equalityI) simp_all
  have "length (fst x) \<le> length txs" if "x \<in> set rs" for x
    using that member_le_sum_list [of "length (fst x)" "map length (map fst rs)"] unfolding t'(1) length_concat by force
  then have "lane_ok (tp_packets t) (n + length txs) q" if "q \<in> set (map snd rs)" for q
    using that each len lane_ok_mono by (fastforce simp: in_set_conv_nth)
  then show "tp_ok (n + length txs) ks t'" using ok ids by (simp add: t'(2) tp_ok_def lanes_ok_def queued_def)
  have "sum_list (map (\<lambda>x. length (fst x)) rs) \<le> sum_list (map (\<lambda>_. 1) rs)"
    using each len by (intro sum_list_mono) (fastforce simp: in_set_conv_nth)
  then show "length txs \<le> length (tp_paths t)" using len by (simp add: t'(1) length_concat sum_list_triv comp_def)
  show "inputs t' = inputs t" "tp_pendingOrder t' = tp_pendingOrder t" by (simp_all add: t'(2) inputs_def)
qed

section \<open>Reservations\<close>

text \<open>Reservations write only the class shares of a lane.\<close>

lemma share_writes [lane_keeps]:
  "kept (p\<lparr>ln_reserved := a\<rparr>) = kept p" "kept (p\<lparr>ln_guaranteed := b\<rparr>) = kept p" "kept (p\<lparr>ln_copies := x\<rparr>) = kept p"
  "kept (p\<lparr>ln_bulkElsewhere := c\<rparr>) = kept p" "kept (clear_reservation c p) = kept p"
  by (simp_all add: kept_def clear_reservation_def)

lemma share_rates [lane_rates]:
  "rates_ok (p\<lparr>ln_reserved := a\<rparr>) = rates_ok p" "rates_ok (p\<lparr>ln_guaranteed := b\<rparr>) = rates_ok p" "rates_ok (p\<lparr>ln_copies := x\<rparr>) = rates_ok p"
  "rates_ok (p\<lparr>ln_bulkElsewhere := c\<rparr>) = rates_ok p" "rates_ok (clear_reservation c p) = rates_ok p"
  by (simp_all add: rates_ok_def clear_reservation_def)

definition shares_of :: "lane list \<Rightarrow> lane list \<Rightarrow> bool" where
  "shares_of ps qs \<longleftrightarrow> list_all2 (\<lambda>p q. kept q = kept p \<and> rates_ok q = rates_ok p) ps qs"

lemma shares_of_refl [simp]: "shares_of ps ps"
  by (simp add: shares_of_def list_all2_refl)

lemma shares_of_trans: "shares_of ps qs \<Longrightarrow> shares_of qs rs \<Longrightarrow> shares_of ps rs"
  by (simp add: shares_of_def list_all2_conv_all_nth)

lemma shares_of_update:
  "kept q = kept (ps ! i) \<Longrightarrow> rates_ok q = rates_ok (ps ! i) \<Longrightarrow> shares_of ps (ps[i := q])"
  unfolding shares_of_def by (cases "i < length ps") (auto simp: list_all2_conv_all_nth nth_list_update list_update_beyond)

lemma shares_of_map: "(\<And>p. p \<in> set ps \<Longrightarrow> kept (f p) = kept p \<and> rates_ok (f p) = rates_ok p) \<Longrightarrow> shares_of ps (map f ps)"
  by (simp add: shares_of_def list_all2_conv_all_nth)

lemma reserve_lane_shares:
  "reserve_lane c b g now (need, lanes, free) i = (need', lanes', free') \<Longrightarrow> shares_of lanes lanes' \<and> length free' = length free"
  by (auto simp: reserve_lane_def Let_def lane_keeps lane_rates intro!: shares_of_update split: if_splits)

lemma reserve_lanes_shares:
  "foldl (reserve_lane c b g now) (need, lanes, free) is = (need', lanes', free') \<Longrightarrow> shares_of lanes lanes' \<and> length free' = length free"
proof (induction "is" arbitrary: need lanes free)
  case (Cons i js)
  obtain n1 l1 f1 where e: "reserve_lane c b g now (need, lanes, free) i = (n1, l1, f1)" by (rule prod_cases3)
  from Cons.IH [of n1 l1 f1] Cons.prems e reserve_lane_shares [OF e] show ?case using shares_of_trans by auto
qed simp

lemma reserveCopies_shares:
  assumes "reserveCopies t now lanes free = (lanes', free')" and "length free = length lanes"
  shows "shares_of lanes lanes'" and "length free' = length lanes'"
proof -
  have sh: "shares_of lanes (map2 (\<lambda>p f. p\<lparr>ln_copies := g p f\<rparr>) lanes free)" for g
    using assms(2) by (auto simp: shares_of_def list_all2_conv_all_nth lane_keeps lane_rates)
  show "shares_of lanes lanes'" "length free' = length lanes'"
    using assms [symmetric] by (auto simp: reserveCopies_def Let_def intro!: sh split: if_splits)
qed

lemma shares_of_length: "shares_of ps qs \<Longrightarrow> length qs = length ps"
  by (simp add: shares_of_def list_all2_lengthD)

lemma reserve_class_shares:
  assumes e: "reserve_class b now (t, lanes, free) c = (t', lanes', free')" and len: "length free = length lanes"
  shows "shares_of lanes lanes' \<and> length free' = length lanes' \<and> core t' = core t"
proof -
  define g where "g = choose_guarantor t now c lanes free"
  obtain r m where rm: "rm_rate (tp_demand t c) now = (r, m)" by fastforce
  define t1 where "t1 = t\<lparr>tp_demand := (tp_demand t)(c := m)\<rparr>"
  obtain n1 l1 f1 where f: "foldl (reserve_lane c b g now) (reservationHeadroom * r, lanes, free) [0..<length lanes] = (n1, l1, f1)"
    by (rule prod_cases3)
  define l2 where "l2 = (case g of None \<Rightarrow> l1 | Some g \<Rightarrow> l1[g := (l1 ! g)\<lparr>ln_guaranteed := (ln_guaranteed (l1 ! g))(next_class c := True)\<rparr>])"
  obtain l3 f3 where cp: "reserveCopies t1 now l2 f1 = (l3, f3)" by fastforce
  have s1: "shares_of lanes l1" "length f1 = length free" using reserve_lanes_shares [OF f] by simp_all
  have "shares_of l1 l2" by (auto simp: l2_def lane_keeps lane_rates intro!: shares_of_update split: option.splits)
  then have s2: "shares_of lanes l2" "length f1 = length l2"
    using s1 len shares_of_trans shares_of_length by (metis, metis)
  have s3: "shares_of lanes l3" "length f3 = length l3"
    using reserveCopies_shares [OF cp s2(2)] shares_of_trans [OF s2(1)] by simp_all
  have s4: "shares_of lanes (map (\<lambda>p. p\<lparr>ln_bulkElsewhere := h p\<rparr>) l3)" for h
    by (rule shares_of_trans [OF s3(1) shares_of_map]) (simp add: lane_keeps lane_rates)
  have eq: "reserve_class b now (t, lanes, free) c = (if c = classRealtime
      then (t1, map (\<lambda>p. p\<lparr>ln_bulkElsewhere := list_ex (\<lambda>p. eligible p classBulk now \<and> ln_reserved p classRealtime = 0) l3 \<and> ln_reserved p classRealtime > 0\<rparr>) l3, f3)
      else (t1, l2, f1))"
    unfolding reserve_class_def prod.case Let_def g_def [symmetric] rm t1_def [symmetric] f l2_def [symmetric] cp ..
  have "core t1 = core t" by (simp add: t1_def core_def)
  then show ?thesis using e s2 s3 s4 unfolding eq by (auto split: if_splits)
qed

lemma lane_ok_shares:
  assumes "shares_of ps qs" and "\<forall>p \<in> set ps. lane_ok pkts n p"
  shows "\<forall>q \<in> set qs. lane_ok pkts n q"
proof
  fix q assume "q \<in> set qs"
  then obtain i where i: "i < length qs" "qs ! i = q" by (auto simp: in_set_conv_nth)
  then have "kept q = kept (ps ! i)" "rates_ok q = rates_ok (ps ! i)" "ps ! i \<in> set ps"
    using assms(1) by (auto simp: shares_of_def list_all2_conv_all_nth)
  then show "lane_ok pkts n q" using assms(2) by (intro lane_ok_alike [of q "ps ! i"]) simp_all
qed

lemma put_lanes_ok:
  "tp_ok n ks t \<Longrightarrow> \<forall>p \<in> set ps. lane_ok (tp_packets t) n p \<Longrightarrow> tp_ok n ks (foldl put_lane t ps) \<and>
    inputs (foldl put_lane t ps) = inputs t \<and> tp_pendingOrder (foldl put_lane t ps) = tp_pendingOrder t"
proof (induction ps arbitrary: t)
  case (Cons p ps)
  then show ?case using Cons.IH [of "put_lane t p"] tp_ok_put_lane [of n ks t p] by (simp add: inputs_def)
qed simp

lemma reserve_ok:
  assumes ok: "tp_ok n ks t"
  shows "tp_ok n ks (reserve t now) \<and> inputs (reserve t now) = inputs t \<and> tp_pendingOrder (reserve t now) = tp_pendingOrder t"
proof -
  define b where "b = (length (tp_queue t) > 0)"
  define t1 where "t1 = t\<lparr>tp_paths := map (clear_reservation b) (tp_paths t)\<rparr>"
  define lanes where "lanes = sort_key latency (filter (\<lambda>p. eligible p classRealtime now) (tp_paths t1))"
  have "shares_of (tp_paths t) (tp_paths t1)" unfolding t1_def by (auto intro!: shares_of_map simp: lane_keeps lane_rates)
  from lane_ok_shares [OF this] have l1: "\<forall>p \<in> set (tp_paths t1). lane_ok (tp_packets t) n p" using ok by (simp add: tp_ok_def lanes_ok_def)
  have "map ln_id (tp_paths t1) = map ln_id (tp_paths t)" by (simp add: t1_def clear_reservation_def)
  then have "lanes_ok (tp_packets t) n (tp_paths t1)" using ok l1 by (simp add: tp_ok_def lanes_ok_def)
  then have ok1: "tp_ok n ks t1" using ok by (simp add: tp_ok_def t1_def queued_def)
  have in1: "inputs t1 = inputs t" "tp_pendingOrder t1 = tp_pendingOrder t" by (simp_all add: t1_def inputs_def)
  obtain t2 l2 f2 where c1: "reserve_class b now (t1, lanes, map ln_rate lanes) classRealtime = (t2, l2, f2)" by (rule prod_cases3)
  obtain t3 l3 f3 where c2: "reserve_class b now (t2, l2, f2) classSmall = (t3, l3, f3)" by (rule prod_cases3)
  have s1: "shares_of lanes l2" "length f2 = length l2" "core t2 = core t1" using reserve_class_shares [OF c1] by simp_all
  have s2: "shares_of l2 l3" "core t3 = core t2" using reserve_class_shares [OF c2 s1(2)] by simp_all
  have "\<forall>p \<in> set l3. lane_ok (tp_packets t) n p"
    using lane_ok_shares [OF shares_of_trans [OF s1(1) s2(1)]] l1 by (simp add: lanes_def)
  moreover have c3: "core t3 = core t1" using s1(3) s2(2) by simp
  moreover have "tp_ok n ks t3" using tp_ok_core [OF c3] ok1 by simp
  moreover have "tp_packets t3 = tp_packets t" "inputs t3 = inputs t" "tp_pendingOrder t3 = tp_pendingOrder t"
    using c3 in1 by (auto simp: core_def inputs_def t1_def)
  ultimately have ok3: "tp_ok n ks (foldl put_lane t3 l3) \<and> inputs (foldl put_lane t3 l3) = inputs t \<and>
      tp_pendingOrder (foldl put_lane t3 l3) = tp_pendingOrder t" using put_lanes_ok [of n ks t3 l3] by simp
  have "reserve t now = (if filter (\<lambda>p. eligible p classRealtime now) (tp_paths t1) = [] then t1 else foldl put_lane t3 l3)"
    unfolding reserve_def Let_def b_def [symmetric] t1_def [symmetric] lanes_def [symmetric] by (simp add: c1 c2)
  then show ?thesis using ok1 in1 ok3 by simp
qed

end
