(* ===== verification/Send_Ok.thy ===== *)
theory Send_Ok
  imports Poll_Ok
begin

text \<open>
  The repair loop and the loops over the queues: they return, keep the transport well formed and
  send a bounded number of frames. With the first half of polling this gives the whole of Poll.
\<close>

section \<open>The repair loop\<close>

lemma foldl_choice:
  assumes "\<And>b x. f b x = b \<or> f b x = Some x"
  shows "foldl f b xs = Some p \<Longrightarrow> p \<in> set xs \<or> b = Some p"
proof (induction xs arbitrary: b)
  case (Cons x xs)
  then have "foldl f (f b x) xs = Some p" by simp
  from Cons.IH [OF this] assms [of b x] show ?case by auto
qed simp

lemma chooseLane_mem: "chooseLane t now c sz ex av = Some p \<Longrightarrow> p \<in> set (tp_paths t)"
proof -
  define f where "f = (\<lambda>best p. if \<not> lane_admits t now c sz ex av p then best
         else case best of None \<Rightarrow> Some p | Some b \<Rightarrow> if arrival p now < arrival b now then Some p else Some b)"
  assume "chooseLane t now c sz ex av = Some p"
  then have "foldl f None (tp_paths t) = Some p" by (simp add: chooseLane_def f_def)
  moreover have "f b x = b \<or> f b x = Some x" for b x by (simp add: f_def split: option.split)
  ultimately show ?thesis using foldl_choice [of f None "tp_paths t" p] by simp
qed

lemma repair_choice_ok:
  assumes "repair_choice t now k = Some p"
  shows "p \<in> set (tp_paths t)" and "pk_attempts k < 4"
  using assms unfolding repair_choice_def Let_def by (auto split: option.splits if_splits dest: chooseLane_mem)

lemma tp_ok_drop_pending:
  assumes ok: "tp_ok n (rs @ s # ss) t"
  shows "tp_ok n (rs @ ss) (t\<lparr>tp_pending := removeAll s (tp_pending t)\<rparr>)"
proof -
  have "length (removeAll s (tp_pending t)) \<le> length (tp_pending t)" by (rule length_removeAll_less_eq)
  then have "queued t + int (length (removeAll s (tp_pending t))) \<le> int maxPackets" using ok unfolding tp_ok_def by linarith
  moreover have "pending_ok (tp_packets t) (removeAll s (tp_pending t)) (rs @ ss)"
    using ok by (auto simp: tp_ok_def pending_ok_def distinct_removeAll)
  ultimately show ?thesis using ok by (simp add: tp_ok_def queued_def)
qed

lemma repair_turn_ok:
  assumes ok: "tp_ok n (rs @ s # ss) t" and room: "Suc n < 2 ^ 64"
  shows "\<exists>txs t' rs'. repair_turn now (out, t, rs) s = Some (out @ txs, t', rs') \<and> length txs \<le> 1 \<and>
    tp_ok (n + length txs) (rs' @ ss) t' \<and> inputs t' = inputs t"
proof -
  obtain k where k: "tp_packets t s = Some k" using ok by (auto simp: tp_ok_def pending_ok_def)
  have s: "pk_seq k = s" using ok k by (auto simp: tp_ok_def sent_ok_def)
  let ?drop = "t\<lparr>tp_pending := removeAll s (tp_pending t)\<rparr>"
  have drop: "tp_ok n (rs @ ss) ?drop" "inputs ?drop = inputs t" using tp_ok_drop_pending [OF ok] by (simp_all add: inputs_def)
  consider (acked) "pk_acked k" | (expired) "\<not> pk_acked k" "now > pk_repairDeadline k"
    | (hold) "\<not> pk_acked k" "\<not> now > pk_repairDeadline k" "repair_choice t now k = None"
    | (repair) p where "\<not> pk_acked k" "\<not> now > pk_repairDeadline k" "repair_choice t now k = Some p" by fastforce
  then show ?thesis
  proof cases
    case acked
    then have "repair_turn now (out, t, rs) s = Some (out @ [], ?drop, rs)" using k s by (simp add: repair_turn_def)
    then show ?thesis using drop by (intro exI [of _ "[]"] exI [of _ ?drop] exI [of _ rs]) simp
  next
    case expired
    let ?t = "?drop\<lparr>tp_expired := tp_expired t + 1\<rparr>"
    have "core ?t = core ?drop" by (simp add: core_def)
    then have "tp_ok n (rs @ ss) ?t" using drop(1) tp_ok_core [of ?t ?drop] by blast
    moreover have "inputs ?t = inputs t" by (simp add: inputs_def)
    moreover have "repair_turn now (out, t, rs) s = Some (out @ [], ?t, rs)" using expired k s by (simp add: repair_turn_def)
    ultimately show ?thesis by (intro exI [of _ "[]"] exI [of _ ?t] exI [of _ rs]) simp
  next
    case hold
    then have "repair_turn now (out, t, rs) s = Some (out @ [], t, rs @ [s])" using k by (simp add: repair_turn_def)
    then show ?thesis using ok by (intro exI [of _ "[]"] exI [of _ t] exI [of _ "rs @ [s]"]) simp
  next
    case repair
    note c = repair_choice_ok [OF repair(3)]
    have pend: "s \<in> set (tp_pending t)" using ok k repair(1) by (auto simp: tp_ok_def pending_ok_def acked_def)
    obtain tx k' t' where e: "transmit t k p now = (tx, k', t')" by (rule prod_cases3)
    note tr = transmit_again [OF ok k pend c(2,1) room e]
    have "repair_turn now (out, t, rs) s = Some (out @ [tx], t', rs @ [s])" using repair k e by (simp add: repair_turn_def)
    then show ?thesis using tr(1,2) by (intro exI [of _ "[tx]"] exI [of _ t'] exI [of _ "rs @ [s]"]) simp
  qed
qed

lemma repair_all_ok:
  "tp_ok n (rs @ ss) t \<Longrightarrow> n + length ss < 2 ^ 64 \<Longrightarrow>
    \<exists>txs t' rs'. repair_all now (out, t, rs) ss = Some (out @ txs, t', rs') \<and> length txs \<le> length ss \<and>
      tp_ok (n + length txs) rs' t' \<and> inputs t' = inputs t"
proof (induction ss arbitrary: n out t rs)
  case Nil
  then show ?case by (intro exI [of _ "[]"]) simp
next
  case (Cons s ss)
  obtain txs t1 rs1 where 1: "repair_turn now (out, t, rs) s = Some (out @ txs, t1, rs1)" "length txs \<le> 1"
    "tp_ok (n + length txs) (rs1 @ ss) t1" "inputs t1 = inputs t"
    using repair_turn_ok [OF Cons.prems(1), of now out] Cons.prems(2) by auto
  obtain txs2 t2 rs2 where 2: "repair_all now (out @ txs, t1, rs1) ss = Some ((out @ txs) @ txs2, t2, rs2)" "length txs2 \<le> length ss"
    "tp_ok (n + length txs + length txs2) rs2 t2" "inputs t2 = inputs t1"
    using Cons.IH [OF 1(3), of "out @ txs"] Cons.prems(2) 1(2) by auto
  show ?case using 1 2 by (intro exI [of _ "txs @ txs2"] exI [of _ t2] exI [of _ rs2]) (simp add: add.assoc)
qed

section \<open>The small queues\<close>

lemma stale_core: "stale t now k = (b, t') \<Longrightarrow> core t' = core t"
  by (auto simp: stale_def Let_def core_def split: if_splits)

lemma tokens_core [simp]: "core (t\<lparr>tp_redundancyTokens := x\<rparr>) = core t"
  by (simp add: core_def)

lemma send_one_ok:
  assumes ok: "tp_ok n (tp_pendingOrder t) t" and w: "waiting c k" and p: "p \<in> set (tp_paths t)" and room: "Suc (Suc n) < 2 ^ 64"
    and fits: "queued t + int (length (tp_pending t)) < int maxPackets" and e: "send_one t now c k p = (txs, t')"
  shows "tp_ok (n + length txs) (tp_pendingOrder t') t' \<and> length txs \<le> 2 \<and> inputs t' = inputs t"
proof -
  obtain tx k1 t1 where e1: "transmit t k p now = (tx, k1, t1)" by (rule prod_cases3)
  note tr = transmit_first [OF ok w p _ fits e1]
  have one: "tp_ok (Suc n) (tp_pendingOrder t1) t1" "inputs t1 = inputs t" using tr(1,6) room by simp_all
  define sz where "sz = int (length (pk_payload k)) + wireOverhead"
  define forced where "forced = (case find_lane t1 (ln_id p) of None \<Rightarrow> False | Some path \<Rightarrow> lane_state path now = LaneSuspect)"
  define t2 where "t2 = (if \<not> forced then t1\<lparr>tp_redundancyTokens := tp_redundancyTokens t1 - of_int sz\<rparr> else t1)"
  have eq: "send_one t now c k p = (if c = classRealtime \<and> (forced \<or> tp_redundancyTokens t1 \<ge> of_int sz)
      then case chooseLane t1 now c sz (ln_id p) True of None \<Rightarrow> ([tx], t1)
        | Some other \<Rightarrow> (case transmit t2 k1 other now of (tx', k, t) \<Rightarrow> ([tx, tx'], t))
      else ([tx], t1))"
    unfolding send_one_def e1 prod.case Let_def sz_def [symmetric] forced_def [symmetric] t2_def [symmetric] ..
  show ?thesis
  proof (cases "txs = [tx] \<and> t' = t1")
    case True
    then show ?thesis using one by simp
  next
    case False
    then obtain other where other: "chooseLane t1 now c sz (ln_id p) True = Some other" "(case transmit t2 k1 other now of (tx', k, t) \<Rightarrow> ([tx, tx'], t)) = (txs, t')"
      using e unfolding eq by (auto split: if_splits option.splits)
    obtain tx' k2 t3 where e2: "transmit t2 k1 other now = (tx', k2, t3)" by (rule prod_cases3)
    have c2: "core t2 = core t1" by (simp add: t2_def)
    then have ok2: "tp_ok (Suc n) (tp_pendingOrder t1) t2" using one tp_ok_core by blast
    have "tp_packets t2 (pk_seq k1) = Some k1" "pk_seq k1 \<in> set (tp_pending t2)" "other \<in> set (tp_paths t2)" "pk_attempts k1 < 4"
      using c2 tr(2,3,4) chooseLane_mem [OF other(1)] room by (simp_all add: core_def)
    note again = transmit_again [OF ok2 this(1,2,4,3) room e2]
    have "tp_pendingOrder t3 = tp_pendingOrder t1" "inputs t3 = inputs t" using again(2,3) c2 one(2) by (simp_all add: core_def inputs_def)
    then show ?thesis using again(1) other(2) e2 by auto
  qed
qed

text \<open>What a turn over one of the queues leaves alone: the receipts and the other queues.\<close>

definition rest_of :: "traffic_class \<Rightarrow> transport \<Rightarrow> receiver list \<times> receipt_window \<times> receipt_window \<times> packet list \<times> (traffic_class \<Rightarrow> fair_packet_queue option)" where
  "rest_of c t = (tp_receivers t, tp_received t, tp_unreported t, if c = classBulk then [] else tp_queue t,
     \<lambda>d. if d = c then None else Some (tp_small t d))"

lemma rest_of_core: "core t' = core t \<Longrightarrow> rest_of c t' = rest_of c t"
  by (auto simp: core_def rest_of_def)

lemma rest_of_inputs: "inputs t' = inputs t \<Longrightarrow> rest_of c t' = rest_of c t"
  by (auto simp: inputs_def rest_of_def)

lemma pop_small_ok:
  assumes ok: "tp_ok n ks t" and c: "c \<noteq> classBulk" and h: "fq_peek (tp_small t c) = Some (Some k)"
  shows "waiting c k" and "\<exists>t'. pop_small t c = Some t' \<and> tp_ok n ks t' \<and> fq_count (tp_small t' c) = fq_count (tp_small t c) - 1 \<and>
    rest_of c t' = rest_of c t \<and> queued t' + int (length (tp_pending t')) < int maxPackets \<and> tp_pendingOrder t' = tp_pendingOrder t \<and>
    tp_paths t' = tp_paths t"
proof -
  have q: "queues_ok (tp_small t) (tp_queue t)" using ok by (simp add: tp_ok_def)
  note hd = small_ok_head(2) [OF queues_okD(1) [OF q c] h]
  then show "waiting c k" by blast
  from hd obtain q' where q': "fq_pop (tp_small t c) = Some q'" "small_ok c q'" "fq_count q' = fq_count (tp_small t c) - 1" by blast
  let ?t = "t\<lparr>tp_small := (tp_small t)(c := q')\<rparr>"
  have "queues_ok (tp_small ?t) (tp_queue ?t)" using queues_ok_upd [OF q q'(2) c] by simp
  moreover have "queued ?t = queued t - 1" using queued_small [OF c, of t q'] q'(3) by simp
  ultimately have "tp_ok n ks ?t" "queued ?t + int (length (tp_pending ?t)) < int maxPackets" using ok by (simp_all add: tp_ok_def)
  moreover have "rest_of c ?t = rest_of c t" by (auto simp: rest_of_def)
  ultimately show "\<exists>t'. pop_small t c = Some t' \<and> tp_ok n ks t' \<and> fq_count (tp_small t' c) = fq_count (tp_small t c) - 1 \<and>
    rest_of c t' = rest_of c t \<and> queued t' + int (length (tp_pending t')) < int maxPackets \<and> tp_pendingOrder t' = tp_pendingOrder t \<and>
    tp_paths t' = tp_paths t"
    using q' by (intro exI [of _ ?t]) (simp add: pop_small_def)
qed

lemma drop_small_core [simp]: "core (drop_small t c b) = core t"
proof -
  have "core (t\<lparr>tp_drops := x, tp_interactiveDrops := y\<rparr>) = core t" for x y by (simp add: core_def)
  then show ?thesis by (simp add: drop_small_def Let_def)
qed

definition turn_ok :: "nat \<Rightarrow> traffic_class \<Rightarrow> transport \<Rightarrow> bool \<Rightarrow> transmission list \<Rightarrow> transport \<Rightarrow> bool" where
  "turn_ok n c t goes txs t' \<longleftrightarrow> tp_ok (n + length txs) (tp_pendingOrder t') t' \<and> length txs \<le> 2 \<and> rest_of c t' = rest_of c t \<and>
     (if goes then fq_count (tp_small t' c) = fq_count (tp_small t c) - 1 else txs = [])"

lemma small_turn_ok:
  assumes ok: "tp_ok n (tp_pendingOrder t) t" and c: "c \<noteq> classBulk" and h: "fq_peek (tp_small t c) = Some (Some k)" and room: "n + 2 < 2 ^ 64"
  shows "\<exists>goes txs t'. small_turn t now c k = Some (goes, txs, t') \<and> turn_ok n c t goes txs t'"
proof -
  define expired where "expired = (now > pk_queueDeadline k)"
  obtain skip t1 where s: "(if expired then (True, t) else if c = classRealtime then stale t now k else (False, t)) = (skip, t1)" by fastforce
  have c1: "core t1 = core t" using s stale_core [of t now k skip t1] by (auto split: if_splits)
  have ok1: "tp_ok n (tp_pendingOrder t1) t1" "fq_peek (tp_small t1 c) = Some (Some k)" "tp_small t1 = tp_small t"
    using ok h c1 tp_ok_core [OF c1] by (simp_all add: core_def)
  obtain t2 where t2: "pop_small t1 c = Some t2" "tp_ok n (tp_pendingOrder t2) t2" "fq_count (tp_small t2 c) = fq_count (tp_small t c) - 1"
      "rest_of c t2 = rest_of c t" "queued t2 + int (length (tp_pending t2)) < int maxPackets" "tp_paths t2 = tp_paths t1"
    using pop_small_ok(2) [OF ok1(1) c ok1(2)] ok1(3) rest_of_core [OF c1] by auto
  have w: "waiting c k" by (rule pop_small_ok(1) [OF ok1(1) c ok1(2)])
  note def = small_turn_def [of t now c k, unfolded Let_def expired_def [symmetric] s prod.case]
  show ?thesis
  proof (cases skip)
    case True
    have cd: "core (drop_small t2 c expired) = core t2" by simp
    then have "tp_small (drop_small t2 c expired) = tp_small t2" by (simp only: core_def prod.inject)
    then have "turn_ok n c t True [] (drop_small t2 c expired)"
      using t2 tp_ok_core [OF cd] rest_of_core [OF cd] core_order [OF cd] by (simp add: turn_ok_def)
    then show ?thesis using True t2(1) by (auto simp: def)
  next
    case False
    show ?thesis
    proof (cases "chooseLane t1 now c (int (length (pk_payload k)) + wireOverhead) 0 False")
      case None
      have "turn_ok n c t False [] t1" using ok1 rest_of_core [OF c1] by (simp add: turn_ok_def)
      then show ?thesis using False None by (auto simp: def)
    next
      case (Some p)
      obtain txs t3 where e: "send_one t2 now c k p = (txs, t3)" by fastforce
      have "p \<in> set (tp_paths t2)" using chooseLane_mem [OF Some] t2(6) by simp
      from send_one_ok [OF t2(2) w this _ t2(5) e] room have "tp_ok (n + length txs) (tp_pendingOrder t3) t3" "length txs \<le> 2" "inputs t3 = inputs t2"
        by simp_all
      then have "turn_ok n c t True txs t3" using t2(3,4) rest_of_inputs [of t3 t2 c] by (simp add: turn_ok_def inputs_def)
      then show ?thesis using False Some t2(1) e by (auto simp: def)
    qed
  qed
qed

lemma send_small_ok:
  "tp_ok n (tp_pendingOrder t) t \<Longrightarrow> c \<noteq> classBulk \<Longrightarrow> nat (fq_count (tp_small t c)) = m \<Longrightarrow> n + 2 * m < 2 ^ 64 \<Longrightarrow>
    \<exists>txs t'. send_small now c t out = Some (out @ txs, t') \<and> length txs \<le> 2 * m \<and> tp_ok (n + length txs) (tp_pendingOrder t') t' \<and>
      rest_of c t' = rest_of c t"
proof (induction m arbitrary: n t out rule: less_induct)
  case (less m)
  have q: "small_ok c (tp_small t c)" using less.prems(1,2) queues_okD(1) [of "tp_small t" "tp_queue t" c] by (simp add: tp_ok_def)
  show ?case
  proof (cases "fq_peek (tp_small t c)")
    case None
    then show ?thesis using small_ok_peek [OF q] by simp
  next
    case (Some h)
    show ?thesis
    proof (cases h)
      case None
      then have "send_small now c t out = Some (out @ [], t)" using Some by (subst send_small.simps) simp
      then show ?thesis using less.prems(1) by (intro exI [of _ "[]"] exI [of _ t]) simp
    next
      case (Some k)
      with \<open>fq_peek (tp_small t c) = Some h\<close> have h: "fq_peek (tp_small t c) = Some (Some k)" by simp
      obtain q' where "small_ok c q'" "fq_count q' = fq_count (tp_small t c) - 1" using small_ok_head(2) [OF q h] by blast
      then have pos: "1 \<le> fq_count (tp_small t c)" using small_ok_head(3) [of c q'] by simp
      then have m: "1 \<le> m" using less.prems(3) by linarith
      obtain goes txs t1 where tu: "small_turn t now c k = Some (goes, txs, t1)" "turn_ok n c t goes txs t1"
        using small_turn_ok [OF less.prems(1,2) h, of now] less.prems(4) m by auto
      have eq: "send_small now c t out = (if goes then send_small now c t1 (out @ txs) else Some (out @ txs, t1))"
        using h tu(1) by (subst send_small.simps) simp
      show ?thesis
      proof (cases goes)
        case False
        then have "txs = []" using tu(2) by (simp add: turn_ok_def)
        then show ?thesis using False eq tu(2) m by (intro exI [of _ txs] exI [of _ t1]) (simp add: turn_ok_def)
      next
        case True
        then have t1: "tp_ok (n + length txs) (tp_pendingOrder t1) t1" "length txs \<le> 2" "rest_of c t1 = rest_of c t"
            "nat (fq_count (tp_small t1 c)) = m - 1"
          using tu(2) less.prems(3) pos by (simp_all add: turn_ok_def)
        have less1: "m - 1 < m" and room1: "n + length txs + 2 * (m - 1) < 2 ^ 64" using m t1(2) less.prems(4) by linarith+
        obtain txs2 t2 where 2: "send_small now c t1 (out @ txs) = Some ((out @ txs) @ txs2, t2)" "length txs2 \<le> 2 * (m - 1)"
            "tp_ok (n + length txs + length txs2) (tp_pendingOrder t2) t2" "rest_of c t2 = rest_of c t1"
          using less.IH [OF less1 t1(1) less.prems(2) t1(4) room1, of "out @ txs"] by blast
        show ?thesis using 2 eq True t1 m by (intro exI [of _ "txs @ txs2"] exI [of _ t2]) (simp add: add.assoc)
      qed
    qed
  qed
qed

section \<open>The bulk queue\<close>

lemma bulk_turn_ok:
  assumes ok: "tp_ok n (tp_pendingOrder t) t" and q: "tp_queue t = k # rest" and room: "Suc n < 2 ^ 64" and e: "bulk_turn t now k rest = (goes, txs, t')"
  shows "tp_ok (n + length txs) (tp_pendingOrder t') t'" and "length txs \<le> 1" and "rest_of classBulk t' = rest_of classBulk t"
    and "if goes then tp_queue t' = rest else txs = []"
proof -
  define t1 where "t1 = t\<lparr>tp_queue := rest\<rparr>"
  have w: "waiting classBulk k" using ok q by (simp add: tp_ok_def queues_ok_def)
  have ok1: "tp_ok n (tp_pendingOrder t1) t1" "queued t1 + int (length (tp_pending t1)) < int maxPackets"
    using ok q by (simp_all add: t1_def tp_ok_def queues_ok_def queued_def)
  have r1: "rest_of classBulk t1 = rest_of classBulk t" by (auto simp: t1_def rest_of_def)
  obtain drp t2 where d: "(if discovering t1 now then (False, t1)
      else case codel_drop (tp_bulkAQM t1) now (time_sub now (pk_created k)) (int (length rest)) (slowestRoundTrip t1 now) of
        (d, aqm) \<Rightarrow> (d, t1\<lparr>tp_bulkAQM := aqm\<rparr>)) = (drp, t2)" by fastforce
  have c2: "core t2 = core t1" using d by (auto simp: core_def split: if_splits prod.splits)
  then have ok2: "tp_ok n (tp_pendingOrder t2) t2" "queued t2 + int (length (tp_pending t2)) < int maxPackets"
      "rest_of classBulk t2 = rest_of classBulk t" "tp_queue t2 = rest" "tp_paths t2 = tp_paths t"
    using ok1 r1 tp_ok_core [OF c2] rest_of_core [OF c2, of classBulk] by (simp_all add: core_def queued_def t1_def)
  note def = bulk_turn_def [of t now k rest, unfolded Let_def t1_def [symmetric] d prod.case]
  have dc: "core (t1\<lparr>tp_drops := x\<rparr>) = core t1" "core (t2\<lparr>tp_drops := x, tp_aqmDrops := y\<rparr>) = core t2" for x y by (simp_all add: core_def)
  have res: "tp_ok (n + length txs) (tp_pendingOrder t') t' \<and> length txs \<le> 1 \<and> rest_of classBulk t' = rest_of classBulk t \<and>
      (if goes then tp_queue t' = rest else txs = [])"
  proof (cases "now > pk_queueDeadline k")
    case True
    then have "goes" "txs = []" "t' = t1\<lparr>tp_drops := tp_drops t + 1\<rparr>" using e by (simp_all add: def t1_def)
    then show ?thesis using ok1 r1 tp_ok_core [OF dc(1)] rest_of_core [OF dc(1)] core_order [OF dc(1)] by (simp add: t1_def)
  next
    case False
    show ?thesis
    proof (cases "chooseLane t now classBulk (int (length (pk_payload k)) + wireOverhead) 0 False")
      case None
      then have "\<not> goes" "txs = []" "t' = t" using e False by (simp_all add: def)
      then show ?thesis using ok by simp
    next
      case (Some p)
      obtain tx k' t3 where tr: "transmit t2 k p now = (tx, k', t3)" by (rule prod_cases3)
      have "p \<in> set (tp_paths t2)" using chooseLane_mem [OF Some] ok2(5) by simp
      note fst = transmit_first [OF ok2(1) w this room ok2(2) tr]
      show ?thesis
      proof (cases drp)
        case True
        then have "goes" "txs = []" "t' = t2\<lparr>tp_drops := tp_drops t2 + 1, tp_aqmDrops := tp_aqmDrops t2 + 1\<rparr>"
          using e False Some by (simp_all add: def)
        then show ?thesis using ok2 tp_ok_core [OF dc(2)] rest_of_core [OF dc(2)] by simp
      next
        case False
        then have "goes" "txs = [tx]" "t' = t3" using e \<open>\<not> now > pk_queueDeadline k\<close> Some tr by (simp_all add: def)
        then show ?thesis using fst(1,6) ok2(3,4) rest_of_inputs [OF fst(6), of classBulk] by (simp add: inputs_def)
      qed
    qed
  qed
  then show "tp_ok (n + length txs) (tp_pendingOrder t') t'" and "length txs \<le> 1" and "rest_of classBulk t' = rest_of classBulk t"
    and "if goes then tp_queue t' = rest else txs = []" by blast+
qed

lemma send_bulk_ok:
  "tp_ok n (tp_pendingOrder t) t \<Longrightarrow> n + length (tp_queue t) < 2 ^ 64 \<Longrightarrow>
    \<exists>txs t'. send_bulk now t out = Some (out @ txs, t') \<and> length txs \<le> length (tp_queue t) \<and> tp_ok (n + length txs) (tp_pendingOrder t') t' \<and>
      rest_of classBulk t' = rest_of classBulk t"
proof (induction "tp_queue t" arbitrary: n t out)
  case Nil
  have "send_bulk now t out = Some (out @ [], t)" using Nil.hyps by (subst send_bulk.simps) simp
  then show ?case using Nil.prems by (intro exI [of _ "[]"] exI [of _ t]) simp
next
  case (Cons k rest)
  obtain goes txs t1 where e: "bulk_turn t now k rest = (goes, txs, t1)" by (rule prod_cases3)
  have "Suc n < 2 ^ 64" using Cons.prems(2) Cons.hyps(2) [symmetric] by simp
  note tu = bulk_turn_ok [OF Cons.prems(1) Cons.hyps(2) [symmetric] this e]
  have eq: "send_bulk now t out = (if goes then send_bulk now t1 (out @ txs) else Some (out @ txs, t1))"
    using e Cons.hyps(2) [symmetric] by (subst send_bulk.simps) simp
  show ?case
  proof (cases goes)
    case False
    then have "txs = []" using tu(4) by simp
    then show ?thesis using False eq tu by (intro exI [of _ "[]"] exI [of _ t1]) simp
  next
    case True
    then have q: "tp_queue t1 = rest" using tu(4) by simp
    have "n + length txs + length (tp_queue t1) < 2 ^ 64" using Cons.prems(2) Cons.hyps(2) [symmetric] tu(2) q by simp
    from Cons.hyps(1) [OF q [symmetric] tu(1) this, of "out @ txs"] obtain txs2 t2 where
      2: "send_bulk now t1 (out @ txs) = Some ((out @ txs) @ txs2, t2)" "length txs2 \<le> length (tp_queue t1)"
      "tp_ok (n + length txs + length txs2) (tp_pendingOrder t2) t2" "rest_of classBulk t2 = rest_of classBulk t1" by blast
    then show ?thesis using eq True tu(2,3) q Cons.hyps(2) [symmetric] by (intro exI [of _ "txs @ txs2"] exI [of _ t2]) (simp add: add.assoc)
  qed
qed

section \<open>Sending and polling\<close>

lemma send_ok:
  assumes ok: "tp_ok n (tp_pendingOrder t) t" and room: "n + 2 * nat (queued t) < 2 ^ 64"
  shows "\<exists>txs t'. send t now out = Some (out @ txs, t') \<and> length txs \<le> 2 * nat (queued t) \<and> tp_ok (n + length txs) (tp_pendingOrder t') t' \<and>
    tp_received t' = tp_received t"
proof -
  have q: "queues_ok (tp_small t) (tp_queue t)" using ok by (simp add: tp_ok_def)
  have rt: "small_ok classRealtime (tp_small t classRealtime)" "small_ok classSmall (tp_small t classSmall)" using q by (simp_all add: queues_ok_def)
  define a b where "a = nat (fq_count (tp_small t classRealtime))" and "b = nat (fq_count (tp_small t classSmall))"
  have sum: "nat (queued t) = length (tp_queue t) + a + b"
    using small_ok_head(3) [OF rt(1)] small_ok_head(3) [OF rt(2)] by (simp add: a_def b_def queued_def)
  obtain h where h: "fq_peek (tp_small t classRealtime) = Some h" using small_ok_head(1) [OF rt(1)] by blast
  define t1 where "t1 = (if h = None then t\<lparr>tp_realtimeLate := zero_time, tp_realtimeSkipping := False\<rparr> else t)"
  have c1: "core t1 = core t" by (simp add: t1_def core_def)
  have s1: "tp_ok n (tp_pendingOrder t1) t1" "nat (fq_count (tp_small t1 classRealtime)) = a" "tp_small t1 = tp_small t" "tp_queue t1 = tp_queue t" "tp_received t1 = tp_received t"
    using ok tp_ok_core [OF c1] core_order [OF c1] c1 by (simp_all add: a_def core_def)
  have "n + 2 * a < 2 ^ 64" using room sum by linarith
  from send_small_ok [OF s1(1) _ s1(2) this, of now out] obtain x t2 where 2: "send_small now classRealtime t1 out = Some (out @ x, t2)"
    "length x \<le> 2 * a" "tp_ok (n + length x) (tp_pendingOrder t2) t2" "rest_of classRealtime t2 = rest_of classRealtime t1" by auto
  have r2: "tp_queue t2 = tp_queue t" "tp_received t2 = tp_received t" "nat (fq_count (tp_small t2 classSmall)) = b"
    using 2(4) s1(3-5) fun_cong [of "\<lambda>d. if d = classRealtime then None else Some (tp_small t2 d)" "\<lambda>d. if d = classRealtime then None else Some (tp_small t1 d)" classSmall]
    by (simp_all add: rest_of_def b_def)
  have "n + length x + 2 * b < 2 ^ 64" using room sum 2(2) by linarith
  from send_small_ok [OF 2(3) _ r2(3) this, of now "out @ x"] obtain y t3 where 3: "send_small now classSmall t2 (out @ x) = Some ((out @ x) @ y, t3)"
    "length y \<le> 2 * b" "tp_ok (n + length x + length y) (tp_pendingOrder t3) t3" "rest_of classSmall t3 = rest_of classSmall t2" by auto
  have r3: "tp_queue t3 = tp_queue t" "tp_received t3 = tp_received t" using 3(4) r2 by (simp_all add: rest_of_def)
  have "n + length x + length y + length (tp_queue t3) < 2 ^ 64" unfolding r3(1) using room sum 2(2) 3(2) by linarith
  from send_bulk_ok [OF 3(3) this, of now "out @ x @ y"] obtain z t4 where 4: "send_bulk now t3 (out @ x @ y) = Some ((out @ x @ y) @ z, t4)"
    "length z \<le> length (tp_queue t3)" "tp_ok (n + length x + length y + length z) (tp_pendingOrder t4) t4" "rest_of classBulk t4 = rest_of classBulk t3" by blast
  have "send t now out = Some (out @ x @ y @ z, t4)" using h 2(1) 3(1) 4(1) by (simp add: send_def t1_def [symmetric] Let_def)
  then show ?thesis using 2(2) 3(2) 4 r3 sum by (intro exI [of _ "x @ y @ z"] exI [of _ t4]) (simp add: add.assoc rest_of_def)
qed

text \<open>What one call of Poll sends at most.\<close>

definition poll_bound :: "transport \<Rightarrow> nat" where
  "poll_bound t = length (tp_receivers t) + length (tp_paths t) + length (tp_pendingOrder t) + 2 * nat (queued t)"

lemma Poll_ok:
  assumes ok: "tp_ok n (tp_pendingOrder t) t" and room: "Suc (n + poll_bound t) < 2 ^ 64"
  shows "\<exists>r t'. Poll visit t now = Some (r, t') \<and> tp_received t' = tp_received t \<and>
    (case r of Inl e \<Rightarrow> tp_ok n (tp_pendingOrder t') t'
     | Inr out \<Rightarrow> tp_ok (n + length out) (tp_pendingOrder t') t' \<and> length out \<le> poll_bound t)"
proof -
  obtain c t1 where c: "checkTime t now = (c, t1)" by fastforce
  have c1: "core t1 = core t" using c by (auto simp: checkTime_def core_def split: if_splits)
  have ok1: "tp_ok n (tp_pendingOrder t1) t1" using ok tp_ok_core [OF c1] core_order [OF c1] by simp
  show ?thesis
  proof (cases c)
    case (Some e)
    then show ?thesis using c ok1 c1 by (simp add: Poll_def core_def)
  next
    case None
    define t2 where "t2 = poll_tokens t1 now"
    have c2: "core t2 = core t" using c1 by (simp add: t2_def)
    have ok2: "tp_ok n (tp_pendingOrder t) t2" using ok tp_ok_core [OF c2] by simp
    obtain o3 t3 rs where f: "foldl (poll_receiver now) ([], t2, []) (tp_receivers t2) = (o3, t3, rs)" by (rule prod_cases3)
    note p3 = poll_receivers_ok [OF ok2 f]
    define t4 where "t4 = t3\<lparr>tp_receivers := rs\<rparr>"
    have ok4: "tp_ok n (tp_pendingOrder t) t4" unfolding t4_def by (rule poll_receipts_ok [OF ok2 f])
    obtain pings t5 where l: "poll_lanes visit t4 now = (pings, t5)" by fastforce
    have len: "length o3 \<le> length (tp_receivers t)" "length (tp_paths t4) = length (tp_paths t)" "tp_queue t4 = tp_queue t" "tp_small t4 = tp_small t"
      "tp_received t4 = tp_received t" "tp_pendingOrder t4 = tp_pendingOrder t"
      using p3 c2 by (simp_all add: core_def t4_def)
    have "Suc n < 2 ^ 64" using room by linarith
    note p5 = poll_lanes_ok [OF ok4 l this]
    define t6 where "t6 = reserve t5 now"
    have p6: "tp_ok (n + length pings) (tp_pendingOrder t) t6" "inputs t6 = inputs t4" "tp_pendingOrder t6 = tp_pendingOrder t"
      using reserve_ok [OF p5(1), of now] p5(3,4) len(6) by (simp_all add: t6_def)
    then have "tp_ok (n + length (o3 @ pings)) (tp_pendingOrder t) t6" using tp_ok_mono [OF p6(1)] by simp
    moreover have "n + length (o3 @ pings) + length (tp_pendingOrder t) < 2 ^ 64"
      using room len(1,2) p5(2) by (simp add: poll_bound_def)
    ultimately obtain reps t7 ks where 7: "repair_all now (o3 @ pings, t6, []) (tp_pendingOrder t6) = Some ((o3 @ pings) @ reps, t7, ks)"
        "length reps \<le> length (tp_pendingOrder t)" "tp_ok (n + length (o3 @ pings) + length reps) ks t7" "inputs t7 = inputs t6"
      using repair_all_ok [of "n + length (o3 @ pings)" "[]" "tp_pendingOrder t" t6 now "o3 @ pings"] p6(3) by auto
    define t8 where "t8 = t7\<lparr>tp_pendingOrder := ks\<rparr>"
    have ok8: "tp_ok (n + length (o3 @ pings) + length reps) (tp_pendingOrder t8) t8" using 7(3) by (simp add: t8_def tp_ok_def queued_def)
    have q8: "queued t8 = queued t" "tp_received t8 = tp_received t"
      using 7(4) p6(2) len(3-5) by (simp_all add: t8_def inputs_def queued_def)
    have "n + length (o3 @ pings) + length reps + 2 * nat (queued t8) < 2 ^ 64"
      unfolding q8 using room len(1,2) p5(2) 7(2) by (simp add: poll_bound_def)
    from send_ok [OF ok8 this, of now "(o3 @ pings) @ reps"] obtain txs t9 where
      9: "send t8 now ((o3 @ pings) @ reps) = Some (((o3 @ pings) @ reps) @ txs, t9)" "length txs \<le> 2 * nat (queued t)"
        "tp_ok (n + length (o3 @ pings) + length reps + length txs) (tp_pendingOrder t9) t9" "tp_received t9 = tp_received t"
      unfolding q8 by blast
    have "Poll visit t now = Some (Inr (((o3 @ pings) @ reps) @ txs), t9)"
      using c None f l 7(1) 9(1) by (simp add: Poll_def Let_def t2_def [symmetric] t4_def [symmetric] t6_def [symmetric] t8_def [symmetric])
    moreover have "length (((o3 @ pings) @ reps) @ txs) \<le> poll_bound t" using len(1,2) p5(2) 7(2) 9(2) by (simp add: poll_bound_def)
    moreover have "tp_ok (n + length (((o3 @ pings) @ reps) @ txs)) (tp_pendingOrder t9) t9" using 9(3) by (simp add: add.assoc)
    ultimately show ?thesis using 9(4) by (intro exI [of _ "Inr (((o3 @ pings) @ reps) @ txs)"] exI [of _ t9]) simp
  qed
qed

end
