(* ===== verification/Receive_Ok.thy ===== *)
theory Receive_Ok
  imports Send_Ok
begin

text \<open>
  Receiving keeps the transport well formed and always returns: data frames and their receipts, and
  the acknowledgement handler.
\<close>

section \<open>Acknowledgements\<close>

lemma acked_marks: "k \<in> set ss \<Longrightarrow> acked (foldl mark_acked pkts ss) k"
proof (induction ss arbitrary: pkts)
  case (Cons s ss)
  then show ?case using acked_mono [OF packets_ack_marks [of "mark_acked pkts s" ss] acked_mark] by auto
qed simp

lemma packets_ack_dom:
  assumes "packets_ack p q"
  shows "dom q = dom p"
proof -
  have "q s = None \<longleftrightarrow> p s = None" for s
  proof (cases "p s")
    case None
    then show ?thesis using packets_ack_none [OF assms] by simp
  next
    case (Some k)
    then have "q s = Some k \<or> q s = Some (k\<lparr>pk_acked := True\<rparr>)" using assms by (simp add: packets_ack_def)
    then show ?thesis using Some by auto
  qed
  then show ?thesis by (simp add: dom_def)
qed

lemma sent_ok_ack:
  assumes ok: "sent_ok p h" and ack: "packets_ack p q"
  shows "sent_ok q h"
  unfolding sent_ok_def
proof (intro allI impI)
  fix s k assume k: "q s = Some k"
  then obtain j where j: "p s = Some j" using packets_ack_none [OF ack] by (cases "p s") auto
  then have "k = j \<or> k = j\<lparr>pk_acked := True\<rparr>" using packets_ack_cases [OF ack j] k by (metis option.inject)
  then show "pk_seq k = s \<and> s \<noteq> 0 \<and> s \<le> h \<and> length (pk_payload k) \<le> maxDatagram \<and> 1 \<le> pk_attempts k \<and> pk_attempts k \<le> 4"
    using ok j by (auto simp: sent_ok_def)
qed

lemma loop_lane_ok:
  assumes "loop_ok n pkts p s" and "lane_ok pkts n p"
  shows "lane_ok (al_packets s) n (al_lane s)"
  by (rule lane_ok_steady [OF loop_okD(2,3,1) [OF assms(1)] lane_ok_grow [OF packets_ack_grow [OF loop_okD(4) [OF assms(1)]] assms(2)]])

lemma through_loop_ok:
  "loop_ok n pkts p s \<Longrightarrow> loop_ok n pkts p (s\<lparr>al_lane := (al_lane s)\<lparr>ln_receivedThrough := x\<rparr>\<rparr>)"
proof -
  have "kept (q\<lparr>ln_receivedThrough := x\<rparr>) = kept q" "rates_ok (q\<lparr>ln_receivedThrough := x\<rparr>) = rates_ok q" for q
    by (simp_all add: kept_def rates_ok_def)
  then show "loop_ok n pkts p s \<Longrightarrow> loop_ok n pkts p (s\<lparr>al_lane := (al_lane s)\<lparr>ln_receivedThrough := x\<rparr>\<rparr>)"
    using flight_ok_kept [of "(al_lane s)\<lparr>ln_receivedThrough := x\<rparr>" "al_lane s"] steady_part_kept [of "(al_lane s)\<lparr>ln_receivedThrough := x\<rparr>" "al_lane s"]
    by (simp add: loop_ok_def)
qed

lemma ack_confirm_some:
  assumes ok: "flight_ok (tp_packets t) n p"
  shows "\<exists>s. ack_confirm visit t p a now fresh = Some s \<and> loop_ok n (tp_packets t) p s \<and> pend_ok (tp_pending t) s"
proof -
  let ?hit = "filter (received a) (tp_pending t)"
  define s0 where "s0 = \<lparr>al_lane = p, al_packets = foldl mark_acked (tp_packets t) ?hit,
              al_pending = filter (\<lambda>k. \<not> received a k) (tp_pending t), al_sample = 0, al_feedback = 0,
              al_newest = ln_newestConfirmed p, al_highSent = zero_time, al_through = 0, al_counted = False\<rparr>"
  have ack: "packets_ack (tp_packets t) (al_packets s0)" by (simp add: s0_def packets_ack_marks)
  have l0: "loop_ok n (tp_packets t) p s0"
    using flight_ok_grow [OF packets_ack_grow [OF ack] ok] ack by (simp add: loop_ok_def s0_def)
  have p0: "pend_ok (tp_pending t) s0" unfolding pend_ok_def by (auto simp: s0_def intro!: acked_marks)
  obtain s1 where s1: "ack_attempts a now fresh s0 (visit 1 (map fst (ln_attempts p))) = Some s1"
    "loop_ok n (tp_packets t) p s1" "pend_ok (tp_pending t) s1" using ack_attempts_some [OF l0 p0] by blast
  define s2 where "s2 = (if al_counted s1 then on_lane (\<lambda>p. p\<lparr>ln_receivedThrough := al_through s1\<rparr>) s1 else s1)"
  have s2: "loop_ok n (tp_packets t) p s2" "pend_ok (tp_pending t) s2"
    using s1(2,3) through_loop_ok [OF s1(2)] by (simp_all add: s2_def pend_ok_def)
  define s3 where "s3 = (if fresh then if ln_receivedThrough (al_lane s2) > 0 \<and> ack_high a = ln_receivedHigh (al_lane s2)
      then confirmArrived (visit 2) a (ln_receivedThrough (al_lane s2)) s2 else s2 else s1)"
  have "loop_ok n (tp_packets t) p s3" "pend_ok (tp_pending t) s3"
    using s1(2,3) s2 confirmArrived_ok [OF s2] by (simp_all add: s3_def)
  moreover have "ack_confirm visit t p a now fresh = Some s3"
    unfolding ack_confirm_def Let_def s0_def [symmetric] s1(1) by (simp add: s2_def [symmetric] s3_def)
  ultimately show ?thesis by blast
qed

lemma pending_ok_ack:
  assumes ok: "pending_ok pkts pending ks" and s: "pend_ok pending s" and ack: "packets_ack pkts (al_packets s)" "packets_ack (al_packets s) pkts'"
  shows "pending_ok pkts' (al_pending s) ks" and "length (al_pending s) \<le> length pending"
proof -
  obtain P where P: "al_pending s = filter P pending" using s by (auto simp: pend_ok_def)
  have d: "dom pkts' = dom pkts" using packets_ack_dom ack by blast
  have "acked pkts' k" if "k \<in> set ks" "k \<notin> set (al_pending s)" for k
  proof (cases "k \<in> set pending")
    case True
    then have "acked (al_packets s) k" using s that(2) by (simp add: pend_ok_def)
    then show ?thesis by (rule acked_mono [OF ack(2)])
  next
    case False
    then have "acked pkts k" using ok that(1) by (simp add: pending_ok_def)
    then show ?thesis by (rule acked_mono [OF packets_ack_trans [OF ack]])
  qed
  then show "pending_ok pkts' (al_pending s) ks" using ok P d by (auto simp: pending_ok_def)
  show "length (al_pending s) \<le> length pending" unfolding P by (rule length_filter_le)
qed

lemma laneLimited_some:
  assumes "queues_ok (tp_small t) (tp_queue t)"
  shows "laneLimited (t\<lparr>tp_demand := m\<rparr>) now \<noteq> None"
proof -
  obtain a b where "fq_peek (tp_small t classRealtime) = Some a" "fq_peek (tp_small t classSmall) = Some b"
    using assms small_ok_head(1) by (metis queues_ok_def)
  then show ?thesis by (simp add: laneLimited_def)
qed

text \<open>The transport after the confirmations of an acknowledgement.\<close>

lemma ack_receipts_ok:
  assumes ok: "tp_ok n ks t" and p: "lane_ok (tp_packets t) n p" "ln_id p \<in> ln_id ` set (tp_paths t)"
    and s: "loop_ok n (tp_packets t) p s" "pend_ok (tp_pending t) s"
    and e: "foldl (receipt_lane visit a now i ph) ([], al_packets s) (enumerate 0 (tp_paths (put_lane t (al_lane s)))) = (lanes, pkts)"
  defines "u \<equiv> (put_lane t (al_lane s))\<lparr>tp_pending := al_pending s, tp_paths := lanes, tp_packets := pkts\<rparr>"
  shows "tp_ok n ks u" and "\<exists>q. find_lane u (ln_id p) = Some q \<and> steady_part q = steady_part p"
proof -
  note lo = loop_okD [OF s(1)]
  have ids: "ln_id (al_lane s) = ln_id p" using lo(2) by (simp add: steady_part_def)
  have "lanes_ok (al_packets s) n (tp_paths (put_lane t (al_lane s)))"
    using ok by (intro lanes_ok_put [OF _ loop_lane_ok [OF s(1) p(1)] packets_ack_grow [OF lo(4)] order_refl]) (simp add: tp_ok_def)
  then have ps: "\<forall>p \<in> set (tp_paths (put_lane t (al_lane s))). lane_ok (al_packets s) n p" by (simp add: lanes_ok_def)
  note r = receipt_lanes_ok [OF ps e]
  have l: "map ln_id lanes = map ln_id (tp_paths t)" "map steady_part lanes = map steady_part (tp_paths (put_lane t (al_lane s)))"
      "\<forall>q \<in> set lanes. lane_ok pkts n q" "packets_ack (al_packets s) pkts" using r by simp_all
  have "pending_ok (tp_packets t) (tp_pending t) ks" using ok by (simp add: tp_ok_def)
  note pend = pending_ok_ack [OF this s(2) lo(4) l(4)]
  have "sent_ok pkts (tp_seq t)" using ok by (intro sent_ok_ack [OF _ packets_ack_trans [OF lo(4) l(4)]]) (simp add: tp_ok_def)
  moreover have "distinct (map ln_id lanes)" unfolding l(1) using ok by (simp add: tp_ok_def lanes_ok_def)
  ultimately show "tp_ok n ks u" using ok l(3) pend by (simp add: u_def tp_ok_def lanes_ok_def queued_def)
  obtain j where j: "j < length (tp_paths t)" "ln_id (tp_paths t ! j) = ln_id p" using p(2) by (auto simp: in_set_conv_nth)
  have len: "length lanes = length (tp_paths t)" using arg_cong [OF l(1), of length] by simp
  have at: "tp_paths (put_lane t (al_lane s)) ! j = al_lane s" using j ids by (simp add: put_lane_def)
  have "length (tp_paths (put_lane t (al_lane s))) = length (tp_paths t)" by (simp add: put_lane_def)
  then have "steady_part (lanes ! j) = steady_part p"
    using j(1) len at lo(2) arg_cong [OF l(2), of "\<lambda>xs. xs ! j"] by simp
  moreover have "ln_id (lanes ! j) = ln_id p" using j len arg_cong [OF l(1), of "\<lambda>xs. xs ! j"] by simp
  moreover have "find_lane u (ln_id (lanes ! j)) = Some (lanes ! j)"
    using j(1) len \<open>distinct (map ln_id lanes)\<close> by (intro find_lane_mem) (simp_all add: u_def)
  ultimately show "\<exists>q. find_lane u (ln_id p) = Some q \<and> steady_part q = steady_part p" by auto
qed

lemma ack_ok:
  assumes ok: "tp_ok n ks t" and p: "p \<in> set (tp_paths t)"
    and a: "fresh \<Longrightarrow> ln_ackedElapsed p \<le> ack_elapsed a" "ack_elapsed a \<le> 0x7FFFFFFFFFFFFFFF"
  shows "\<exists>t'. ack visit t p a now fresh = Some t' \<and> tp_ok n ks t' \<and> tp_pendingOrder t' = tp_pendingOrder t \<and> tp_received t' = tp_received t"
proof -
  define silence where "silence = progressAge (ln_model p) now"
  obtain progressed p1 where p1: "ack_progress p a now fresh = (progressed, p1)" by fastforce
  have k1: "kept p1 = kept p" "rates_ok p1 = rates_ok p" using ack_progress_keeps [of p a now fresh] ack_progress_rates [of p a now fresh] p1 by simp_all
  have "lane_ok (tp_packets t) n p" using ok p by (simp add: tp_ok_def lanes_ok_def)
  then have l1: "lane_ok (tp_packets t) n p1" by (rule lane_ok_alike [OF k1])
  have id1: "ln_id p1 = ln_id p" "ln_ackedElapsed p1 = ln_ackedElapsed p" using k1(1) by (simp_all add: kept_def)
  define backlogged where "backlogged = (queued t > 0 \<or> ln_inflight p1 \<ge> window p1 sdiv 2)"
  have "flight_ok (tp_packets t) n p1" using l1 by (simp add: lane_ok_def)
  then obtain s where s: "ack_confirm visit t p1 a now fresh = Some s" "loop_ok n (tp_packets t) p1 s" "pend_ok (tp_pending t) s"
    using ack_confirm_some by blast
  obtain lanes pkts where f: "foldl (receipt_lane visit a now (ln_id p1) (al_feedback s)) ([], al_packets s) (enumerate 0 (tp_paths (put_lane t (al_lane s)))) = (lanes, pkts)"
    by fastforce
  define u where "u = (put_lane t (al_lane s))\<lparr>tp_pending := al_pending s, tp_paths := lanes, tp_packets := pkts\<rparr>"
  have "ln_id p1 \<in> ln_id ` set (tp_paths t)" using p id1 by simp
  note r = ack_receipts_ok [OF ok l1 this s(2,3) f, folded u_def]
  obtain q where q: "find_lane u (ln_id p1) = Some q" "steady_part q = steady_part p1" using r(2) by blast
  have lq: "lane_ok (tp_packets u) n q" using r(1) find_lane_some [OF q(1)] by (simp add: tp_ok_def lanes_ok_def)
  define q1 where "q1 = (if progressed \<and> silence \<ge> stallSilence \<and> silence < pathLease \<and> al_feedback s \<ge> silence
      then stallEnded (q\<lparr>ln_newestConfirmed := al_newest s\<rparr>) silence else q\<lparr>ln_newestConfirmed := al_newest s\<rparr>)"
  define q2 where "q2 = ack_losses q1 pkts a now fresh (al_highSent s) (al_through s) (al_counted s)"
  have n: "kept (q\<lparr>ln_newestConfirmed := x\<rparr>) = kept q" "rates_ok (q\<lparr>ln_newestConfirmed := x\<rparr>) = rates_ok q" for x
    by (simp_all add: kept_def rates_ok_def)
  have k2: "kept q2 = kept q" "rates_ok q2 = rates_ok q" by (simp_all add: q2_def q1_def lane_keeps lane_rates n)
  have l2: "lane_ok (tp_packets u) n q2" by (rule lane_ok_alike [OF k2 lq])
  have el: "ln_ackedElapsed q2 = ln_ackedElapsed p" using k2(1) q(2) id1 by (simp add: kept_def steady_part_def)
  have eq: "ack visit t p a now fresh = (if \<not> fresh then Some (put_lane u q2) else ack_fresh u q2 a now (al_sample s) backlogged)"
    unfolding ack_def Let_def silence_def [symmetric] p1 prod.case backlogged_def [symmetric] s(1)
    using f q(1) by (simp add: u_def [symmetric] q1_def [symmetric]) (simp add: q2_def)
  have same: "tp_pendingOrder u = tp_pendingOrder t" "tp_received u = tp_received t" by (simp_all add: u_def)
  show ?thesis
  proof (cases fresh)
    case False
    then show ?thesis using eq tp_ok_put_lane [OF r(1) l2] same by simp
  next
    case True
    have "queues_ok (tp_small u) (tp_queue u)" using r(1) by (simp add: tp_ok_def)
    from ack_fresh_some [OF l2 _ a(2) laneLimited_some [OF this], of now "al_sample s" backlogged] obtain z m where
      z: "ack_fresh u q2 a now (al_sample s) backlogged = Some (put_lane (u\<lparr>tp_demand := m\<rparr>) z)" "lane_ok (tp_packets u) n z"
      using a(1) [OF True] el by auto
    have "core (u\<lparr>tp_demand := m\<rparr>) = core u" by (simp add: core_def)
    then have "tp_ok n ks (u\<lparr>tp_demand := m\<rparr>)" using r(1) tp_ok_core by blast
    then have "tp_ok n ks (put_lane (u\<lparr>tp_demand := m\<rparr>) z)" using z(2) by (intro tp_ok_put_lane) simp_all
    then show ?thesis using True eq z(1) same by simp
  qed
qed

section \<open>Data\<close>

lemma put_receiver_simps [simp]:
  "tp_paths (put_receiver t r) = tp_paths t" "tp_packets (put_receiver t r) = tp_packets t" "tp_seq (put_receiver t r) = tp_seq t"
  "tp_pending (put_receiver t r) = tp_pending t" "tp_pendingOrder (put_receiver t r) = tp_pendingOrder t"
  "tp_received (put_receiver t r) = tp_received t" "tp_unreported (put_receiver t r) = tp_unreported t"
  "tp_small (put_receiver t r) = tp_small t" "tp_queue (put_receiver t r) = tp_queue t" "queued (put_receiver t r) = queued t"
  by (simp_all add: put_receiver_def queued_def)

lemma put_receiver_ok:
  assumes ok: "tp_ok n ks t" and r: "rw_ok (rc_receipts r)"
  shows "tp_ok n ks (put_receiver t r)"
proof -
  have "map rc_remoteLane (tp_receivers (put_receiver t r)) = map rc_remoteLane (tp_receivers t)" by (simp add: put_receiver_def)
  then have "receivers_ok (tp_receivers (put_receiver t r)) (tp_received t, tp_unreported t)"
    using ok r by (auto simp: tp_ok_def receivers_ok_def) (auto simp: put_receiver_def)
  then show ?thesis using ok by (simp add: tp_ok_def)
qed

definition datagram_seq :: "control \<Rightarrow> u64" where
  "datagram_seq f = get_u64 (drop (headerBytes + 16) (ct_Payload f))"

text \<open>What a frame leaves of the record of received datagrams: a delivery is noted, and only a delivery.\<close>

definition noted :: "transport \<Rightarrow> transport \<Rightarrow> u64 \<Rightarrow> delivery list \<Rightarrow> bool" where
  "noted t t' s ds \<longleftrightarrow> (if ds = [] then tp_received t' = tp_received t
     else length ds = 1 \<and> fst (mark (tp_received t) s) \<and> tp_received t' = snd (mark (tp_received t) s))"

lemma note_ok:
  assumes ok: "tp_ok n ks t" and s: "s \<noteq> 0" and e: "note_receipt (tp_received t, tp_unreported t) s = (new, (v, u))"
  shows "tp_ok n ks (t\<lparr>tp_received := v, tp_unreported := u\<rparr>)" and "new \<longleftrightarrow> fst (mark (tp_received t) s)"
    and "v = (if new then snd (mark (tp_received t) s) else tp_received t)"
proof -
  have w: "windows_ok (tp_received t, tp_unreported t)" using ok by (simp add: tp_ok_def receivers_ok_def)
  note n = note_receipt_ok [OF w s, unfolded e fst_conv snd_conv]
  show "tp_ok n ks (t\<lparr>tp_received := v, tp_unreported := u\<rparr>)" using ok n(1) by (simp add: tp_ok_def receivers_ok_def queued_def)
  show new: "new \<longleftrightarrow> fst (mark (tp_received t) s)" by (rule n(3))
  have "rw_ok (tp_received t)" using w by (simp add: windows_ok_def)
  then show "v = (if new then snd (mark (tp_received t) s) else tp_received t)" using n(4) new mark_same by auto
qed

lemma accept_data_ok:
  assumes ok: "tp_ok n ks t" and p: "p \<in> set (tp_paths t)" and r: "rw_ok (rc_receipts r)"
  shows "\<exists>ds t'. accept_data t p r f seq order now = (Inr ds, t') \<and> tp_ok n ks t' \<and> tp_pendingOrder t' = tp_pendingOrder t \<and> noted t t' seq ds"
proof -
  obtain a w where aw: "mark (rc_receipts r) (ct_Seq f) = (a, w)" by fastforce
  have w: "rw_ok w" using mark_keeps [OF r, of "ct_Seq f"] aw by simp
  define r0 where "r0 = r\<lparr>rc_receipts := w\<rparr>"
  define r1 where "r1 = (if ct_Seq f > rw_high (rc_receipts r) then r0\<lparr>rc_highAt := now\<rparr> else r0)"
  define sz where "sz = int (length (ct_Payload f)) - int headerBytes - int dataFieldBytes + wireOverhead"
  define r2 where "r2 = r1\<lparr>rc_bytes := rc_bytes r1 + of_int sz, rc_received := rm_add (rc_received r1) now (of_int sz),
      rc_last := now, rc_pending := rc_pending r1 + 1\<rparr>"
  have rw: "rw_ok (rc_receipts r2)" using w by (simp add: r2_def r1_def r0_def)
  define t1 where "t1 = put_receiver t r2"
  have t1: "tp_ok n ks t1" unfolding t1_def by (rule put_receiver_ok [OF ok rw])
  define t2 where "t2 = (if order AND interactiveBit = 0 then put_lane t1 (p\<lparr>ln_bulkReceived := ln_bulkReceived p + 1\<rparr>) else t1)"
  have "lane_ok (tp_packets t1) n p" using ok p by (simp add: t1_def tp_ok_def lanes_ok_def)
  then have "lane_ok (tp_packets t1) n (p\<lparr>ln_bulkReceived := ln_bulkReceived p + 1\<rparr>)"
    by (rule lane_ok_alike [rotated 2]) (simp_all add: kept_def rates_ok_def)
  then have t2: "tp_ok n ks t2" using tp_ok_put_lane [OF t1] t1 by (simp add: t2_def)
  have keep: "tp_received t2 = tp_received t" "tp_unreported t2 = tp_unreported t" "tp_pendingOrder t2 = tp_pendingOrder t" by (simp_all add: t2_def t1_def)
  obtain new v u where nr: "note_receipt (tp_received t, tp_unreported t) seq = (new, (v, u))" by (metis prod_cases3)
  define t3 where "t3 = t2\<lparr>tp_received := v, tp_unreported := u\<rparr>"
  have dup: "tp_ok n ks (z\<lparr>tp_duplicates := x\<rparr>) = tp_ok n ks z" for z x by (rule tp_ok_core) (simp add: core_def)
  let ?d = "\<lparr>dl_Sequence = order AND NOT interactiveBit, dl_Interactive = (order AND interactiveBit \<noteq> 0),
      dl_Payload = drop (headerBytes + 32) (ct_Payload f)\<rparr>"
  have eq: "accept_data t p r f seq order now = (if \<not> a then (Inr [], (put_receiver t r0)\<lparr>tp_duplicates := tp_duplicates t + 1\<rparr>)
      else if seq = 0 then (Inr [], t1) else if \<not> new then (Inr [], t3\<lparr>tp_duplicates := tp_duplicates t3 + 1\<rparr>) else (Inr [?d], t3))"
    unfolding accept_data_def Let_def aw prod.case r0_def [symmetric] r1_def [symmetric] sz_def [symmetric] r2_def [symmetric]
      t1_def [symmetric] t2_def [symmetric] keep nr t3_def [symmetric] by simp
  consider "\<not> a" | "a" "seq = 0" | "a" "seq \<noteq> 0" by blast
  then show ?thesis
  proof cases
    case 1
    then show ?thesis using eq put_receiver_ok [OF ok, of r0] w by (simp add: dup noted_def r0_def)
  next
    case 2
    then show ?thesis using eq t1 by (simp add: noted_def) (simp add: t1_def)
  next
    case 3
    have "tp_ok n ks t3" "new \<longleftrightarrow> fst (mark (tp_received t) seq)" "v = (if new then snd (mark (tp_received t) seq) else tp_received t)"
      using note_ok [OF t2 3(2), unfolded keep, OF nr] by (simp_all add: t3_def)
    then show ?thesis using 3 eq by (cases new) (simp_all add: dup noted_def, simp_all add: t3_def keep)
  qed
qed

text \<open>The outcome of a frame: an error leaves the transport as it was, a result keeps it well formed.\<close>

definition outcome_ok :: "nat \<Rightarrow> transport \<Rightarrow> control \<Rightarrow> delivery list outcome \<Rightarrow> bool" where
  "outcome_ok n t f res \<longleftrightarrow> (case res of (Inl e, t') \<Rightarrow> t' = t
     | (Inr ds, t') \<Rightarrow> tp_ok n (tp_pendingOrder t) t' \<and> tp_pendingOrder t' = tp_pendingOrder t \<and> noted t t' (datagram_seq f) ds)"

lemma outcome_refuse [simp]: "outcome_ok n t f (refuse c msg t)" "outcome_ok n t f (Inl e, t)"
  by (simp_all add: outcome_ok_def refuse_def)

lemma outcome_if: "(b \<Longrightarrow> outcome_ok n t f x) \<Longrightarrow> (\<not> b \<Longrightarrow> outcome_ok n t f y) \<Longrightarrow> outcome_ok n t f (if b then x else y)"
  by simp

lemma receiver_new_ok:
  assumes ok: "tp_ok n ks t" and none: "find_receiver t lane = None"
  shows "tp_ok n ks (t\<lparr>tp_receivers := tp_receivers t @ [new_receiver path lane now]\<rparr>)"
proof -
  have "lane \<notin> rc_remoteLane ` set (tp_receivers t)" using none by (auto simp: find_receiver_def find_None_iff)
  then show ?thesis using ok by (simp add: tp_ok_def receivers_ok_def queued_def new_receiver_def)
qed

lemma receive_data_ok:
  assumes ok: "tp_ok n (tp_pendingOrder t) t" and p: "p \<in> set (tp_paths t)"
  shows "outcome_ok n t f (receive_data t p path h f now)"
proof -
  define seq order where "seq = datagram_seq f" and "order = get_u64 (drop (headerBytes + 24) (ct_Payload f))"
  have acc: "outcome_ok n t f (accept_data t' p r f seq order now)"
    if "tp_ok n (tp_pendingOrder t) t'" "tp_paths t' = tp_paths t" "tp_pendingOrder t' = tp_pendingOrder t" "tp_received t' = tp_received t"
      "rw_ok (rc_receipts r)" for t' r
    using accept_data_ok [OF that(1) _ that(5), of p f seq order now] p that(2-4) by (auto simp: outcome_ok_def noted_def seq_def)
  have last: "outcome_ok n t f (let (r, t) = (case find_receiver t (ph_lane h) of Some r \<Rightarrow> (r, t)
        | None \<Rightarrow> let r = new_receiver path (ph_lane h) now in (r, t\<lparr>tp_receivers := tp_receivers t @ [r]\<rparr>))
      in if rc_path r \<noteq> path then refuse RejectLane ''bond: receiver lane changed without probe'' t
         else accept_data t p r f seq order now)"
  proof (cases "find_receiver t (ph_lane h)")
    case None
    then show ?thesis using acc [OF receiver_new_ok [OF ok None]] by (simp add: Let_def) (simp add: new_receiver_def)
  next
    case (Some r)
    then have "rw_ok (rc_receipts r)" using ok by (auto simp: find_receiver_def find_Some_iff tp_ok_def receivers_ok_def)
    then show ?thesis using Some acc [OF ok] by simp
  qed
  show ?thesis
    unfolding receive_data_def Let_def datagram_seq_def [symmetric] seq_def [symmetric] order_def [symmetric]
    by (intro outcome_if outcome_refuse last [unfolded Let_def])
qed

lemma parseACK_elapsed: "parseACK b = Inr a \<Longrightarrow> ack_elapsed a \<le> 0x7FFFFFFFFFFFFFFF"
  by (auto simp: parseACK_def Let_def maxInt64_def not_less split: if_splits)

lemma receive_ack_ok:
  assumes ok: "tp_ok n (tp_pendingOrder t) t" and p: "p \<in> set (tp_paths t)"
  shows "\<exists>res. receive_ack visit t p path h f now = Some res \<and> outcome_ok n t f res"
proof -
  have lp: "lane_ok (tp_packets t) n p" and d: "distinct (map ln_id (tp_paths t))" using ok p by (simp_all add: tp_ok_def lanes_ok_def)
  have rw: "rw_ok (ln_ackReceipts p)" using lp by (simp add: lane_ok_def)
  obtain a' w where aw: "mark (ln_ackReceipts p) (ct_Seq f) = (a', w)" by fastforce
  show ?thesis
  proof (cases "parseACK (ct_Payload f)")
    case (Inl e)
    then show ?thesis by (simp add: receive_ack_def refuse_def outcome_ok_def)
  next
    case (Inr a)
    define fresh where "fresh = (ct_Seq f > ln_ackRevision p)"
    define impossible where "impossible = (ack_high a > ln_seq p \<or> ack_receivedHigh a > tp_seq t \<or>
                  fresh \<and> (ack_bytes a < ln_ackedBytes p \<or> ack_elapsed a < ln_ackedElapsed p) \<or>
                  \<not> fresh \<and> (ack_bytes a > ln_ackedBytes p \<or> ack_elapsed a > ln_ackedElapsed p))"
    define q where "q = (if fresh then p\<lparr>ln_ackReceipts := w, ln_ackRevision := ct_Seq f\<rparr> else p\<lparr>ln_ackReceipts := w\<rparr>)"
    have q: "lane_ok (tp_packets t) n q" "ln_id q = ln_id p" "ln_ackedElapsed q = ln_ackedElapsed p"
      using lp mark_keeps [OF rw, of "ct_Seq f"] aw
      by (auto simp: q_def lane_ok_def flight_ok_def rates_ok_def elapsed_ok_def)
    have mem: "q \<in> set (tp_paths (put_lane t q))" using p q(2) by (auto simp: put_lane_def)
    note u = tp_ok_put_lane [OF ok q(1)]
    have no: "put_lane t (p\<lparr>ln_ackReceipts := w\<rparr>) = t" if "\<not> a'"
      using put_lane_same [OF d p] mark_same [OF rw, of "ct_Seq f"] aw that by simp
    show ?thesis
    proof (cases "ph_lane h \<noteq> path \<or> ack_observed a \<noteq> tp_epoch t \<or> impossible \<or> \<not> a'")
      case True
      then show ?thesis using Inr no unfolding impossible_def fresh_def by (auto simp: receive_ack_def Let_def aw refuse_def outcome_ok_def)
    next
      case False
      then have el: "fresh \<Longrightarrow> ln_ackedElapsed q \<le> ack_elapsed a" using q(3) by (auto simp: impossible_def)
      from ack_ok [OF u mem el parseACK_elapsed [OF Inr], where fresh = fresh and visit = visit and now = now] obtain t' where
        t': "ack visit (put_lane t q) q a now fresh = Some t'" "tp_ok n (tp_pendingOrder t) t'"
          "tp_pendingOrder t' = tp_pendingOrder t" "tp_received t' = tp_received t" by auto
      have "receive_ack visit t p path h f now = Some (Inr [], t')"
        using False Inr t'(1) unfolding receive_ack_def Let_def aw fresh_def [symmetric] impossible_def [symmetric]
        by (simp add: impossible_def [symmetric] q_def split: if_splits)
      then show ?thesis using t'(2-) by (simp add: outcome_ok_def noted_def)
    qed
  qed
qed

section \<open>Every frame\<close>

lemma receive_ok:
  assumes ok: "tp_ok n (tp_pendingOrder t) t" and c: "checkTime t now = (e, t1)"
  shows "\<exists>res. receive visit t path f now = Some res \<and> outcome_ok n t1 f res"
proof (cases e)
  case None
  have ok1: "tp_ok n (tp_pendingOrder t1) t1" using checkTime_ok [OF ok c] by simp
  show ?thesis
  proof (cases "parseHeader (ct_Payload f)")
    case (Inl z)
    then show ?thesis using None c by (simp add: receive_def outcome_ok_def)
  next
    case (Inr h)
    show ?thesis
    proof (cases "find_lane t1 path")
      case None
      then show ?thesis using \<open>e = None\<close> Inr c by (simp add: receive_def refuse_def outcome_ok_def)
    next
      case (Some p)
      have p: "p \<in> set (tp_paths t1)" using find_lane_some [OF Some] by simp
      obtain res where "receive_ack visit t1 p path h f now = Some res" "outcome_ok n t1 f res" using receive_ack_ok [OF ok1 p] by blast
      moreover obtain x y where "receive_data t1 p path h f now = (x, y)" by fastforce
      ultimately show ?thesis
        using Some \<open>e = None\<close> Inr c receive_data_ok [OF ok1 p, of f path h now] by (cases res) (simp add: receive_def refuse_def)
    qed
  qed
next
  case (Some z)
  then show ?thesis using c by (simp add: receive_def outcome_ok_def)
qed

lemma Receive_ok:
  assumes ok: "tp_ok n (tp_pendingOrder t) t" and c: "checkTime t now = (e, t1)"
  shows "\<exists>r t'. Receive visit t path f now = Some (r, t') \<and> tp_ok n (tp_pendingOrder t') t' \<and>
    (case r of Inl e \<Rightarrow> t' = t1\<lparr>tp_rejected := (tp_rejected t1)(rj_Cause e := tp_rejected t1 (rj_Cause e) + 1)\<rparr>
     | Inr ds \<Rightarrow> noted t t' (datagram_seq f) ds)"
proof -
  obtain r t2 where r: "receive visit t path f now = Some (r, t2)" "outcome_ok n t1 f (r, t2)" using receive_ok [OF ok c] by fast
  have ok1: "tp_ok n (tp_pendingOrder t1) t1" using checkTime_ok [OF ok c] by simp
  have same: "tp_received t1 = tp_received t" using c by (auto simp: checkTime_def split: if_splits)
  show ?thesis
  proof (cases r)
    case (Inl z)
    have "tp_ok n (tp_pendingOrder t1) (t1\<lparr>tp_rejected := x\<rparr>)" for x using ok1 by (subst tp_ok_core [of _ t1]) (simp_all add: core_def)
    then show ?thesis using r Inl by (simp add: Receive_def outcome_ok_def)
  next
    case (Inr ds)
    then show ?thesis using r same by (simp add: Receive_def outcome_ok_def noted_def split: if_splits)
  qed
qed

end
