(* ===== verification/Transport_Runs.thy ===== *)
theory Transport_Runs
  imports Receive_Ok
begin

text \<open>
  Whole runs of a transport: every sequence of its operations from \<^const>\<open>New\<close> on, what holds of every
  state reached, and the promises of the component that rest on it.
\<close>

section \<open>Runs\<close>

definition delivered :: "control \<Rightarrow> rejection_error + delivery list \<Rightarrow> u64 list" where
  "delivered f r = (case r of Inl _ \<Rightarrow> [] | Inr ds \<Rightarrow> map (\<lambda>_. datagram_seq f) ds)"

text \<open>
  The states of a transport, with the number of frames it sent and the sequences of the datagrams it
  delivered since the last change of the remote epoch. A \<^const>\<open>Poll\<close> is a step only while the sequences
  cannot run out.
\<close>

inductive reach :: "nat \<Rightarrow> u64 list \<Rightarrow> transport \<Rightarrow> bool" where
  start: "New ep = Some t \<Longrightarrow> reach 0 [] t"
| remote: "reach n ds t \<Longrightarrow> SetRemote t ep adopted = (changed, t') \<Longrightarrow>
    reach (if changed then 0 else n) (if changed then [] else ds) t'"
| path: "reach n ds t \<Longrightarrow> Path t i remoteID rtt now = (r, t') \<Longrightarrow> reach n ds t'"
| disable: "reach n ds t \<Longrightarrow> reach n ds (Disable t i)"
| enqueue: "reach n ds t \<Longrightarrow> Enqueue t payload metadata now = Some (r, t') \<Longrightarrow> reach n ds t'"
| poll: "reach n ds t \<Longrightarrow> Suc (n + poll_bound t) < 2 ^ 64 \<Longrightarrow> Poll visit t now = Some (r, t') \<Longrightarrow>
    reach (n + (case r of Inl e \<Rightarrow> 0 | Inr out \<Rightarrow> length out)) ds t'"
| arrive: "reach n ds t \<Longrightarrow> Receive visit t i f now = Some (r, t') \<Longrightarrow> reach n (ds @ delivered f r) t'"

lemma Receive_noted:
  assumes ok: "tp_ok n (tp_pendingOrder t) t" and e: "Receive visit t i f now = Some (r, t')"
  shows "tp_ok n (tp_pendingOrder t') t'" and "case r of Inl e \<Rightarrow> tp_received t' = tp_received t | Inr ds \<Rightarrow> noted t t' (datagram_seq f) ds"
proof -
  obtain c t1 where c: "checkTime t now = (c, t1)" by fastforce
  then have "tp_received t1 = tp_received t" by (auto simp: checkTime_def split: if_splits)
  then show "tp_ok n (tp_pendingOrder t') t'" "case r of Inl e \<Rightarrow> tp_received t' = tp_received t | Inr ds \<Rightarrow> noted t t' (datagram_seq f) ds"
    using Receive_ok [OF ok c, of visit i f] e by (auto split: sum.splits)
qed

lemma step_received:
  "SetRemote t ep adopted = (changed, t') \<Longrightarrow> tp_received t' = (if changed then no_receipts else tp_received t)"
  "Path t i remoteID rtt now = (c, t') \<Longrightarrow> tp_received t' = tp_received t"
  "tp_received (Disable t i) = tp_received t"
  "Enqueue t payload metadata now = Some (e, t') \<Longrightarrow> tp_received t' = tp_received t"
  by (auto simp: SetRemote_def Path_def checkTime_def Disable_def Enqueue_def small_drop_def Let_def bind_eq_Some_conv
      split: if_splits option.splits prod.splits)

lemma reach_ok: "reach n ds t \<Longrightarrow> tp_ok n (tp_pendingOrder t) t \<and> tp_received t = marks no_receipts ds"
proof (induction rule: reach.induct)
  case (start ep t)
  then show ?case using New_ok by (auto simp: New_def marks_def split: if_splits)
next
  case (remote n ds t ep adopted changed t')
  then show ?case using SetRemote_ok [OF _ remote.hyps(2)] step_received(1) [OF remote.hyps(2)] by (simp add: marks_def)
next
  case (path n ds t i remoteID rtt now r t')
  then show ?case using Path_ok [OF _ path.hyps(2)] step_received(2) [OF path.hyps(2)] by simp
next
  case (disable n ds t i)
  then show ?case using Disable_ok step_received(3) by simp
next
  case (enqueue n ds t payload metadata now r t')
  then show ?case using Enqueue_ok [of n t payload metadata now] step_received(4) [OF enqueue.hyps(2)] by auto
next
  case (poll n ds t visit now r t')
  then show ?case using Poll_ok [OF _ poll.hyps(2), of visit now] by (auto split: sum.splits)
next
  case (arrive n ds t visit i f now r t')
  then have "tp_ok n (tp_pendingOrder t) t" by simp
  note r = Receive_noted [OF this arrive.hyps(2)]
  have "noted t t' (datagram_seq f) dl \<Longrightarrow> tp_received t' = marks no_receipts (ds @ map (\<lambda>_. datagram_seq f) dl)" for dl
    using arrive.IH by (cases dl) (auto simp: noted_def marks_def)
  then show ?case using r arrive.IH by (auto simp: delivered_def split: sum.splits)
qed

lemma reach_lane: "reach n ds t \<Longrightarrow> p \<in> set (tp_paths t) \<Longrightarrow> lane_ok (tp_packets t) n p"
  using reach_ok by (auto simp: tp_ok_def lanes_ok_def)

lemma reach_new:
  assumes "reach n ds t" and "Receive visit t i f now = Some (Inr dl, t')"
  shows "dl = [] \<or> length dl = 1 \<and> datagram_seq f \<notin> set ds"
proof -
  have ok: "tp_ok n (tp_pendingOrder t) t" "tp_received t = marks no_receipts ds" using reach_ok [OF assms(1)] by simp_all
  have "noted t t' (datagram_seq f) dl" using Receive_noted(2) [OF ok(1) assms(2)] by simp
  then show ?thesis using ok(2) marks_accept [of ds "datagram_seq f"] by (auto simp: noted_def split: if_splits)
qed

lemma reach_distinct: "reach n ds t \<Longrightarrow> distinct ds"
proof (induction rule: reach.induct)
  case (arrive n ds t visit i f now r t')
  show ?case
  proof (cases r)
    case (Inr dl)
    then have "dl = [] \<or> length dl = 1 \<and> datagram_seq f \<notin> set ds" using reach_new arrive.hyps by blast
    then show ?thesis using arrive.IH Inr by (auto simp: delivered_def length_Suc_conv)
  qed (use arrive.IH in \<open>simp add: delivered_def\<close>)
qed simp_all

section \<open>From one transport to the other\<close>

text \<open>The frame of the first transmission of a datagram.\<close>

definition next_order :: "transport \<Rightarrow> packet \<Rightarrow> u64" where
  "next_order t k = (if pk_interactive k then (tp_interactiveSeq t + 1) OR interactiveBit else tp_bulkSeq t + 1)"

lemma transmit_frame:
  assumes e: "transmit t k p now = (tx, k', t')" and k: "pk_seq k = 0"
  shows "tx_Frame tx = dataFrame (tp_epoch t) (tp_remote t) (ln_id p) (ln_seq p + 1) (tp_seq t + 1) (next_order t k) (pk_payload k)"
proof -
  obtain k1 p1 t1 where f: "first_transmit t k p now = (k1, p1, t1)" by (rule prod_cases3)
  note sh = first_transmit_shape [OF f]
  have o: "pk_order k1 = next_order t k" "tp_epoch t1 = tp_epoch t" "tp_remote t1 = tp_remote t"
    using f [symmetric] unfolding first_transmit_def Let_def next_order_def
    by (cases "pk_class k"; cases "pk_interactive k"; simp)+
  have l: "ln_id p1 = ln_id p" "ln_seq p1 = ln_seq p" using sh(6) by (simp_all add: kept_def)
  have lt: "ln_id (lane_transmit p1 k1 now) = ln_id p" "ln_seq (lane_transmit p1 k1 now) = ln_seq p + 1"
    using lane_transmit_shape(2,6) l by (simp_all add: steady_part_def)
  show ?thesis using e [symmetric] k unfolding transmit_def by (simp add: f Let_def o sh lt)
qed

lemma dataFrame_fields:
  defines "b ep dst lane attempt s order payload \<equiv> ct_Payload (dataFrame ep dst lane attempt s order payload)"
  shows "length (b ep dst lane attempt s order payload) = headerBytes + 32 + length payload"
    and "get_u64 (drop headerBytes (b ep dst lane attempt s order payload)) = ep_Boot dst"
    and "get_u64 (drop (headerBytes + 8) (b ep dst lane attempt s order payload)) = ep_Generation dst"
    and "get_u64 (drop (headerBytes + 16) (b ep dst lane attempt s order payload)) = s"
    and "get_u64 (drop (headerBytes + 24) (b ep dst lane attempt s order payload)) = order"
    and "drop (headerBytes + 32) (b ep dst lane attempt s order payload) = payload"
    and "epoch_set ep \<Longrightarrow> parseHeader (b ep dst lane attempt s order payload) = Inr \<lparr>ph_epoch = ep, ph_lane = lane\<rparr>"
  by (simp_all add: b_def dataFrame_def Let_def parseHeader_appendHeader)

lemma succ_u64: "unat (x :: u64) < 2 ^ 64 - 1 \<Longrightarrow> unat (x + 1) = unat x + 1 \<and> x + 1 \<noteq> 0"
proof -
  assume "unat x < 2 ^ 64 - 1"
  then have "unat (x + 1) = unat x + 1" by (simp add: unat_plus_nowrap)
  then show ?thesis by (metis add_is_0 unat_0 zero_neq_one)
qed

lemma order_bits:
  assumes "unat (x :: u64) < 2 ^ 63"
  shows "x AND NOT interactiveBit = x" "x AND interactiveBit = 0" "(x OR interactiveBit) AND NOT interactiveBit = x"
    "(x OR interactiveBit) AND interactiveBit \<noteq> 0"
proof -
  have "uint x < 2 ^ 63" using of_nat_less_iff [where 'a = int, THEN iffD2, OF assms] by simp
  then have "\<not> bit (uint x) 63" by (simp add: bit_iff_odd)
  then have b: "\<not> bit x 63" by (simp add: bit_uint_iff)
  have i: "bit interactiveBit n \<longleftrightarrow> n = 63" for n unfolding interactiveBit_def bit_push_bit_iff by (auto simp: bit_1_iff)
  show "x AND NOT interactiveBit = x" "(x OR interactiveBit) AND NOT interactiveBit = x" "x AND interactiveBit = 0"
    using b by (auto intro!: bit_word_eqI simp: bit_simps i)
  have "bit ((x OR interactiveBit) AND interactiveBit) 63" by (simp add: bit_simps i)
  then show "(x OR interactiveBit) AND interactiveBit \<noteq> 0" by (metis bit_0_eq bot_apply bot_bool_def)
qed

lemma accept_data_delivers:
  assumes a: "fst (mark (rc_receipts r) (ct_Seq f))" and s: "seq \<noteq> 0" and new: "fst (mark (tp_received t) seq)"
  shows "fst (accept_data t p r f seq order now) = Inr [\<lparr>dl_Sequence = order AND NOT interactiveBit,
    dl_Interactive = (order AND interactiveBit \<noteq> 0), dl_Payload = drop (headerBytes + 32) (ct_Payload f)\<rparr>]"
proof -
  have "fst (note_receipt (tp_received t, u) seq)" for u
    using new by (simp add: note_receipt_def case_prod_beta Let_def)
  then show ?thesis using a s by (simp add: accept_data_def Let_def case_prod_beta)
qed

lemma receive_data_delivers:
  fixes payload :: bytes
  assumes f: "f = dataFrame ep (tp_epoch t) lane attempt s order payload"
    and lane: "ln_remoteID p = lane" and h: "ph_lane h = lane"
    and fields: "s \<noteq> 0" "order AND NOT interactiveBit \<noteq> 0" "payload \<noteq> []" "length payload \<le> maxDatagram"
    and first: "case find_receiver t lane of None \<Rightarrow> True | Some r \<Rightarrow> rc_path r = path \<and> fst (mark (rc_receipts r) attempt)"
    and a: "attempt \<noteq> 0" and new: "fst (mark (tp_received t) s)"
  shows "fst (receive_data t p path h f now) = Inr [\<lparr>dl_Sequence = order AND NOT interactiveBit,
    dl_Interactive = (order AND interactiveBit \<noteq> 0), dl_Payload = payload\<rparr>]"
proof -
  note d = dataFrame_fields [of ep "tp_epoch t" lane attempt s order payload, folded f]
  have seq: "ct_Seq f = attempt" by (simp add: f dataFrame_def Let_def)
  have e: "\<lparr>ep_Boot = ep_Boot (tp_epoch t), ep_Generation = ep_Generation (tp_epoch t)\<rparr> = tp_epoch t" by simp
  have len: "length (ct_Payload f) \<noteq> headerBytes + 32" using d(1) fields(3) by simp
  define new_r where "new_r = new_receiver path lane now"
  have nr: "rc_path new_r = path" "fst (mark (rc_receipts new_r) attempt)"
    using a mark_new_high [OF rw_ok_no_receipts, of attempt] by (simp_all add: new_r_def new_receiver_def) (simp add: no_receipts_def word_neq_0_conv)
  show ?thesis
  proof (cases "find_receiver t lane")
    case None
    then show ?thesis
      unfolding receive_data_def Let_def d e h lane [symmetric]
      using fields len nr lane d(1) accept_data_delivers [of new_r f s "t\<lparr>tp_receivers := tp_receivers t @ [new_r]\<rparr>" p order now, unfolded seq d] new
      by (simp add: new_r_def [symmetric])
  next
    case (Some r)
    then show ?thesis
      unfolding receive_data_def Let_def d e h lane [symmetric]
      using fields len first lane d(1) accept_data_delivers [of r f s t p order now, unfolded seq d] new by simp
  qed
qed

lemma Receive_delivers:
  fixes payload :: bytes
  assumes f: "f = dataFrame (tp_remote t) (tp_epoch t) lane attempt s order payload" and ep: "epoch_set (tp_remote t)"
    and time: "tp_lastTime t \<le> now" and lane: "find_lane t path = Some p" "up p now" "ln_remoteID p = lane"
    and fields: "s \<noteq> 0" "order AND NOT interactiveBit \<noteq> 0" "payload \<noteq> []" "length payload \<le> maxDatagram"
    and first: "case find_receiver t lane of None \<Rightarrow> True | Some r \<Rightarrow> rc_path r = path \<and> fst (mark (rc_receipts r) attempt)"
    and a: "attempt \<noteq> 0" and new: "fst (mark (tp_received t) s)"
  shows "\<exists>t'. Receive visit t path f now = Some (Inr [\<lparr>dl_Sequence = order AND NOT interactiveBit,
    dl_Interactive = (order AND interactiveBit \<noteq> 0), dl_Payload = payload\<rparr>], t')"
proof -
  define t1 where "t1 = t\<lparr>tp_lastTime := now\<rparr>"
  have c: "checkTime t now = (None, t1)" using time by (simp add: checkTime_def t1_def)
  have same: "tp_remote t1 = tp_remote t" "tp_epoch t1 = tp_epoch t" "find_lane t1 path = find_lane t path"
    "find_receiver t1 lane = find_receiver t lane" "tp_received t1 = tp_received t"
    by (simp_all add: t1_def find_lane_def find_receiver_def)
  define h where "h = \<lparr>ph_epoch = tp_remote t, ph_lane = lane\<rparr>"
  have ph: "parseHeader (ct_Payload f) = Inr h" unfolding f h_def using ep by (rule dataFrame_fields(7))
  have ct: "ct_Seq f = attempt" "ct_ControlType f = DataType" by (simp_all add: f dataFrame_def Let_def)
  have "fst (receive_data t1 p path h f now) = Inr [\<lparr>dl_Sequence = order AND NOT interactiveBit,
    dl_Interactive = (order AND interactiveBit \<noteq> 0), dl_Payload = payload\<rparr>]"
    using first new f by (intro receive_data_delivers [OF _ lane(3) _ fields _ a]) (simp_all add: same h_def)
  moreover have "receive visit t path f now = Some (receive_data t1 p path h f now)"
    using c ph ct a lane by (simp add: receive_def same h_def)
  ultimately show ?thesis by (cases "receive_data t1 p path h f now") (simp add: Receive_def)
qed

section \<open>A sample run\<close>

definition here :: epoch where "here = \<lparr>ep_Boot = 1, ep_Generation = 1\<rparr>"
definition there :: epoch where "there = \<lparr>ep_Boot = 2, ep_Generation = 1\<rparr>"

definition sample_datagram :: packet where
  "sample_datagram = (sample_packet no_flow 0)\<lparr>pk_order := 0, pk_payload := [1, 2, 3]\<rparr>"

text \<open>A transport that knows its peer and has one path.\<close>

definition opened :: "epoch \<Rightarrow> epoch \<Rightarrow> transport" where
  "opened ep remote = snd (Path (snd (SetRemote (the (New ep)) remote False)) 3 3 (20 * millisecond) 10)"

lemma opened_reach: "epoch_set ep \<Longrightarrow> reach 0 [] (opened ep remote)"
proof -
  assume "epoch_set ep"
  then obtain t where t: "New ep = Some t" by (simp add: New_def epoch_set_def)
  obtain c t1 where c: "SetRemote t remote False = (c, t1)" by fastforce
  have "reach 0 [] t1" using reach.remote [OF reach.start [OF t] c] by simp
  then show ?thesis unfolding opened_def t option.sel c snd_conv
    by (rule reach.path [where r = "fst (Path t1 3 3 (20 * millisecond) 10)"]) simp
qed

lemma Path_first:
  assumes "tp_paths t = []" and "tp_lastTime t \<le> now" and "now \<noteq> zero_time" and "0 < rtt"
  shows "\<exists>p. Path t i r rtt now = (None, t\<lparr>tp_lastTime := now, tp_paths := [p]\<rparr>) \<and> ln_id p = i \<and> ln_remoteID p = r \<and> ln_seq p = 0 \<and> ln_lease p = now"
proof -
  define p where "p = (new_lane i r rtt now)\<lparr>ln_lastTransmit := now,
      ln_nextBaseline := now + (baselineInterval + int (unat ((i XOR drop_bit 8 i) AND 255)) * baselineStagger), ln_lease := now\<rparr>"
  have "Path t i r rtt now = (None, t\<lparr>tp_lastTime := now, tp_paths := [p]\<rparr>)"
    using assms by (simp add: Path_def checkTime_def find_lane_def Let_def p_def)
  moreover have "ln_id p = i" "ln_remoteID p = r" "ln_seq p = 0" "ln_lease p = now" by (simp_all add: p_def new_lane_def)
  ultimately show ?thesis by blast
qed

lemma opened_open:
  assumes "ep \<in> {here, there}" "remote \<in> {here, there}"
  shows "\<exists>p. tp_paths (opened ep remote) = [p] \<and> ln_id p = 3 \<and> ln_remoteID p = 3 \<and> ln_seq p = 0 \<and> up p 20"
    and "tp_epoch (opened ep remote) = ep" "tp_remote (opened ep remote) = remote" "tp_lastTime (opened ep remote) = 10"
    and "tp_seq (opened ep remote) = 0" "tp_bulkSeq (opened ep remote) = 0" "tp_interactiveSeq (opened ep remote) = 0"
    and "tp_receivers (opened ep remote) = []" "tp_received (opened ep remote) = no_receipts" "poll_bound (opened ep remote) = 1"
proof -
  obtain t where t: "New ep = Some t" using assms by (auto simp: New_def here_def there_def)
  then have f: "tp_epoch t = ep" "tp_remote t = no_epoch" "tp_paths t = []" "tp_lastTime t = zero_time" "queued t = 0" by (auto simp: New_def queued_def fq_empty_def split: if_splits)
  define t1 where "t1 = snd (SetRemote t remote False)"
  have t1: "tp_epoch t1 = ep" "tp_remote t1 = remote" "tp_paths t1 = []" "tp_lastTime t1 = zero_time" "tp_seq t1 = 0" "tp_bulkSeq t1 = 0"
    "tp_interactiveSeq t1 = 0" "tp_receivers t1 = []" "tp_received t1 = no_receipts" "queued t1 = 0" "tp_pendingOrder t1 = []"
    using assms(2) f by (auto simp: t1_def SetRemote_def here_def there_def no_epoch_def queued_def)
  obtain p where p: "Path t1 3 3 (20 * millisecond) 10 = (None, t1\<lparr>tp_lastTime := 10, tp_paths := [p]\<rparr>)"
    "ln_id p = 3" "ln_remoteID p = 3" "ln_seq p = 0" "ln_lease p = 10"
    using Path_first [of t1 10 "20 * millisecond" 3 3] t1(3,4) by (auto simp: millisecond_def)
  have o: "opened ep remote = t1\<lparr>tp_lastTime := 10, tp_paths := [p]\<rparr>" by (simp add: opened_def t t1_def [symmetric] p(1))
  have "up p 20" using p(5) by (simp add: up_def time_sub_def pathLease_def second_def)
  then show "\<exists>p. tp_paths (opened ep remote) = [p] \<and> ln_id p = 3 \<and> ln_remoteID p = 3 \<and> ln_seq p = 0 \<and> up p 20" using p by (simp add: o)
  show "tp_epoch (opened ep remote) = ep" "tp_remote (opened ep remote) = remote" "tp_lastTime (opened ep remote) = 10"
    "tp_seq (opened ep remote) = 0" "tp_bulkSeq (opened ep remote) = 0" "tp_interactiveSeq (opened ep remote) = 0"
    "tp_receivers (opened ep remote) = []" "tp_received (opened ep remote) = no_receipts" by (simp_all add: o t1)
  have "queued (opened ep remote) = queued t1" by (simp add: o queued_def)
  then show "poll_bound (opened ep remote) = 1" using t1 by (simp add: poll_bound_def) (simp add: o t1)
qed

lemma epoch_sets: "epoch_set here" "epoch_set there"
  by (simp_all add: epoch_set_def here_def there_def)

lemma sample_delivery: "\<exists>t. reach 0 [1] t"
proof -
  let ?f = "dataFrame there here 3 1 1 1 [7]" and ?t = "opened here there"
  obtain p where p: "tp_paths ?t = [p]" "ln_id p = 3" "ln_remoteID p = 3" "up p 20" using opened_open(1) [of here there] by auto
  have "fst (mark no_receipts 1)" by (rule mark_new_high) (simp, simp add: no_receipts_def)
  then have "\<exists>t'. Receive (\<lambda>_ ks. ks) ?t 3 ?f 20 = Some (Inr [\<lparr>dl_Sequence = 1 AND NOT interactiveBit,
      dl_Interactive = (1 AND interactiveBit \<noteq> 0), dl_Payload = [7]\<rparr>], t')"
    using p by (intro Receive_delivers [where s = 1 and attempt = 1 and lane = 3 and p = p]) (simp_all add: opened_open epoch_sets find_lane_def find_receiver_def maxDatagram_def order_bits)
  then obtain d t' where e: "Receive (\<lambda>_ ks. ks) ?t 3 ?f 20 = Some (Inr [d], t')" by blast
  have "reach 0 ([] @ delivered ?f (Inr [d])) t'" by (rule reach.arrive [OF opened_reach [OF epoch_sets(1)] e])
  then show ?thesis using dataFrame_fields(4) by (auto simp: delivered_def datagram_seq_def)
qed

section \<open>What holds of every reachable transport\<close>

text \<open>
  C7: In every reachable state the bytes in flight of a lane, in total and for each traffic class,
  are the sizes of exactly those of its attempts that are not yet released.
\<close>

theorem inflight_exact:
  assumes "reach n ds t" and "p \<in> set (tp_paths t)"
  shows "ln_inflight p = (\<Sum>(s, a) \<leftarrow> ln_attempts p. if at_released a then 0 else at_bytes a) \<and>
    ln_classInflight p c = (\<Sum>(s, a) \<leftarrow> ln_attempts p. if \<not> at_released a \<and> in_class (tp_packets t) c a then at_bytes a else 0)"
proof -
  have w: "weight P \<circ> snd = (\<lambda>(s, a). if \<not> at_released a \<and> P a then at_bytes a else 0)" for P by (auto simp: weight_def)
  have u: "(\<lambda>(s :: u64, a). if \<not> at_released a \<and> True then at_bytes a else 0) = (\<lambda>(s, a). if at_released a then 0 else at_bytes a)" by auto
  show ?thesis using reach_lane [OF assms] by (simp add: lane_ok_def flight_ok_def flight_sum_def w u [simplified])
qed

theorem inflight_exact_witness:
  "\<exists>p. reach 0 [] (opened here there) \<and> p \<in> set (tp_paths (opened here there)) \<and>
    ln_inflight p = (\<Sum>(s, a) \<leftarrow> ln_attempts p. if at_released a then 0 else at_bytes a)"
proof -
  obtain p where p: "p \<in> set (tp_paths (opened here there))" using opened_open(1) [of here there] by auto
  then show ?thesis using inflight_exact [OF opened_reach [OF epoch_sets(1)] p, of classBulk] opened_reach [OF epoch_sets(1)] by blast
qed

text \<open>
  C21: In every reachable state nothing dangles: lanes, receivers and pending keys are distinct, every
  pending key and every packet an attempt carries is stored, a stored packet has the sequence it is
  stored under, and a packet that left the pending set without leaving the order is acknowledged.
\<close>

theorem transport_wellformed:
  assumes "reach n ds t"
  shows "distinct (map ln_id (tp_paths t)) \<and> distinct (map rc_remoteLane (tp_receivers t)) \<and> distinct (tp_pending t) \<and>
    distinct (tp_pendingOrder t) \<and> set (tp_pending t) \<union> set (tp_pendingOrder t) \<subseteq> dom (tp_packets t) \<and>
    (\<forall>s k. tp_packets t s = Some k \<longrightarrow> pk_seq k = s \<and> 0 < s \<and> s \<le> tp_seq t \<and> (s \<in> set (tp_pendingOrder t) - set (tp_pending t) \<longrightarrow> pk_acked k)) \<and>
    (\<forall>p \<in> set (tp_paths t). distinct (map fst (ln_attempts p)) \<and>
      (\<forall>(s, a) \<in> set (ln_attempts p). s \<le> ln_seq p \<and> (\<forall>k. at_packet a = Some k \<longrightarrow> k \<in> dom (tp_packets t))))"
proof -
  have "distinct (map fst (ln_attempts p)) \<and> (\<forall>(s, a) \<in> set (ln_attempts p). s \<le> ln_seq p \<and> (\<forall>k. at_packet a = Some k \<longrightarrow> k \<in> dom (tp_packets t)))"
    if "p \<in> set (tp_paths t)" for p
    using reach_lane [OF assms that] unfolding lane_ok_def flight_ok_def attempt_ok_def by fast
  moreover have ok: "sent_ok (tp_packets t) (tp_seq t)" "pending_ok (tp_packets t) (tp_pending t) (tp_pendingOrder t)"
    "distinct (map ln_id (tp_paths t))" "distinct (map rc_remoteLane (tp_receivers t))"
    using reach_ok [OF assms] by (simp_all add: tp_ok_def lanes_ok_def receivers_ok_def)
  moreover have "pk_seq k = s \<and> 0 < s \<and> s \<le> tp_seq t \<and> (s \<in> set (tp_pendingOrder t) - set (tp_pending t) \<longrightarrow> pk_acked k)"
    if "tp_packets t s = Some k" for s k
    using ok(1,2) that by (auto simp: sent_ok_def pending_ok_def acked_def word_neq_0_conv)
  ultimately show ?thesis unfolding pending_ok_def by blast
qed

theorem transport_wellformed_witness:
  "reach 0 [] (opened here there) \<and> distinct (map ln_id (tp_paths (opened here there))) \<and>
    set (tp_pending (opened here there)) \<subseteq> dom (tp_packets (opened here there))"
  using transport_wellformed [OF opened_reach [OF epoch_sets(1)], of there] opened_reach [OF epoch_sets(1)] by blast

text \<open>
  C22: In every reachable state at most 8192 datagrams wait or await their acknowledgement, a datagram
  was sent at most four times, an attempt counts the overhead and at most a full datagram, the rate a
  lane is paced at is positive and its capacity and delivery estimates are not negative. That the rate
  stays above the minimum rate is not claimed: a pulse is set from the capacity estimate without it.
\<close>

theorem transport_bounds:
  assumes "reach n ds t"
  shows "queued t + int (length (tp_pending t)) \<le> int maxPackets \<and>
    (\<forall>s k. tp_packets t s = Some k \<longrightarrow> 1 \<le> pk_attempts k \<and> pk_attempts k \<le> 4 \<and> length (pk_payload k) \<le> maxDatagram) \<and>
    (\<forall>p \<in> set (tp_paths t). 0 < ln_rate p \<and> 0 \<le> cn_capacity (ln_control p) \<and> 0 \<le> ln_deliveryRate p \<and>
      (\<forall>(s, a) \<in> set (ln_attempts p). wireOverhead \<le> at_bytes a \<and> at_bytes a \<le> int maxDatagram + wireOverhead))"
  using reach_ok [OF assms]
  by (auto simp: tp_ok_def lanes_ok_def sent_ok_def lane_ok_def flight_ok_def attempt_ok_def rates_ok_def)

theorem transport_bounds_witness:
  "\<exists>p. reach 0 [] (opened here there) \<and> tp_paths (opened here there) = [p] \<and> 0 < ln_rate p \<and>
    queued (opened here there) + int (length (tp_pending (opened here there))) \<le> 8192"
proof -
  obtain p where "tp_paths (opened here there) = [p]" using opened_open(1) [of here there] by auto
  then show ?thesis using transport_bounds [OF opened_reach [OF epoch_sets(1)], of there] opened_reach [OF epoch_sets(1)]
    by (auto simp: maxPackets_def)
qed

text \<open>
  C8: In every reachable state the handlers return: queueing a datagram and receiving any frame do,
  without a nil dereference, and so does a poll while the sequences last, its loops over the queues
  included; it sends at most one frame per receiver, lane and pending datagram and two per queued one.
\<close>

theorem transport_returns:
  assumes "reach n ds t"
  shows "(\<exists>r t'. Enqueue t payload metadata now = Some (r, t')) \<and> (\<exists>r t'. Receive visit t i f now = Some (r, t')) \<and>
    (Suc (n + poll_bound t) < 2 ^ 64 \<longrightarrow> (\<exists>r t'. Poll visit t now = Some (r, t') \<and>
      (case r of Inl _ \<Rightarrow> True | Inr out \<Rightarrow> length out \<le> poll_bound t)))"
proof -
  have ok: "tp_ok n (tp_pendingOrder t) t" using reach_ok [OF assms] by simp
  obtain c t1 where "checkTime t now = (c, t1)" by fastforce
  then show ?thesis using Enqueue_ok [OF ok, of payload metadata now] Receive_ok [OF ok, of now c t1 visit i f] Poll_ok [OF ok, of visit now]
    by (fastforce split: sum.splits)
qed

theorem transport_returns_witness:
  "reach 0 [] (opened here there) \<and> (\<exists>r t'. Poll (\<lambda>_ ks. ks) (opened here there) 20 = Some (r, t') \<and>
    (case r of Inl _ \<Rightarrow> True | Inr out \<Rightarrow> length out \<le> 1))"
proof -
  have b: "poll_bound (opened here there) = 1" by (simp add: opened_open)
  show ?thesis
    using transport_returns [OF opened_reach [OF epoch_sets(1)], of there "[1]" "\<lparr>pm_Flow = no_flow, pm_ACK = sample_ack\<rparr>" 20
      "\<lambda>_ ks. ks" 3 "dataFrame there here 3 1 1 1 [7]", unfolded b] opened_reach [OF epoch_sets(1)] by simp
qed

text \<open>
  C5: Within an epoch a datagram is delivered at most once, whatever is lost, repeated, reordered or
  forged among the frames: the delivered sequences are distinct, and a frame delivers nothing or one
  datagram whose sequence was never delivered.
\<close>

theorem delivered_once:
  assumes "reach n ds t"
  shows "distinct ds \<and> (\<forall>visit i f now dl t'. Receive visit t i f now = Some (Inr dl, t') \<longrightarrow>
    dl = [] \<or> length dl = 1 \<and> datagram_seq f \<notin> set ds)"
  using reach_distinct [OF assms] reach_new [OF assms] by blast

theorem delivered_once_witness:
  "\<exists>t. reach 0 [1] t \<and> (\<forall>visit i f now dl t'. datagram_seq f = 1 \<longrightarrow> Receive visit t i f now = Some (Inr dl, t') \<longrightarrow> dl = [])"
proof -
  obtain t where t: "reach 0 [1] t" using sample_delivery by blast
  then show ?thesis using delivered_once [OF t] by fastforce
qed

text \<open>
  C29: A frame that is refused changes nothing but the clock and the count of the cause it is refused for.
\<close>

theorem refused_inert:
  assumes "reach n ds t" and "Receive visit t i f now = Some (Inl e, t')"
  shows "t' = t\<lparr>tp_lastTime := max (tp_lastTime t) now,
    tp_rejected := (tp_rejected t)(rj_Cause e := tp_rejected t (rj_Cause e) + 1)\<rparr>"
proof -
  have ok: "tp_ok n (tp_pendingOrder t) t" using reach_ok [OF assms(1)] by simp
  have "checkTime t now = (fst (checkTime t now), t\<lparr>tp_lastTime := max (tp_lastTime t) now\<rparr>)" by (simp add: checkTime_def max_def)
  from Receive_ok [OF ok this, of visit i f] show ?thesis using assms(2) by simp
qed

theorem refused_inert_witness:
  "\<exists>e t'. reach 0 [] (opened here there) \<and>
    Receive (\<lambda>_ ks. ks) (opened here there) 3 \<lparr>ct_ControlType = DataType, ct_Seq = 1, ct_Payload = []\<rparr> 20 = Some (Inl e, t') \<and>
    t' = (opened here there)\<lparr>tp_lastTime := 20, tp_rejected := (tp_rejected (opened here there))(rj_Cause e := tp_rejected (opened here there) (rj_Cause e) + 1)\<rparr>"
proof -
  have r: "reach 0 [] (opened here there)" by (rule opened_reach [OF epoch_sets(1)])
  obtain e t' where e: "Receive (\<lambda>_ ks. ks) (opened here there) 3 \<lparr>ct_ControlType = DataType, ct_Seq = 1, ct_Payload = []\<rparr> 20 = Some (Inl e, t')"
    by (simp add: Receive_def receive_def checkTime_def parseHeader_def opened_open)
  show ?thesis using refused_inert [OF r e] r e by (simp add: opened_open)
qed

text \<open>
  C6: A datagram sent for the first time by one transport and received by its peer, on a lane both
  know and with sequences the peer has not yet taken, comes out unchanged: the payload byte for byte,
  its traffic kind and its place in the order of that kind.
\<close>

theorem datagram_end_to_end:
  assumes send: "transmit s k p sent = (tx, k', s')" and k: "pk_seq k = 0" "pk_payload k \<noteq> []" "length (pk_payload k) \<le> maxDatagram"
    and room: "unat (tp_seq s) < 2 ^ 64 - 1" "unat (ln_seq p) < 2 ^ 64 - 1" "unat (tp_interactiveSeq s) < 2 ^ 63 - 1" "unat (tp_bulkSeq s) < 2 ^ 63 - 1"
    and peers: "reach n ds r" "tp_remote r = tp_epoch s" "tp_epoch r = tp_remote s" "epoch_set (tp_epoch s)"
    and lane: "find_lane r path = Some q" "up q now" "ln_remoteID q = ln_id p" "tp_lastTime r \<le> now"
    and first: "case find_receiver r (ln_id p) of None \<Rightarrow> True | Some rc \<Rightarrow> rc_path rc = path \<and> fst (mark (rc_receipts rc) (ln_seq p + 1))"
    and new: "tp_seq s + 1 \<notin> set ds" "\<forall>e \<in> set ds. tp_seq s + 1 < e \<longrightarrow> unat (e - (tp_seq s + 1)) < maxPackets"
  shows "\<exists>r'. Receive visit r path (tx_Frame tx) now = Some (Inr [\<lparr>dl_Sequence = (if pk_interactive k then tp_interactiveSeq s + 1 else tp_bulkSeq s + 1),
    dl_Interactive = pk_interactive k, dl_Payload = pk_payload k\<rparr>], r')"
proof -
  let ?x = "if pk_interactive k then tp_interactiveSeq s + 1 else tp_bulkSeq s + 1"
  have x: "unat ?x < 2 ^ 63" "?x \<noteq> 0" using succ_u64 [of "tp_interactiveSeq s"] succ_u64 [of "tp_bulkSeq s"] room(3,4) by auto
  have o: "next_order s k AND NOT interactiveBit = ?x" "(next_order s k AND interactiveBit \<noteq> 0) = pk_interactive k"
    using order_bits [OF x(1)] by (auto simp: next_order_def)
  have nz: "tp_seq s + 1 \<noteq> 0" "ln_seq p + 1 \<noteq> 0" using succ_u64 room(1,2) by auto
  have f: "tx_Frame tx = dataFrame (tp_remote r) (tp_epoch r) (ln_id p) (ln_seq p + 1) (tp_seq s + 1) (next_order s k) (pk_payload k)"
    using transmit_frame [OF send k(1)] peers(2,3) by simp
  have m: "fst (mark (tp_received r) (tp_seq s + 1))" using reach_ok [OF peers(1)] new by (auto simp: marks_accept not_le)
  have "epoch_set (tp_remote r)" using peers by simp
  moreover have "next_order s k AND NOT interactiveBit \<noteq> 0" using o(1) x(2) by simp
  ultimately show ?thesis using Receive_delivers [OF f _ lane(4,1-3) nz(1) _ k(2,3) first nz(2) m, of visit] unfolding o by blast
qed

theorem datagram_end_to_end_witness:
  "\<exists>p tx k' s' r'. tp_paths (opened here there) = [p] \<and> transmit (opened here there) sample_datagram p 15 = (tx, k', s') \<and>
    Receive (\<lambda>_ ks. ks) (opened there here) 3 (tx_Frame tx) 20 =
      Some (Inr [\<lparr>dl_Sequence = 1, dl_Interactive = True, dl_Payload = [1, 2, 3]\<rparr>], r')"
proof -
  obtain p where p: "tp_paths (opened here there) = [p]" "ln_id p = 3" "ln_seq p = 0" using opened_open(1) [of here there] by auto
  obtain q where q: "tp_paths (opened there here) = [q]" "ln_id q = 3" "ln_remoteID q = 3" "up q 20" using opened_open(1) [of there here] by auto
  obtain tx k' s' where e: "transmit (opened here there) sample_datagram p 15 = (tx, k', s')" by (rule prod_cases3)
  have "\<exists>r'. Receive (\<lambda>_ ks. ks) (opened there here) 3 (tx_Frame tx) 20 =
      Some (Inr [\<lparr>dl_Sequence = if pk_interactive sample_datagram then tp_interactiveSeq (opened here there) + 1 else tp_bulkSeq (opened here there) + 1,
        dl_Interactive = pk_interactive sample_datagram, dl_Payload = pk_payload sample_datagram\<rparr>], r')"
    by (rule datagram_end_to_end [OF e _ _ _ _ _ _ _ opened_reach [OF epoch_sets(2)], where q = q])
      (use p q in \<open>simp_all add: opened_open epoch_sets sample_datagram_def sample_packet_def maxDatagram_def find_lane_def find_receiver_def\<close>)
  then show ?thesis using p(1) e by (simp add: opened_open sample_datagram_def sample_packet_def)
qed

end
