(* ===== verification/Spec2Isabelle.thy ===== *)
theory Spec2Isabelle
  imports Wanbond_Prelude Frame_Panics Wire Reseq_Reorder Probe Queue Codel Pmtu_Probe Receipts Meters Control_Rates Reception Transport_Runs
begin

text \<open>
  wanbond bonds several wide-area paths into one WireGuard tunnel. WireGuard datagrams enter a
  transport, which queues them by traffic class, chooses a path for each, paces every path by a rate
  it measures, repeats what is not acknowledged and discards what arrives twice; a resequencer puts
  the datagrams back in order on the far side. Beside the data, probes measure every path, find its
  MTU and decide whether it is up. Everything on the wire is enclosed in frames that are encrypted
  and authenticated. This development models those parts, function by function, and proves what they
  promise.

  \<^bold>\<open>Conventions.\<close> A Go struct is a record and its methods are functions that take and return it.
  Unsigned integers are words of their width and wrap; an \<open>int\<close> counter, a duration and an instant
  are unbounded integers, with the saturation of \<open>time.Time.Sub\<close> written out (\<open>time_sub\<close>); the zero
  time is 0. A \<open>float64\<close> is a rational: rounding is not modelled. The interval
  of the drop schedule, divided by a square root, is exact before its truncation to nanoseconds. A
  peak is only ever made with a positive bucket, so its advance is written for that case. The offset of \<open>UnixNano\<close> from the zero time is left out of probe
  timestamps: it cancels, since only the prober that wrote one reads it back. An error is a value of a sum or
  option type. None as the result of a computation stands for a panic, a nil dereference or a loop
  that does not end, and theorems that a computation returns show that none of them happens. The
  clock, the random source, the order in which Go visits a map and the outcome of a socket write are
  arguments. Locks are not modelled: the operations are those that the source runs under one lock,
  and a property of a run holds for every interleaving of them.

  \<^bold>\<open>Shared vocabulary.\<close> Wanbond_Prelude has byte strings, big-endian numbers, instants, and two
  interfaces as locales: \<open>byte_codec\<close> for an encoder and a parser that are inverse to each other,
  interpreted on the plaintext body of a frame, the lane header, the acknowledgement and the hello,
  and \<open>once_filter\<close> for a filter that accepts no key twice, interpreted on the two replay filters.
  Go_Numbers has the conversions between integers and floats.

  \<^bold>\<open>Frames\<close> (internal/frame/frame.go): Frame has key derivation, the plaintext bodies, sealing and
  opening. HKDF, XChaCha20, HMAC and the nonce source are fields of the record \<open>crypto\<close>; their
  documented laws are the hypothesis \<open>crypto_laws\<close>, instantiated by \<open>sample_crypto\<close>. Decoding undoes
  encoding and accepts only what the holder of the key sealed, and a padded probe has the size asked
  for. Frame reads Go's index and slice expressions as total functions; Frame_Panics has the decoder
  again with the run-time check of each and shows that none ever fails.

  \<^bold>\<open>Wire format of the transport\<close> (internal/bond/wire.go, errors.go): Wire has the lane header, data
  and acknowledgement frames and the hello. Each parser accepts exactly what its encoder produces.

  \<^bold>\<open>Resequencer\<close> (internal/reseq/reseq.go): Reseq has the model; Reseq_Ring, Reseq_Hold and Reseq_Ops
  the invariant of its ring and of its hold and their preservation; Reseq_Order and Reseq_Reorder the
  properties of whole runs: released sequences ascend, every operation returns with at most a window
  buffered, a frame waits no longer than the hold, reordering within the window is invisible, and the
  guard against discontinuities moves only on corroborated evidence.

  \<^bold>\<open>Telemetry\<close> (internal/telemetry): Replay has the replay filters (probe.go, control.go), Liveness the
  up and down decision (liveness.go), Estimator the smoothed delay and the loss window
  (estimator.go), Probe the prober and the reflector with restarts of either side (probe.go), Pmtu
  the MTU search (pmtu.go) over the interface \<open>pmtu_seam\<close> and its extension \<open>pmtu_lossless\<close>, and
  Pmtu_Probe the production seam (pmtuprobe.go), which is a sublocale of the latter, with the MTU
  accounting of internal/bind/mtu.go. The channel a probe waits on has a capacity and a parked
  receiver, and echoes may be notified during the socket write, before the wait and during it. The
  properties of the responder speak of the sessions its state records, not of the verdicts it
  returns: when the draw of a challenge fails the two differ. The sequence of the
  loss window would have to reach the last 64-bit word for its loops not to end; the theorems name
  that bound. The MTU search is shown to
  converge while enough probe sequences are left (\<open>path_fuel\<close>): ten per confirmation asked for and
  byte of the interval, more than halving it takes.

  \<^bold>\<open>Transport\<close> (internal/bond): Queue has the queues (queue.go) and the proof that the linked ring of
  flows implements round robin; Codel the drop schedule of the bulk queue; Receipts the windows of
  received sequences and what acknowledgements report of them; Meters the rate meters, peaks and the
  loss ledger (schedule.go, control.go). Lane is the state of a path with its liveness
  (link_model.go) and class shares, Control its rate control (control.go), Transport everything from
  \<open>New\<close> to \<open>Poll\<close> (bond.go, schedule.go) and Reception \<open>Receive\<close> with the acknowledgement handler and
  the snapshot. A packet that was sent is shared in the source between the pending set and the
  attempts of several lanes; here it lives in a store keyed by its sequence, and a pointer to it is
  that key. A pointer to a lane is its path identifier.

  The proofs about the transport go bottom up. Control_Rates shows which fields the rate control
  leaves alone and that rates stay positive; Flight that the in-flight counts of a lane are exact
  through every operation on its attempts; Ack_Loops and Ack_Lanes the same for the acknowledgement
  handler; Transport_Ok defines the invariant \<open>tp_ok\<close> of the whole transport and shows it for opening,
  closing, queueing and a single transmission; Poll_Ok, Send_Ok and Receive_Ok for the handlers.
  Transport_Runs collects all runs as the relation \<open>reach\<close>, one rule per operation, and has the
  properties of every reachable state: exact in-flight accounting, no dangling reference, bounded
  queues and attempts, handlers that return, delivery at most once per epoch, refused frames without
  effect, and a datagram that arrives as it was sent. The loops over the queues are partial functions
  in the model; a poll sends at most \<open>poll_bound\<close> frames, and a run polls only while the 64-bit
  sequences of the epoch cannot run out, which at a frame per nanosecond takes five centuries.

  \<^bold>\<open>Not modelled.\<close> Sockets, goroutines and the multipath bind (internal/bind apart from mtu.go), which
  carry bytes between the operating system and the parts above; the assembly of the device, failover,
  exit selection, routes and MSS clamping (internal/device), which are calls into the operating
  system and the embedded WireGuard; configuration, name resolution, metrics, the monitor, logging
  and the command line, which wrap third-party packages; rounding of floating-point numbers; data
  races, since each operation runs under its lock; WireGuard itself.
\<close>

end
